(* ===== verification/Xv6_Prelude.thy ===== *)
theory Xv6_Prelude
  imports Main "HOL-Library.Word"
begin

unbundle bit_operations_syntax

text \<open>
  Shared vocabulary of the development: machine words and byte arrays, the result type
  of C functions that may not return normally, loops over index ranges, 32-bit wrap-around
  of C's \<open>int\<close>, and the interface of a fixed-size byte encoding (locale \<open>codec\<close>) through
  which the on-disk records are read and written.
\<close>

section \<open>Words and byte arrays\<close>

type_synonym u8 = "8 word"
type_synonym u16 = "16 word"
type_synonym u32 = "32 word"

text \<open>
  A byte array (a disk block, a disk image) is a function from offsets to bytes.
  \<open>rd f off n\<close> reads \<open>n\<close> bytes at \<open>off\<close>; \<open>wr f off bs\<close> stores \<open>bs\<close> at \<open>off\<close>.
\<close>

type_synonym bytes = "nat \<Rightarrow> u8"

named_theorems bytes_simps "reading and writing byte arrays"
named_theorems res_simps "results of C functions and loops over them"

definition rd :: "bytes \<Rightarrow> nat \<Rightarrow> nat \<Rightarrow> u8 list" where
  "rd f off n = map f [off..<off + n]"

definition wr :: "bytes \<Rightarrow> nat \<Rightarrow> u8 list \<Rightarrow> bytes" where
  "wr f off bs = (\<lambda>i. if off \<le> i \<and> i < off + length bs then bs ! (i - off) else f i)"

lemma length_rd [simp]: "length (rd f off n) = n"
  by (simp add: rd_def)

lemma rd_nth [simp]: "i < n \<Longrightarrow> rd f off n ! i = f (off + i)"
  by (simp add: rd_def)

lemma rd_wr_same [bytes_simps]: "length bs = n \<Longrightarrow> rd (wr f off bs) off n = bs"
  by (rule nth_equalityI) (auto simp: wr_def)

lemma rd_wr_other [bytes_simps]:
  "off' + n \<le> off \<or> off + length bs \<le> off' \<Longrightarrow> rd (wr f off bs) off' n = rd f off' n"
  by (rule nth_equalityI) (auto simp: wr_def)

lemma wr_apply_other [bytes_simps]: "i < off \<or> off + length bs \<le> i \<Longrightarrow> wr f off bs i = f i"
  by (auto simp: wr_def)

lemma wr_apply_in [bytes_simps]: "off \<le> i \<Longrightarrow> i < off + length bs \<Longrightarrow> wr f off bs i = bs ! (i - off)"
  by (auto simp: wr_def)

lemma wr_Nil [simp]: "wr f off [] = f"
  by (rule ext) (auto simp: wr_def)

lemma take_rd [bytes_simps]: "take k (rd f off n) = rd f off (min k n)"
  by (rule nth_equalityI) auto

lemma drop_rd [bytes_simps]: "k \<le> n \<Longrightarrow> drop k (rd f off n) = rd f (off + k) (n - k)"
  by (rule nth_equalityI) (auto simp: add.assoc)

lemma rd_add [bytes_simps]: "rd f off (m + n) = rd f off m @ rd f (off + m) n"
  by (rule nth_equalityI) (auto simp: nth_append)

lemma wr_rd_id [simp]: "wr f off (rd f off n) = f"
  by (rule ext) (auto simp: wr_def)

lemma wr_wr_same [bytes_simps]: "length a = length b \<Longrightarrow> wr (wr f off a) off b = wr f off b"
  by (rule ext) (auto simp: wr_def)

section \<open>C's int\<close>

text \<open>\<open>i32 x\<close> is the value the 32-bit two's complement \<open>int\<close> holds for the mathematical \<open>x\<close>.\<close>

definition i32 :: "int \<Rightarrow> int" where
  "i32 x = signed_take_bit 31 x"

lemma i32_id [simp]: "- 2147483648 \<le> x \<Longrightarrow> x < 2147483648 \<Longrightarrow> i32 x = x"
  by (simp add: i32_def signed_take_bit_int_eq_self)

abbreviation INT_MAX :: int where "INT_MAX \<equiv> 2147483647"

lemma i32_bounds [simp]: "- 2147483648 \<le> i32 x" "i32 x < 2147483648"
  using signed_take_bit_int_greater_eq_minus_exp [of 31 x] signed_take_bit_int_less_exp [of 31 x]
  by (simp_all add: i32_def)

text \<open>A \<open>uint\<close> assigned to an \<open>int\<close>.\<close>

definition int_of_u32 :: "u32 \<Rightarrow> int" where
  "int_of_u32 w = sint w"

text \<open>C's \<open>/\<close> and \<open>%\<close> on \<open>int\<close> round towards zero.\<close>

definition cdiv :: "int \<Rightarrow> int \<Rightarrow> int" where
  "cdiv a b = sgn a * sgn b * (\<bar>a\<bar> div \<bar>b\<bar>)"

definition cmod :: "int \<Rightarrow> int \<Rightarrow> int" where
  "cmod a b = a - b * cdiv a b"

lemma cdiv_nonneg [simp]: "0 \<le> a \<Longrightarrow> 0 < b \<Longrightarrow> cdiv a b = a div b"
  by (cases "a = 0") (auto simp: cdiv_def)

lemma cmod_nonneg [simp]: "0 \<le> a \<Longrightarrow> 0 < b \<Longrightarrow> cmod a b = a mod b"
  by (simp add: cmod_def minus_mult_div_eq_mod)

section \<open>Results\<close>

text \<open>
  \<open>Ret\<close>: the function returned. \<open>Halt m\<close>: it printed \<open>m\<close> and stopped the program
  (\<open>panic\<close> in the kernel, \<open>exit(1)\<close> after an error message in a user program).
  \<open>Fault\<close>: it used an invalid pointer or index, which C leaves undefined.
  \<open>NoRet\<close>: it did not return (it sleeps with nobody left to wake it, or a recursion
  is deeper than the fuel given).
\<close>

datatype 'a res = Ret 'a | Halt string | Fault | NoRet

fun rbind :: "'a res \<Rightarrow> ('a \<Rightarrow> 'b res) \<Rightarrow> 'b res" where
  "rbind (Ret x) f = f x"
| "rbind (Halt m) f = Halt m"
| "rbind Fault f = Fault"
| "rbind NoRet f = NoRet"

lemma rbind_Ret [simp]: "rbind m Ret = m"
  by (cases m) auto

lemma rbind_assoc: "rbind (rbind m f) g = rbind m (\<lambda>x. rbind (f x) g)"
  by (cases m) auto

lemma rbind_eq_Ret [res_simps]: "rbind m f = Ret y \<longleftrightarrow> (\<exists>x. m = Ret x \<and> f x = Ret y)"
  by (cases m) auto

lemma rbind_cong [fundef_cong]: "m = m' \<Longrightarrow> (\<And>x. m' = Ret x \<Longrightarrow> f x = f' x) \<Longrightarrow> rbind m f = rbind m' f'"
  by (cases m') auto

lemma map_res_rbind [res_simps]: "map_res f (rbind m k) = rbind m (\<lambda>x. map_res f (k x))"
  by (cases m) auto

lemma rbind_map_res: "rbind (map_res f m) k = rbind m (\<lambda>x. k (f x))"
  by (cases m) auto

text \<open>A dereference: \<open>None\<close> is the null or invalid pointer.\<close>

definition deref :: "'a option \<Rightarrow> 'a res" where
  "deref p = (case p of None \<Rightarrow> Fault | Some x \<Rightarrow> Ret x)"

lemma deref_simps [simp]: "deref None = Fault" "deref (Some x) = Ret x"
  by (simp_all add: deref_def)

text \<open>Array access by a C index, which faults out of range.\<close>

definition arr_get :: "'a list \<Rightarrow> int \<Rightarrow> 'a res" where
  "arr_get xs i = (if 0 \<le> i \<and> nat i < length xs then Ret (xs ! nat i) else Fault)"

definition arr_set :: "'a list \<Rightarrow> int \<Rightarrow> 'a \<Rightarrow> 'a list res" where
  "arr_set xs i v = (if 0 \<le> i \<and> nat i < length xs then Ret (xs[nat i := v]) else Fault)"

lemma arr_get_in [simp]: "0 \<le> i \<Longrightarrow> nat i < length xs \<Longrightarrow> arr_get xs i = Ret (xs ! nat i)"
  by (simp add: arr_get_def)

lemma arr_set_in [simp]: "0 \<le> i \<Longrightarrow> nat i < length xs \<Longrightarrow> arr_set xs i v = Ret (xs[nat i := v])"
  by (simp add: arr_set_def)

section \<open>Loops\<close>

text \<open>\<open>rfold body xs s\<close>: a \<open>for\<close> loop over the index sequence \<open>xs\<close> with loop state \<open>s\<close>.\<close>

fun rfold :: "('i \<Rightarrow> 's \<Rightarrow> 's res) \<Rightarrow> 'i list \<Rightarrow> 's \<Rightarrow> 's res" where
  "rfold f [] s = Ret s"
| "rfold f (x # xs) s = rbind (f x s) (rfold f xs)"

lemma rfold_cong [fundef_cong]:
  "xs = ys \<Longrightarrow> s = t \<Longrightarrow> (\<And>x u. x \<in> set ys \<Longrightarrow> f x u = g x u) \<Longrightarrow> rfold f xs s = rfold g ys t"
proof (induction ys arbitrary: xs s t)
  case (Cons y ys)
  then show ?case by (cases "g y t") auto
qed simp

lemma rfold_append [res_simps]: "rfold f (xs @ ys) s = rbind (rfold f xs s) (rfold f ys)"
proof (induction xs arbitrary: s)
  case (Cons x xs)
  then show ?case by (cases "f x s") auto
qed simp

text \<open>A loop whose body only checks: it passes when every index passes.\<close>

lemma rfold_check:
  assumes "\<And>x. x \<in> set xs \<Longrightarrow> f x s = (if P x then Ret s else Halt m)"
  shows "rfold f xs s = (if \<forall>x\<in>set xs. P x then Ret s else Halt m)"
  using assms by (induction xs) auto

text \<open>The same with an invariant of the loop's working state.\<close>

lemma rfold_check_inv:
  assumes "\<And>x s. x \<in> set xs \<Longrightarrow> I s \<Longrightarrow> if P x then \<exists>s'. f x s = Ret s' \<and> I s' else f x s = Halt m" and "I s"
  shows "if \<forall>x\<in>set xs. P x then \<exists>s'. rfold f xs s = Ret s' \<and> I s' else rfold f xs s = Halt m"
  using assms
proof (induction xs arbitrary: s)
  case (Cons x xs)
  show ?case
  proof (cases "P x")
    case True
    then obtain s' where "f x s = Ret s'" "I s'" using Cons.prems(1) [of x s] Cons.prems(2) by auto
    then show ?thesis using Cons.IH [of s'] Cons.prems(1) True by auto
  next
    case False
    then have "f x s = Halt m" using Cons.prems(1) [of x s] Cons.prems(2) by auto
    with False show ?thesis by auto
  qed
qed simp

text \<open>A loop whose body always returns is the fold of its effect.\<close>

lemma rfold_pure:
  assumes "\<And>x s. x \<in> set xs \<Longrightarrow> I s \<Longrightarrow> f x s = Ret (g x s) \<and> I (g x s)" and "I s"
  shows "rfold f xs s = Ret (fold g xs s) \<and> I (fold g xs s)"
  using assms by (induction xs arbitrary: s) auto

lemma rfold_invariant:
  assumes "\<And>x s s'. x \<in> set xs \<Longrightarrow> I s \<Longrightarrow> f x s = Ret s' \<Longrightarrow> I s'" and "I s" and "rfold f xs s = Ret s'"
  shows "I s'"
  using assms by (induction xs arbitrary: s) (auto simp: rbind_eq_Ret)

section \<open>Fixed-size encodings\<close>

text \<open>
  The contract of a C struct stored as bytes: every valid value occupies \<open>sz\<close> bytes and
  reading them gives it back. What follows from it about arrays of such structs inside a
  block (slot \<open>k\<close> at byte offset \<open>k * sz\<close>) is proved once, here.
\<close>

locale codec =
  fixes enc :: "'a \<Rightarrow> u8 list" and dec :: "u8 list \<Rightarrow> 'a" and sz :: nat and valid :: "'a \<Rightarrow> bool"
  assumes sz_pos: "0 < sz"
    and length_enc: "valid x \<Longrightarrow> length (enc x) = sz"
    and dec_enc: "valid x \<Longrightarrow> dec (enc x) = x"
    and valid_dec: "length bs = sz \<Longrightarrow> valid (dec bs)"
    and enc_dec: "length bs = sz \<Longrightarrow> enc (dec bs) = bs"
begin

lemma get_put_same: "valid x \<Longrightarrow> dec (rd (wr f off (enc x)) off sz) = x"
  by (simp add: rd_wr_same length_enc dec_enc)

lemma slot_disjoint: "j \<noteq> k \<Longrightarrow> j * sz + sz \<le> k * sz \<or> k * sz + sz \<le> j * sz"
proof -
  assume "j \<noteq> k"
  then consider "Suc j \<le> k" | "Suc k \<le> j" by linarith
  then show ?thesis
  proof cases
    case 1
    then have "Suc j * sz \<le> k * sz" by (rule mult_le_mono1)
    then show ?thesis by simp
  next
    case 2
    then have "Suc k * sz \<le> j * sz" by (rule mult_le_mono1)
    then show ?thesis by simp
  qed
qed

lemma slot_get_put:
  "valid x \<Longrightarrow> dec (rd (wr f (k * sz) (enc x)) (j * sz) sz) = (if j = k then x else dec (rd f (j * sz) sz))"
  using slot_disjoint [of j k]
  by (cases "j = k") (simp_all add: get_put_same rd_wr_other length_enc)

lemma enc_inject: "valid x \<Longrightarrow> valid y \<Longrightarrow> enc x = enc y \<longleftrightarrow> x = y"
  by (metis dec_enc)

lemma put_get_id: "wr f off (enc (dec (rd f off sz))) = f"
  by (simp add: enc_dec)

end

section \<open>Little-endian integers\<close>

definition le16 :: "u16 \<Rightarrow> u8 list" where
  "le16 w = [ucast w, ucast (drop_bit 8 w)]"

definition of_le16 :: "u8 list \<Rightarrow> u16" where
  "of_le16 bs = ucast (bs ! 0) OR push_bit 8 (ucast (bs ! 1))"

definition le32 :: "u32 \<Rightarrow> u8 list" where
  "le32 w = [ucast w, ucast (drop_bit 8 w), ucast (drop_bit 16 w), ucast (drop_bit 24 w)]"

definition of_le32 :: "u8 list \<Rightarrow> u32" where
  "of_le32 bs = ucast (bs ! 0) OR push_bit 8 (ucast (bs ! 1))
     OR push_bit 16 (ucast (bs ! 2)) OR push_bit 24 (ucast (bs ! 3))"

lemma length_le [simp]: "length (le16 w) = 2" "length (le32 v) = 4"
  by (simp_all add: le16_def le32_def)

lemma bit_u8D: "bit (a :: u8) n \<Longrightarrow> n < 8"
  using bit_imp_le_length [of a n] by simp

lemma bit_of_le16: "bit (of_le16 bs) n \<longleftrightarrow> (if n < 8 then bit (bs ! 0) n else bit (bs ! 1) (n - 8))"
  by (auto simp: of_le16_def bit_simps dest: bit_u8D)

lemma bit_of_le32: "bit (of_le32 bs) n \<longleftrightarrow>
   (if n < 8 then bit (bs ! 0) n else if n < 16 then bit (bs ! 1) (n - 8)
    else if n < 24 then bit (bs ! 2) (n - 16) else bit (bs ! 3) (n - 24))"
  by (auto simp: of_le32_def bit_simps dest: bit_u8D)

lemma of_le16_le16 [simp]: "of_le16 (le16 w) = w"
  by (rule bit_eqI) (auto simp: bit_of_le16 le16_def bit_simps)

lemma of_le32_le32 [simp]: "of_le32 (le32 w) = w"
  by (rule bit_eqI) (auto simp: bit_of_le32 le32_def bit_simps)

lemma le16_of_le16 [simp]: "length bs = 2 \<Longrightarrow> le16 (of_le16 bs) = bs"
  by (auto simp: le16_def numeral_2_eq_2 length_Suc_conv bit_of_le16 bit_simps intro!: bit_eqI)

lemma le32_of_le32 [simp]: 
 assumes "length bs = 4" shows "le32 (of_le32 bs) = bs"
proof -
  obtain a b c d where bs: "bs = [a, b, c, d]"
    using assms by (auto simp: numeral_eq_Suc length_Suc_conv)
  show ?thesis unfolding bs le32_def
    by (auto simp: bit_of_le32 bit_simps intro!: bit_eqI)
qed
interpretation le16: codec le16 of_le16 2 "\<lambda>_. True"
  by unfold_locales simp_all

interpretation le32: codec le32 of_le32 4 "\<lambda>_. True"
  by unfold_locales simp_all

text \<open>A signed integer that is small and not negative.\<close>

lemma sint_small:
  assumes "unat (w :: u32) < 2147483648"
  shows "sint w = int (unat w)"
proof -
  have "int (unat w) < 2147483648" using assms by linarith
  then have "uint w < 2147483648" by simp
  then have "signed_take_bit 31 (uint w) = uint w" by (intro signed_take_bit_int_eq_self) (auto intro: order_trans [OF _ uint_ge_0])
  then show ?thesis by (simp add: sint_uint)
qed

end
