(* ===== verification/Fs_Layout.thy ===== *)
theory Fs_Layout
  imports Xv6_Prelude
begin

text \<open>
  The on-disk format of the file system (\<open>xv6/include/fs.h\<close>, \<open>a/fs.h\<close>, \<open>xv6/include/stat.h\<close>):
  its constants, the super block, the on-disk inode and the directory entry as records, and
  their byte images. Each record's byte image is an instance of the \<open>codec\<close> interface.
\<close>

section \<open>Constants\<close>

abbreviation BSIZE :: nat where "BSIZE \<equiv> 512"
abbreviation NDIRECT :: nat where "NDIRECT \<equiv> 12"
abbreviation NINDIRECT :: nat where "NINDIRECT \<equiv> 128"
abbreviation MAXFILE :: nat where "MAXFILE \<equiv> 140"
abbreviation SMALLFILE_SIZE :: nat where "SMALLFILE_SIZE \<equiv> 52"
abbreviation IPB :: nat where "IPB \<equiv> 8"
abbreviation BPB :: nat where "BPB \<equiv> 4096"
abbreviation DIRSIZ :: nat where "DIRSIZ \<equiv> 14"
abbreviation DIRENT_SZ :: nat where "DIRENT_SZ \<equiv> 16"
abbreviation DINODE_SZ :: nat where "DINODE_SZ \<equiv> 64"
abbreviation ROOTINO :: u32 where "ROOTINO \<equiv> 1"

abbreviation T_DIR :: u16 where "T_DIR \<equiv> 1"
abbreviation T_FILE :: u16 where "T_FILE \<equiv> 2"
abbreviation T_DEV :: u16 where "T_DEV \<equiv> 3"
abbreviation T_SMALLFILE :: u16 where "T_SMALLFILE \<equiv> 4"

text \<open>Block containing inode \<open>i\<close>; block containing the bitmap bit of block \<open>b\<close>.\<close>

definition IBLOCK :: "u32 \<Rightarrow> u32" where
  "IBLOCK i = i div 8 + 2"

definition BBLOCK :: "u32 \<Rightarrow> u32 \<Rightarrow> u32" where
  "BBLOCK b ninodes = b div 4096 + ninodes div 8 + 3"

section \<open>Records\<close>

record superblock =
  sb_size :: u32
  sb_nblocks :: u32
  sb_ninodes :: u32

record dinode =
  di_type :: u16
  di_major :: u16
  di_minor :: u16
  di_nlink :: u16
  di_size :: u32
  di_addrs :: "u32 list"

record dirent =
  de_inum :: u16
  de_name :: "u8 list"

definition enc_superblock :: "superblock \<Rightarrow> u8 list" where
  "enc_superblock sb = le32 (sb_size sb) @ le32 (sb_nblocks sb) @ le32 (sb_ninodes sb)"

definition dec_superblock :: "u8 list \<Rightarrow> superblock" where
  "dec_superblock bs = \<lparr>sb_size = of_le32 (take 4 bs), sb_nblocks = of_le32 (take 4 (drop 4 bs)),
     sb_ninodes = of_le32 (take 4 (drop 8 bs))\<rparr>"

definition enc_dinode :: "dinode \<Rightarrow> u8 list" where
  "enc_dinode d = le16 (di_type d) @ le16 (di_major d) @ le16 (di_minor d) @ le16 (di_nlink d)
     @ le32 (di_size d) @ concat (map le32 (di_addrs d))"

definition dec_dinode :: "u8 list \<Rightarrow> dinode" where
  "dec_dinode bs = \<lparr>di_type = of_le16 (take 2 bs), di_major = of_le16 (take 2 (drop 2 bs)),
     di_minor = of_le16 (take 2 (drop 4 bs)), di_nlink = of_le16 (take 2 (drop 6 bs)),
     di_size = of_le32 (take 4 (drop 8 bs)),
     di_addrs = map (\<lambda>k. of_le32 (take 4 (drop (12 + 4 * k) bs))) [0..<13]\<rparr>"

definition enc_dirent :: "dirent \<Rightarrow> u8 list" where
  "enc_dirent d = le16 (de_inum d) @ de_name d"

definition dec_dirent :: "u8 list \<Rightarrow> dirent" where
  "dec_dirent bs = \<lparr>de_inum = of_le16 (take 2 bs), de_name = take 14 (drop 2 bs)\<rparr>"

section \<open>Byte images\<close>

definition dinode_valid :: "dinode \<Rightarrow> bool" where
  "dinode_valid d \<longleftrightarrow> length (di_addrs d) = 13"

definition dirent_valid :: "dirent \<Rightarrow> bool" where
  "dirent_valid d \<longleftrightarrow> length (de_name d) = 14"

lemma take_drop_join: "m + n = k \<Longrightarrow> take n (drop m bs) @ drop k bs = drop m bs"
  by (metis add.commute append_take_drop_id drop_drop)

text \<open>A vector of 32-bit words.\<close>

lemma length_concat_le32 [simp]: "length (concat (map le32 ws)) = 4 * length ws"
  by (induction ws) auto

lemma take_drop_concat_le32:
  "k < length ws \<Longrightarrow> take 4 (drop (4 * k) (concat (map le32 ws))) = le32 (ws ! k)"
proof (induction ws arbitrary: k)
  case (Cons w ws)
  then show ?case by (cases k) auto
qed simp

lemma map_of_le32_concat:
  "length ws = n \<Longrightarrow> map (\<lambda>k. of_le32 (take 4 (drop (4 * k) (concat (map le32 ws))))) [0..<n] = ws"
  by (rule nth_equalityI) (auto simp: take_drop_concat_le32)

lemma concat_le32_of_le32:
  "length bs = 4 * n \<Longrightarrow> concat (map (\<lambda>k. le32 (of_le32 (take 4 (drop (4 * k) bs)))) [0..<n]) = bs"
proof (induction n arbitrary: bs)
  case (Suc n)
  have tail: "length (drop 4 bs) = 4 * n" using Suc.prems by simp
  have "concat (map (\<lambda>k. le32 (of_le32 (take 4 (drop (4 * k) bs)))) [0..<Suc n])
      = take 4 bs @ concat (map (\<lambda>k. le32 (of_le32 (take 4 (drop (4 * k) (drop 4 bs))))) [0..<n])"
    using Suc.prems by (simp add: upt_conv_Cons map_Suc_upt [symmetric] comp_def add.commute del: upt_Suc)
  also have "\<dots> = bs" using Suc.IH [OF tail] by simp
  finally show ?case .
qed simp

interpretation superblock: codec enc_superblock dec_superblock 12 "\<lambda>_. True"
proof unfold_locales
  fix bs :: "u8 list"
  assume len: "length bs = 12"
  have "enc_superblock (dec_superblock bs) = take 4 bs @ take 4 (drop 4 bs) @ take 4 (drop 8 bs)"
    using len by (simp add: enc_superblock_def dec_superblock_def)
  also have "\<dots> = bs" using len by (simp add: take_drop_join)
  finally show "enc_superblock (dec_superblock bs) = bs" .
qed (simp_all add: enc_superblock_def dec_superblock_def)

interpretation dirent: codec enc_dirent dec_dirent 16 dirent_valid
  by unfold_locales (auto simp: enc_dirent_def dec_dirent_def dirent_valid_def)

interpretation dinode: codec enc_dinode dec_dinode 64 dinode_valid
proof unfold_locales
  fix d :: dinode
  assume "dinode_valid d"
  then show "length (enc_dinode d) = 64" and "dec_dinode (enc_dinode d) = d"
    by (simp_all add: dinode_valid_def enc_dinode_def dec_dinode_def map_of_le32_concat)
next
  fix bs :: "u8 list"
  assume len: "length bs = 64"
  show "dinode_valid (dec_dinode bs)" by (simp add: dinode_valid_def dec_dinode_def)
  have addrs: "concat (map (\<lambda>k. le32 (of_le32 (take 4 (drop (12 + 4 * k) bs)))) [0..<13]) = drop 12 bs"
    using concat_le32_of_le32 [of "drop 12 bs" 13] len by (simp add: add.commute)
  show "enc_dinode (dec_dinode bs) = bs"
    using len addrs by (simp add: enc_dinode_def dec_dinode_def comp_def take_drop_join)
qed simp

end
