(* ===== verification/Fscheck.thy ===== *)
theory Fscheck
  imports Fs_Layout
begin

text \<open>
  The file system checker \<open>a/fscheck.c\<close>, function by function. The globals that \<open>main\<close>
  fills in are the record \<open>fsck\<close>; they do not change while the checks run. What changes is
  the offset \<open>p\<close> of the image's file descriptor and each check's own \<open>dir\<close> buffer, which
  the functions pass along; \<open>junk\<close> is whatever memory fresh from \<open>malloc\<close> holds.
  An error message followed by \<open>exit(1)\<close> is \<open>Halt\<close>, a null or out-of-range access is
  \<open>Fault\<close>, and the two recursive checks take fuel, the recursion depth they may reach.
  The theorems about these functions are in \<open>Fscheck_Spec\<close>.
\<close>

section \<open>State\<close>

record fsck =
  img :: bytes
  img_len :: nat
  junk :: bytes
  imageSize :: int
  numDataBlocks :: int
  numInodes :: int
  numInodeBlocks :: int
  dataBitmapAddr :: int
  beginDataBlocksAddr :: int
  inodes :: "dinode list"
  dataBitmap :: "u8 list"
  inodeHashMap :: "int list"
  inodeHashMap2 :: "int list"
  directoryHashMap :: "int list"

abbreviation ERR_BAD_INODE :: string where "ERR_BAD_INODE \<equiv> ''ERROR: bad inode.''"
abbreviation ERR_PARENT :: string where "ERR_PARENT \<equiv> ''ERROR: parent directory mismatch.''"
abbreviation ERR_BITMAP_USED :: string where
  "ERR_BITMAP_USED \<equiv> ''ERROR: bitmap marks block in use but it is not in use.''"
abbreviation ERR_NOT_FOUND :: string where
  "ERR_NOT_FOUND \<equiv> ''ERROR: inode marked use but not found in a directory.''"
abbreviation ERR_ROOT :: string where "ERR_ROOT \<equiv> ''ERROR: root directory does not exist.''"
abbreviation ERR_REFCOUNT :: string where "ERR_REFCOUNT \<equiv> ''ERROR: bad reference count for file.''"
abbreviation ERR_BAD_ADDR :: string where "ERR_BAD_ADDR \<equiv> ''ERROR: bad address in inode.''"
abbreviation ERR_MARKED_FREE :: string where
  "ERR_MARKED_FREE \<equiv> ''ERROR: address used by inode but marked free in bitmap.''"
abbreviation ERR_TWICE :: string where "ERR_TWICE \<equiv> ''ERROR: address used more than once.''"
abbreviation ERR_FORMAT :: string where "ERR_FORMAT \<equiv> ''ERROR: directory not properly formatted.''"
abbreviation ERR_REF_FREE :: string where
  "ERR_REF_FREE \<equiv> ''ERROR: inode referred to in directory but marked free.''"
abbreviation ERR_DIR_TWICE :: string where
  "ERR_DIR_TWICE \<equiv> ''ERROR: directory appears more than once in file system.''"

section \<open>Helpers\<close>

definition isAllocated :: "fsck \<Rightarrow> int \<Rightarrow> bool res" where
  "isAllocated st blockAddr =
     (let base = cmod blockAddr 4096 in
      if base < 0 then Fault
      else rbind (arr_get (dataBitmap st) (base div 8)) (\<lambda>byte.
        Ret (byte AND push_bit (nat (base mod 8)) 1 \<noteq> 0)))"

definition getInode :: "fsck \<Rightarrow> int \<Rightarrow> dinode option" where
  "getInode st i = (if i \<ge> 0 \<and> i < numInodes st then Some (inodes st ! nat i) else None)"

text \<open>
  \<open>lseek(image, off, SEEK_SET)\<close> fails on a negative offset and leaves the position as it was.
  \<open>read\<close> delivers what the file still has and leaves the rest of the buffer alone.
\<close>

definition lseek_set :: "int \<Rightarrow> nat \<Rightarrow> nat" where
  "lseek_set off p = (if off < 0 then p else nat off)"

definition read_image :: "fsck \<Rightarrow> nat \<Rightarrow> u8 list \<Rightarrow> nat \<times> u8 list" where
  "read_image st p buf =
     (let k = min (length buf) (img_len st - p) in (p + k, rd (img st) p k @ drop k buf))"

definition is_dot :: "dirent \<Rightarrow> bool" where
  "is_dot d \<longleftrightarrow> de_name d ! 0 = 46 \<and> de_name d ! 1 = 0"

definition is_dotdot :: "dirent \<Rightarrow> bool" where
  "is_dotdot d \<longleftrightarrow> de_name d ! 0 = 46 \<and> de_name d ! 1 = 46 \<and> de_name d ! 2 = 0"

abbreviation no_name :: "dirent \<Rightarrow> bool" where
  "no_name d \<equiv> de_name d ! 0 = 0"

abbreviation inum_of :: "dirent \<Rightarrow> int" where
  "inum_of d \<equiv> uint (de_inum d)"

section \<open>Loops over directory entries\<close>

text \<open>How one pass through a loop body ends: on to the next pass, \<open>break\<close>, or \<open>goto\<close> out of all loops.\<close>

datatype 's ctl = Next 's | Break 's | Goto 's

fun for_ctl :: "('i \<Rightarrow> 's \<Rightarrow> 's ctl res) \<Rightarrow> 'i list \<Rightarrow> 's \<Rightarrow> 's ctl res" where
  "for_ctl f [] s = Ret (Next s)"
| "for_ctl f (x # xs) s = rbind (f x s) (\<lambda>c. case c of
      Next s' \<Rightarrow> for_ctl f xs s' | Break s' \<Rightarrow> Ret (Next s') | Goto s' \<Rightarrow> Ret (Goto s'))"

lemma for_ctl_cong [fundef_cong]:
  "xs = ys \<Longrightarrow> s = t \<Longrightarrow> (\<And>x u. x \<in> set ys \<Longrightarrow> f x u = g x u) \<Longrightarrow> for_ctl f xs s = for_ctl g ys t"
proof (induction ys arbitrary: xs s t)
  case (Cons y ys)
  then show ?case by (cases "g y t") (auto split: ctl.splits)
qed simp

text \<open>
  The \<open>while(1)\<close> loop of every directory check: seek to the entry, read it, run the body.
  The loop state is the \<open>dir\<close> buffer, the file position and the check's own variables.
\<close>

type_synonym 's scan = "u8 list \<times> nat \<times> 's"

function while_dirents ::
  "fsck \<Rightarrow> (dirent \<Rightarrow> nat \<times> 's \<Rightarrow> (nat \<times> 's) ctl res) \<Rightarrow> int \<Rightarrow> nat \<Rightarrow> 's scan \<Rightarrow> 's scan ctl res" where
  "while_dirents st body blockIndex totalRead (dir, p, s) =
     (if totalRead + 16 > 512 then Ret (Next (dir, p, s))
      else
        let (p', dir') = read_image st (lseek_set (i32 (512 * blockIndex + int totalRead)) p) dir in
        rbind (body (dec_dirent dir') (p', s)) (\<lambda>c. case c of
            Next (p'', s') \<Rightarrow> while_dirents st body blockIndex (totalRead + 16) (dir', p'', s')
          | Break (p'', s') \<Rightarrow> Ret (Next (dir', p'', s'))
          | Goto (p'', s') \<Rightarrow> Ret (Goto (dir', p'', s'))))"
  by pat_completeness auto
termination
  by (relation "measure (\<lambda>(st, body, b, tot, a). 512 - tot)") auto

declare while_dirents.simps [simp del]

text \<open>The direct blocks of an inode, those with a nonzero address.\<close>

definition direct_loop ::
  "fsck \<Rightarrow> (dirent \<Rightarrow> nat \<times> 's \<Rightarrow> (nat \<times> 's) ctl res) \<Rightarrow> dinode \<Rightarrow> 's scan \<Rightarrow> 's scan ctl res" where
  "direct_loop st body inode =
     for_ctl (\<lambda>i a. if di_addrs inode ! i = 0 then Ret (Next a)
                    else while_dirents st body (int_of_u32 (di_addrs inode ! i)) 0 a) [0..<NDIRECT]"

text \<open>
  The block range the checker takes for an inode's indirect blocks: the indirect block
  itself and the blocks after it. Some checks add one block for a partial last block
  (\<open>roundup\<close>), some do not.
\<close>

definition indirect_end :: "bool \<Rightarrow> dinode \<Rightarrow> int" where
  "indirect_end roundup inode =
     (let numBlocksForFile = int_of_u32 (di_size inode div 512);
          indirectBase = int_of_u32 (di_addrs inode ! NDIRECT);
          indirectEnd = i32 (i32 (indirectBase + numBlocksForFile) - 12)
      in if roundup \<and> di_size inode mod 512 \<noteq> 0 then i32 (indirectEnd + 1) else indirectEnd)"

text \<open>\<open>for(j = b; j <= e; j++)\<close> never gets past \<open>e\<close> when that is the largest \<open>int\<close>.\<close>

definition upto_ctl :: "(int \<Rightarrow> 's \<Rightarrow> 's ctl res) \<Rightarrow> int \<Rightarrow> int \<Rightarrow> 's \<Rightarrow> 's ctl res" where
  "upto_ctl f b e s =
     (if b \<le> e \<and> e = INT_MAX then rbind (for_ctl f [b..e] s) (\<lambda>_. NoRet) else for_ctl f [b..e] s)"

definition indirect_loop ::
  "fsck \<Rightarrow> bool \<Rightarrow> (dirent \<Rightarrow> nat \<times> 's \<Rightarrow> (nat \<times> 's) ctl res) \<Rightarrow> dinode \<Rightarrow> 's scan \<Rightarrow> 's scan ctl res" where
  "indirect_loop st roundup body inode a =
     (if di_addrs inode ! NDIRECT = 0 then Ret (Next a)
      else upto_ctl (\<lambda>blockIndex. while_dirents st body blockIndex 0)
             (int_of_u32 (di_addrs inode ! NDIRECT)) (indirect_end roundup inode) a)"

text \<open>What the loops leave in their variables, however they were left.\<close>

fun ctl_val :: "'s ctl \<Rightarrow> 's" where
  "ctl_val (Next s) = s" | "ctl_val (Break s) = s" | "ctl_val (Goto s) = s"

text \<open>Direct blocks, then indirect blocks, with no \<open>goto\<close> in the body.\<close>

definition both_loops ::
  "fsck \<Rightarrow> bool \<Rightarrow> (dirent \<Rightarrow> nat \<times> 's \<Rightarrow> (nat \<times> 's) ctl res) \<Rightarrow> dinode \<Rightarrow> 's scan \<Rightarrow> 's scan res" where
  "both_loops st roundup body inode a =
     rbind (direct_loop st body inode a) (\<lambda>c.
     rbind (indirect_loop st roundup body inode (ctl_val c)) (\<lambda>c'. Ret (ctl_val c')))"

abbreviation malloc_dir :: "fsck \<Rightarrow> u8 list" where
  "malloc_dir st \<equiv> rd (junk st) 0 16"

text \<open>\<open>for(i = 0; i < numInodes; i++) { inode = getInode(i); \<dots> }\<close>\<close>

definition for_inodes :: "fsck \<Rightarrow> (int \<Rightarrow> dinode \<Rightarrow> 's \<Rightarrow> 's res) \<Rightarrow> 's \<Rightarrow> 's res" where
  "for_inodes st f = rfold (\<lambda>i s. rbind (deref (getInode st i)) (\<lambda>inode. f i inode s)) [0..numInodes st - 1]"

text \<open>The loop over an inode's direct addresses, zeros skipped.\<close>

definition for_direct :: "dinode \<Rightarrow> (int \<Rightarrow> 's \<Rightarrow> 's res) \<Rightarrow> 's \<Rightarrow> 's res" where
  "for_direct inode f = rfold (\<lambda>j s. let addr = int_of_u32 (di_addrs inode ! j) in
     if addr = 0 then Ret s else f addr s) [0..<NDIRECT]"

text \<open>
  The direct addresses, then the indirect range without rounding up: the two loops of
  \<open>addressUsedByInodeButMarkedFreeInBitmap\<close> and \<open>addressUsedMoreThanOnce\<close>.
\<close>

definition for_blocks :: "dinode \<Rightarrow> (int \<Rightarrow> 's \<Rightarrow> 's res) \<Rightarrow> 's \<Rightarrow> 's res" where
  "for_blocks inode f s =
     rbind (for_direct inode f s) (\<lambda>s.
     let addr = int_of_u32 (di_addrs inode ! NDIRECT) in
     if addr = 0 then Ret s
     else rbind (upto_ctl (\<lambda>k s. rbind (f k s) (\<lambda>s. Ret (Next s))) addr (indirect_end False inode) s)
            (\<lambda>c. Ret (ctl_val c)))"

section \<open>The checks on inodes and blocks\<close>

definition badInode :: "fsck \<Rightarrow> unit res" where
  "badInode st = for_inodes st (\<lambda>i inode _.
     if di_type inode \<noteq> 0 \<and> \<not> (di_type inode = T_FILE \<or> di_type inode = T_DIR \<or> di_type inode = T_DEV)
     then Halt ERR_BAD_INODE else Ret ()) ()"

definition check_addresses :: "fsck \<Rightarrow> dinode \<Rightarrow> unit res" where
  "check_addresses st inode =
     rbind (for_direct inode (\<lambda>addr _.
        if addr < beginDataBlocksAddr st \<or> addr \<ge> imageSize st then Halt ERR_BAD_ADDR else Ret ()) ()) (\<lambda>_.
     let addr = int_of_u32 (di_addrs inode ! NDIRECT) in
     if addr = 0 then Ret ()
     else
       let indirectBase = addr; indirectEnd = indirect_end True inode in
       if indirectBase < beginDataBlocksAddr st \<or> indirectBase \<ge> imageSize st then Halt ERR_BAD_ADDR
       else if indirectEnd < beginDataBlocksAddr st \<or> indirectEnd \<ge> imageSize st then Halt ERR_BAD_ADDR
       else rbind (upto_ctl (\<lambda>j _. rbind (isAllocated st j) (\<lambda>_. Ret (Next ()))) indirectBase indirectEnd ())
              (\<lambda>_. Ret ()))"

definition badAddressInInode :: "fsck \<Rightarrow> unit res" where
  "badAddressInInode st = for_inodes st (\<lambda>i inode _. check_addresses st inode) ()"

text \<open>The search for a user of block \<open>y\<close>, which stops early only at a direct address.\<close>

definition block_user :: "fsck \<Rightarrow> int \<Rightarrow> int \<Rightarrow> bool \<Rightarrow> bool ctl res" where
  "block_user st y i found = rbind (deref (getInode st i)) (\<lambda>inode.
     if list_ex (\<lambda>j. int_of_u32 (di_addrs inode ! j) \<noteq> 0 \<and> int_of_u32 (di_addrs inode ! j) = y) [0..<NDIRECT]
     then Ret (Goto True)
     else
       let addr = int_of_u32 (di_addrs inode ! NDIRECT) in
       if addr = 0 then Ret (Next found)
       else Ret (Next (if y \<ge> addr \<and> y \<le> indirect_end True inode then True else found)))"

definition bitmapMarksBlockInUseButItIsNotInUse :: "fsck \<Rightarrow> unit res" where
  "bitmapMarksBlockInUseButItIsNotInUse st = rfold (\<lambda>y _. rbind (isAllocated st y) (\<lambda>alloc.
     if alloc then
       rbind (for_ctl (block_user st y) [0..numInodes st - 1] False) (\<lambda>found.
         if ctl_val found then Ret () else Halt ERR_BITMAP_USED)
     else Ret ()))
     [beginDataBlocksAddr st..i32 (numDataBlocks st + beginDataBlocksAddr st) - 1] ()"

definition check_marked :: "fsck \<Rightarrow> int \<Rightarrow> unit res" where
  "check_marked st addr = rbind (isAllocated st addr) (\<lambda>alloc. if \<not> alloc then Halt ERR_MARKED_FREE else Ret ())"

definition addressUsedByInodeButMarkedFreeInBitmap :: "fsck \<Rightarrow> unit res" where
  "addressUsedByInodeButMarkedFreeInBitmap st =
     for_inodes st (\<lambda>i inode. for_blocks inode (\<lambda>addr _. check_marked st addr)) ()"

text \<open>Claiming one address in the checker's table of addresses seen.\<close>

definition claim_addr :: "int \<Rightarrow> int list \<Rightarrow> int list res" where
  "claim_addr addr hm = rbind (arr_get hm addr) (\<lambda>v.
     if v \<noteq> 0 then Halt ERR_TWICE else arr_set hm addr 1)"

definition addressUsedMoreThanOnce :: "fsck \<Rightarrow> int list res" where
  "addressUsedMoreThanOnce st = for_inodes st (\<lambda>i inode. for_blocks inode claim_addr) (inodeHashMap st)"

section \<open>The checks on directories\<close>

definition rootDirectoryExists :: "fsck \<Rightarrow> unit res" where
  "rootDirectoryExists st = (case getInode st 1 of
      None \<Rightarrow> Halt ERR_ROOT
    | Some inode \<Rightarrow> if di_type inode \<noteq> T_DIR then Halt ERR_ROOT else Ret ())"

definition rootDirectoryDoesNotExist :: "fsck \<Rightarrow> nat \<Rightarrow> nat res" where
  "rootDirectoryDoesNotExist st p = (case getInode st 1 of
      None \<Rightarrow> Halt ERR_ROOT
    | Some root \<Rightarrow>
        if di_type root \<noteq> T_DIR then Halt ERR_ROOT
        else
          let rootBlock = int_of_u32 (di_addrs root ! 0);
              (p, buf) = read_image st (lseek_set (i32 (512 * rootBlock)) p) (malloc_dir st);
              dir = dec_dirent buf
          in if \<not> is_dot dir then Ret p
             else if inum_of dir \<noteq> 1 then Halt ERR_ROOT
             else
               let (p, buf) = read_image st p buf; dir = dec_dirent buf
               in if \<not> is_dotdot dir then Ret p
                  else if inum_of dir \<noteq> 1 then Halt ERR_ROOT
                  else Ret p)"

text \<open>The search for \<open>..\<close> in directory \<open>m\<close>; the loop variable is \<open>parent\<close>.\<close>

definition find_parent :: "fsck \<Rightarrow> int \<Rightarrow> dirent \<Rightarrow> nat \<times> int \<Rightarrow> (nat \<times> int) ctl res" where
  "find_parent st m d = (\<lambda>(p, parent).
     if no_name d then Ret (Break (p, parent))
     else rbind (deref (getInode st (inum_of d))) (\<lambda>subinode.
       if di_type subinode \<noteq> T_DIR then Ret (Next (p, parent))
       else if is_dotdot d then
         if inum_of d = m \<and> m \<noteq> 1 then Halt ERR_PARENT else Ret (Goto (p, inum_of d))
       else Ret (Next (p, parent))))"

text \<open>The search for directory \<open>m\<close> among its parent's entries.\<close>

definition find_child :: "fsck \<Rightarrow> int \<Rightarrow> dirent \<Rightarrow> nat \<times> unit \<Rightarrow> (nat \<times> unit) ctl res" where
  "find_child st m d = (\<lambda>(p, _).
     if no_name d then Ret (Break (p, ()))
     else rbind (deref (getInode st (inum_of d))) (\<lambda>subinode.
       if di_type subinode \<noteq> T_DIR then Ret (Next (p, ()))
       else if inum_of d = m then Ret (Goto (p, ()))
       else Ret (Next (p, ()))))"

definition check_parent :: "fsck \<Rightarrow> int \<Rightarrow> dinode \<Rightarrow> u8 list \<times> nat \<Rightarrow> (u8 list \<times> nat) res" where
  "check_parent st m inode = (\<lambda>(dir, p).
     if di_type inode = 1 then
       rbind (direct_loop st (find_parent st m) inode (dir, p, -1)) (\<lambda>c.
       let (dir, p, parent) = ctl_val c in
       if parent = -1 then Halt ERR_PARENT
       else rbind (deref (getInode st parent)) (\<lambda>inode.
         if di_type inode \<noteq> T_DIR then Halt ERR_PARENT
         else rbind (direct_loop st (find_child st m) inode (dir, p, ())) (\<lambda>c. case c of
             Goto (dir, p, _) \<Rightarrow> Ret (dir, p)
           | _ \<Rightarrow> Halt ERR_PARENT)))
     else Ret (dir, p))"

definition parentDirectoryMismatch :: "fsck \<Rightarrow> nat \<Rightarrow> nat res" where
  "parentDirectoryMismatch st p =
     rbind (for_inodes st (check_parent st) (malloc_dir st, p)) (\<lambda>(dir, p). Ret p)"

text \<open>Every directory inode in turn, both kinds of blocks: the frame of three of the checks.\<close>

definition all_directories ::
  "fsck \<Rightarrow> (int \<Rightarrow> dirent \<Rightarrow> nat \<times> 's \<Rightarrow> (nat \<times> 's) ctl res) \<Rightarrow> nat \<Rightarrow> 's \<Rightarrow> (nat \<times> 's) res" where
  "all_directories st body p s = rbind (for_inodes st (\<lambda>m inode a.
     if di_type inode \<noteq> T_DIR then Ret a else both_loops st True (body m) inode a)
     (malloc_dir st, p, s)) (\<lambda>(dir, p, s). Ret (p, s))"

definition mark_found :: "fsck \<Rightarrow> int \<Rightarrow> dirent \<Rightarrow> nat \<times> int list \<Rightarrow> (nat \<times> int list) ctl res" where
  "mark_found st m d = (\<lambda>(p, hm).
     if no_name d then Ret (Break (p, hm))
     else rbind (arr_set hm (inum_of d) 1) (\<lambda>hm. Ret (Next (p, hm))))"

definition inodeMarkedUseButNotFoundInADirectory :: "fsck \<Rightarrow> nat \<Rightarrow> nat res" where
  "inodeMarkedUseButNotFoundInADirectory st p =
     rbind (all_directories st (mark_found st) p (inodeHashMap2 st)) (\<lambda>(p, hm).
     rbind (for_inodes st (\<lambda>i inode _.
        if \<not> (di_type inode = T_DIR \<or> di_type inode = T_FILE \<or> di_type inode = T_DEV) then Ret ()
        else rbind (arr_get hm i) (\<lambda>v. if v = 1 then Ret () else Halt ERR_NOT_FOUND)) ()) (\<lambda>_. Ret p))"

definition count_ref :: "fsck \<Rightarrow> int \<Rightarrow> dirent \<Rightarrow> nat \<times> int list \<Rightarrow> (nat \<times> int list) ctl res" where
  "count_ref st m d = (\<lambda>(p, numRefs).
     if no_name d then Ret (Break (p, numRefs))
     else rbind (deref (getInode st (inum_of d))) (\<lambda>subinode.
       if di_type subinode = T_FILE then
         rbind (arr_get numRefs (inum_of d)) (\<lambda>v.
         rbind (arr_set numRefs (inum_of d) (i32 (v + 1))) (\<lambda>numRefs. Ret (Next (p, numRefs))))
       else Ret (Next (p, numRefs))))"

definition badReferenceCountForFile :: "fsck \<Rightarrow> nat \<Rightarrow> nat res" where
  "badReferenceCountForFile st p =
     rbind (all_directories st (count_ref st) p (replicate (nat (numInodes st)) 0)) (\<lambda>(p, numRefs).
     rbind (for_inodes st (\<lambda>i inode _.
        if di_type inode = T_FILE then
          rbind (arr_get numRefs i) (\<lambda>v. if v \<noteq> sint (di_nlink inode) then Halt ERR_REFCOUNT else Ret ())
        else Ret ()) ()) (\<lambda>_. Ret p))"

definition see_dir :: "fsck \<Rightarrow> int \<Rightarrow> dirent \<Rightarrow> nat \<times> int list \<Rightarrow> (nat \<times> int list) ctl res" where
  "see_dir st m d = (\<lambda>(p, dirMap).
     rbind (deref (getInode st (inum_of d))) (\<lambda>subinode.
       if di_type subinode = T_DIR then
         if is_dot d \<and> inum_of d = m then Ret (Next (p, dirMap))
         else if is_dotdot d then Ret (Next (p, dirMap))
         else rbind (arr_get dirMap (inum_of d)) (\<lambda>v.
           if v = 1 then Halt ERR_DIR_TWICE
           else rbind (arr_set dirMap (inum_of d) 1) (\<lambda>dirMap. Ret (Next (p, dirMap))))
       else Ret (Next (p, dirMap))))"

definition directoryAppearsMoreThanOnceInFileSystem :: "fsck \<Rightarrow> nat \<Rightarrow> nat res" where
  "directoryAppearsMoreThanOnceInFileSystem st p =
     rbind (all_directories st (see_dir st) p (replicate (nat (numInodes st)) 0)) (\<lambda>(p, _). Ret p)"

text \<open>
  The two recursive checks. \<open>fuel\<close> bounds the depth of the recursion; \<open>NoRet\<close> means the
  program is still descending at that depth. Their loop variables are \<open>(foundDot, foundDotDot)\<close>
  for the first and nothing for the second.
\<close>

definition format_entry ::
  "fsck \<Rightarrow> (int \<Rightarrow> nat \<Rightarrow> nat res) \<Rightarrow> dirent \<Rightarrow> nat \<times> bool \<times> bool \<Rightarrow> (nat \<times> bool \<times> bool) ctl res" where
  "format_entry st recurse d = (\<lambda>(p, foundDot, foundDotDot).
     if no_name d then Ret (Break (p, foundDot, foundDotDot))
     else rbind (deref (getInode st (inum_of d))) (\<lambda>subinode.
       if di_type subinode \<noteq> T_DIR then Ret (Next (p, foundDot, foundDotDot))
       else if is_dot d then Ret (Next (p, True, foundDotDot))
       else if is_dotdot d then Ret (Next (p, foundDot, True))
       else rbind (recurse (inum_of d) p) (\<lambda>p. Ret (Next (p, foundDot, foundDotDot)))))"

fun directoryNotProperlyFormatted :: "fsck \<Rightarrow> nat \<Rightarrow> int \<Rightarrow> nat \<Rightarrow> nat res" where
  "directoryNotProperlyFormatted st 0 inodeNumber p = NoRet"
| "directoryNotProperlyFormatted st (Suc fuel) inodeNumber p =
     rbind (deref (getInode st inodeNumber)) (\<lambda>inode.
     rbind (both_loops st False (format_entry st (directoryNotProperlyFormatted st fuel)) inode
              (malloc_dir st, p, False, False)) (\<lambda>(dir, p, foundDot, foundDotDot).
     if \<not> foundDot \<or> \<not> foundDotDot then Halt ERR_FORMAT else Ret p))"

definition ref_entry ::
  "fsck \<Rightarrow> (int \<Rightarrow> nat \<Rightarrow> nat res) \<Rightarrow> dirent \<Rightarrow> nat \<times> unit \<Rightarrow> (nat \<times> unit) ctl res" where
  "ref_entry st recurse d = (\<lambda>(p, _).
     if no_name d then Ret (Break (p, ()))
     else rbind (deref (getInode st (inum_of d))) (\<lambda>subinode.
       if \<not> (di_type subinode = T_DIR \<or> di_type subinode = T_FILE \<or> di_type subinode = T_DEV)
       then Halt ERR_REF_FREE
       else if is_dot d then Ret (Next (p, ()))
       else if is_dotdot d then Ret (Next (p, ()))
       else if di_type subinode = T_DIR then rbind (recurse (inum_of d) p) (\<lambda>p. Ret (Next (p, ())))
       else Ret (Next (p, ()))))"

fun inodeReferredToInDirectoryButMarkedFree :: "fsck \<Rightarrow> nat \<Rightarrow> int \<Rightarrow> nat \<Rightarrow> nat res" where
  "inodeReferredToInDirectoryButMarkedFree st 0 inodeNumber p = NoRet"
| "inodeReferredToInDirectoryButMarkedFree st (Suc fuel) inodeNumber p =
     rbind (deref (getInode st inodeNumber)) (\<lambda>inode.
     rbind (both_loops st True (ref_entry st (inodeReferredToInDirectoryButMarkedFree st fuel)) inode
              (malloc_dir st, p, ())) (\<lambda>(dir, p, _). Ret p))"

section \<open>The program\<close>

definition run_checks :: "nat \<Rightarrow> fsck \<Rightarrow> nat \<Rightarrow> nat res" where
  "run_checks fuel st p =
     rbind (badInode st) (\<lambda>_.
     rbind (badAddressInInode st) (\<lambda>_.
     rbind (rootDirectoryDoesNotExist st p) (\<lambda>p.
     rbind (directoryNotProperlyFormatted st fuel 1 p) (\<lambda>p.
     rbind (parentDirectoryMismatch st p) (\<lambda>p.
     rbind (addressUsedByInodeButMarkedFreeInBitmap st) (\<lambda>_.
     rbind (bitmapMarksBlockInUseButItIsNotInUse st) (\<lambda>_.
     rbind (addressUsedMoreThanOnce st) (\<lambda>_.
     rbind (inodeMarkedUseButNotFoundInADirectory st p) (\<lambda>p.
     rbind (inodeReferredToInDirectoryButMarkedFree st fuel 1 p) (\<lambda>p.
     rbind (badReferenceCountForFile st p) (\<lambda>p.
     directoryAppearsMoreThanOnceInFileSystem st p)))))))))))"

text \<open>Reading the inode table, one \<open>read\<close> after another.\<close>

fun read_inodes :: "fsck \<Rightarrow> nat \<Rightarrow> nat \<Rightarrow> dinode list \<times> nat" where
  "read_inodes st 0 p = ([], p)"
| "read_inodes st (Suc n) p =
     (let (p, buf) = read_image st p (rd (junk st) 0 64); (ds, p) = read_inodes st n p
      in (dec_dinode buf # ds, p))"

text \<open>
  \<open>malloc(sizeof(int) * numInodes)\<close> and the loop that clears \<open>imageSize\<close> entries of it.
\<close>

definition cleared_map :: "(nat \<Rightarrow> int) \<Rightarrow> int \<Rightarrow> int \<Rightarrow> int list res" where
  "cleared_map junk_ints ninodes isize =
     rfold (\<lambda>i hm. arr_set hm i 0) [0..isize - 1] (map junk_ints [0..<nat ninodes])"

text \<open>The superblock, then the inode table and the bitmap: the first half of \<open>main\<close>.\<close>

definition read_super :: "bytes \<Rightarrow> bytes \<Rightarrow> nat \<Rightarrow> fsck \<times> nat" where
  "read_super mem content len =
     (let st = \<lparr>img = content, img_len = len, junk = mem, imageSize = 0, numDataBlocks = 0,
                numInodes = 0, numInodeBlocks = 0, dataBitmapAddr = 0, beginDataBlocksAddr = 0,
                inodes = [], dataBitmap = replicate 512 0, inodeHashMap = [], inodeHashMap2 = [],
                directoryHashMap = []\<rparr>;
          (p, buf) = read_image st (lseek_set 512 0) (rd mem 0 12);
          sb = dec_superblock buf
      in (st\<lparr>imageSize := int_of_u32 (sb_size sb), numDataBlocks := int_of_u32 (sb_nblocks sb),
             numInodes := int_of_u32 (sb_ninodes sb)\<rparr>, p))"

definition read_table :: "fsck \<Rightarrow> nat \<Rightarrow> fsck \<times> nat" where
  "read_table st p =
     (let (ds, p) = read_inodes st (nat (numInodes st)) (lseek_set 1024 p);
          nib = i32 (1 + cdiv (i32 (numInodes st * 64)) 512);
          (p, bm) = read_image st (lseek_set (i32 (512 * i32 (2 + nib))) p) (dataBitmap st)
      in (st\<lparr>inodes := ds, numInodeBlocks := nib, dataBitmapAddr := i32 (2 + nib),
             beginDataBlocksAddr := i32 (3 + nib), dataBitmap := bm\<rparr>, p))"

definition fscheck_main :: "nat \<Rightarrow> bytes \<Rightarrow> (nat \<Rightarrow> int) \<Rightarrow> (bytes \<times> nat) option \<Rightarrow> nat res" where
  "fscheck_main fuel mem junk_ints file = (case file of
      None \<Rightarrow> Halt ''image not found.''
    | Some (content, len) \<Rightarrow>
        let (st, p) = read_super mem content len; (st, p) = read_table st p
        in rbind (cleared_map junk_ints (numInodes st) (imageSize st)) (\<lambda>hm1.
           rbind (cleared_map junk_ints (numInodes st) (imageSize st)) (\<lambda>hm2.
           rbind (cleared_map junk_ints (numInodes st) (imageSize st)) (\<lambda>hm3.
           run_checks fuel (st\<lparr>inodeHashMap := hm1, inodeHashMap2 := hm2, directoryHashMap := hm3\<rparr>) p))))"

end
