(* ===== verification/Fscheck_Spec.thy ===== *)
theory Fscheck_Spec
  imports Fscheck
begin

text \<open>
  What the single checks of \<open>a/fscheck.c\<close> decide: the loops over directory blocks without their buffers (locale
  \<open>dir_scan\<close>), the inode table as a list, and for each check on inodes, addresses and the bitmap the
  condition under which it passes.
\<close>

section \<open>Loops without their buffers\<close>

lemma for_ctl_break:
  assumes "\<And>d s. d \<in> set ds \<Longrightarrow> f d s = (if P d then Ret (Break s) else g d s)"
  shows "for_ctl f ds s = for_ctl g (takeWhile (\<lambda>d. \<not> P d) ds) s"
  using assms
proof (induction ds arbitrary: s)
  case (Cons d ds)
  show ?case
  proof (cases "P d")
    case False
    with Cons show ?thesis by (cases "g d s") (auto split: ctl.splits)
  qed (simp add: Cons.prems)
qed simp

lemma for_ctl_append:
  "for_ctl g (xs @ ys) s = rbind (for_ctl g xs s) (\<lambda>c. case c of Next s' \<Rightarrow> for_ctl g ys s' | c \<Rightarrow> Ret c)"
  if "\<And>x s t. g x s \<noteq> Ret (Break t)"
  using that
proof (induction xs arbitrary: s)
  case (Cons x xs)
  then show ?case by (cases "g x s") (auto split: ctl.splits)
qed (auto split: ctl.splits)

lemma for_ctl_not_Break: "for_ctl g xs s \<noteq> Ret (Break t)"
proof (induction xs arbitrary: s)
  case (Cons x xs)
  then show ?case by (cases "g x s") (auto split: ctl.splits)
qed simp

lemma for_ctl_concat:
  assumes nb: "\<And>x s t. g x s \<noteq> Ret (Break t)" and "\<And>b s. b \<in> set bs \<Longrightarrow> f b s = for_ctl g (L b) s"
  shows "for_ctl f bs s = for_ctl g (concat (map L bs)) s"
  using assms(2)
proof (induction bs arbitrary: s)
  case (Cons b bs)
  then have "for_ctl f (b # bs) s =
      rbind (for_ctl g (L b) s) (\<lambda>c. case c of Next s' \<Rightarrow> for_ctl g (concat (map L bs)) s' | c \<Rightarrow> Ret c)"
    using for_ctl_not_Break [of g "L b" s] by (cases "for_ctl g (L b) s") (auto split: ctl.splits)
  then show ?case by (simp add: for_ctl_append [OF nb])
qed simp

lemma for_ctl_rfold:
  assumes "\<And>d s. d \<in> set ds \<Longrightarrow> g d s = rbind (h d s) (\<lambda>s. Ret (Next s))"
  shows "for_ctl g ds s = rbind (rfold h ds s) (\<lambda>s. Ret (Next s))"
  using assms
proof (induction ds arbitrary: s)
  case (Cons d ds)
  then show ?case by (cases "h d s") auto
qed simp

section \<open>The abstract view of the image\<close>

definition slots :: "fsck \<Rightarrow> int \<Rightarrow> dirent list" where
  "slots st b = map (\<lambda>k. dec_dirent (rd (img st) (nat (512 * b) + 16 * k) 16)) [0..<32]"

definition live :: "fsck \<Rightarrow> int \<Rightarrow> dirent list" where
  "live st b = takeWhile (\<lambda>d. \<not> no_name d) (slots st b)"

definition direct_blocks :: "dinode \<Rightarrow> int list" where
  "direct_blocks inode = filter (\<lambda>b. b \<noteq> 0) (map int_of_u32 (take NDIRECT (di_addrs inode)))"

text \<open>
  The blocks of a file of \<open>size\<close> bytes, with (\<open>r\<close>) or without its last partial one, and the run of blocks the checker takes for
  those that do not fit the direct addresses: one after the other from the indirect block on, which is itself the first. The numbers are
  unbounded here; the checker's own arithmetic is that of C (\<open>indirect_end\<close>).
\<close>

definition file_blocks :: "bool \<Rightarrow> dinode \<Rightarrow> nat" where
  "file_blocks r inode = (if r then (unat (di_size inode) + 511) div 512 else unat (di_size inode) div 512)"

definition run_end :: "bool \<Rightarrow> dinode \<Rightarrow> int" where
  "run_end r inode = int_of_u32 (di_addrs inode ! NDIRECT) + (int (file_blocks r inode) - int NDIRECT)"

definition indirect_blocks :: "bool \<Rightarrow> dinode \<Rightarrow> int list" where
  "indirect_blocks r inode = (if di_addrs inode ! NDIRECT = 0 then []
     else [int_of_u32 (di_addrs inode ! NDIRECT)..run_end r inode])"

definition blocks :: "bool \<Rightarrow> dinode \<Rightarrow> int list" where
  "blocks r inode = direct_blocks inode @ indirect_blocks r inode"

definition listing :: "fsck \<Rightarrow> bool \<Rightarrow> dinode \<Rightarrow> dirent list" where
  "listing st r inode = concat (map (live st) (blocks r inode))"

definition layout_ok :: "fsck \<Rightarrow> bool" where
  "layout_ok st \<longleftrightarrow> 0 \<le> numInodes st \<and> length (inodes st) = nat (numInodes st) \<and>
     (\<forall>d\<in>set (inodes st). dinode_valid d) \<and> length (dataBitmap st) = 512 \<and>
     0 < beginDataBlocksAddr st \<and> imageSize st \<le> 2 ^ 22 \<and> 512 * imageSize st \<le> int (img_len st)"

definition block_in_image :: "fsck \<Rightarrow> int \<Rightarrow> bool" where
  "block_in_image st b \<longleftrightarrow> 0 \<le> b \<and> b < 2 ^ 22 \<and> 512 * b + 512 \<le> int (img_len st)"

text \<open>
  \<open>erase\<close> forgets the buffer and the file position of a loop's outcome; \<open>kept\<close> says the
  buffer still has the size of an entry. A loop over a block of the image is, up to those,
  the loop over that block's entries.
\<close>

definition erase :: "'s scan ctl res \<Rightarrow> 's ctl res" where
  "erase = map_res (map_ctl (\<lambda>(dir, p, s). s))"

definition kept :: "'s scan ctl res \<Rightarrow> bool" where
  "kept x \<longleftrightarrow> (\<forall>c. x = Ret c \<longrightarrow> length (fst (ctl_val c)) = 16)"

lemma read_in_image:
  assumes "block_in_image st b" and "k < 32" and "length dir = 16"
  shows "read_image st (lseek_set (i32 (512 * b + int (16 * k))) p) dir =
    (nat (512 * b) + 16 * k + 16, rd (img st) (nat (512 * b) + 16 * k) 16)"
proof -
  have off: "i32 (512 * b + int (16 * k)) = 512 * b + int (16 * k)"
    using assms by (intro i32_id) (auto simp: block_in_image_def)
  have n: "nat (512 * b + int (16 * k)) = nat (512 * b) + 16 * k"
    using assms by (simp add: block_in_image_def nat_add_distrib nat_mult_distrib)
  have "int (nat (512 * b)) + 16 * int k + 16 \<le> int (img_len st)"
    using assms by (simp add: block_in_image_def)
  then have "nat (512 * b) + 16 * k + 16 \<le> img_len st"
    by linarith
  then show ?thesis
    using assms off n by (simp add: read_image_def lseek_set_def block_in_image_def)
qed

lemma while_dirents_slots:
  assumes blk: "block_in_image st b"
    and body: "\<And>d p s. map_res (map_ctl snd) (body d (p, s)) = pb d s"
    and dir: "length dir = 16" and k: "k \<le> 32"
  shows "erase (while_dirents st body b (16 * k) (dir, p, s)) = for_ctl pb (drop k (slots st b)) s \<and>
         kept (while_dirents st body b (16 * k) (dir, p, s))"
  using dir k
proof (induction "32 - k" arbitrary: k dir p s)
  case 0
  then show ?case by (simp add: while_dirents.simps erase_def kept_def slots_def)
next
  case (Suc n)
  then have k: "k < 32" by simp
  define dir' where "dir' = rd (img st) (nat (512 * b) + 16 * k) 16"
  define p' where "p' = nat (512 * b) + 16 * k + 16"
  have step: "while_dirents st body b (16 * k) (dir, p, s) =
      rbind (body (dec_dirent dir') (p', s)) (\<lambda>c. case c of
            Next (p'', s') \<Rightarrow> while_dirents st body b (16 * Suc k) (dir', p'', s')
          | Break (p'', s') \<Rightarrow> Ret (Next (dir', p'', s'))
          | Goto (p'', s') \<Rightarrow> Ret (Goto (dir', p'', s')))"
    using k Suc.prems read_in_image [OF blk k Suc.prems(1), of p]
    by (subst while_dirents.simps) (simp add: dir'_def p'_def add.commute)
  have dir': "length dir' = 16" by (simp add: dir'_def)
  have slot: "drop k (slots st b) = dec_dirent dir' # drop (Suc k) (slots st b)"
    using k by (simp add: slots_def dir'_def flip: Cons_nth_drop_Suc)
  have IH: "erase (while_dirents st body b (16 * Suc k) (dir', q, t)) = for_ctl pb (drop (Suc k) (slots st b)) t \<and>
         kept (while_dirents st body b (16 * Suc k) (dir', q, t))" for q t
    using Suc.hyps(1) [of "Suc k" dir' q t] Suc.hyps(2) k by (simp add: dir'_def)
  have pb: "pb (dec_dirent dir') s = map_res (map_ctl snd) (body (dec_dirent dir') (p', s))"
    by (simp add: body)
  show ?case
  proof (cases "body (dec_dirent dir') (p', s)")
    case (Ret c)
    show ?thesis
    proof (cases c)
      case (Next a)
      obtain q t where "a = (q, t)" by (cases a)
      then show ?thesis using IH [of q t] by (simp add: step slot pb Ret Next)
    qed (auto simp: step slot pb Ret erase_def kept_def dir' split: prod.splits)
  qed (simp_all add: step slot pb erase_def kept_def)
qed


lemma int_of_u32_eq_0 [simp]: "int_of_u32 w = 0 \<longleftrightarrow> w = 0"
  by (metis int_of_u32_def signed_0 signed_word_eqI)

lemma for_ctl_skip: "for_ctl (\<lambda>x a. if P x then Ret (Next a) else f x a) xs a = for_ctl f (filter (\<lambda>x. \<not> P x) xs) a"
proof (induction xs arbitrary: a)
  case (Cons x xs)
  then show ?case by (cases "f x a") (auto split: ctl.splits)
qed simp

lemma for_ctl_map: "for_ctl f (map h xs) a = for_ctl (\<lambda>x. f (h x)) xs a"
proof (induction xs arbitrary: a)
  case (Cons x xs)
  then show ?case by (cases "f (h x) a") (auto split: ctl.splits)
qed simp

lemma direct_loop_blocks:
  assumes "dinode_valid inode"
  shows "direct_loop st body inode a = for_ctl (\<lambda>b. while_dirents st body b 0) (direct_blocks inode) a"
proof -
  have "take NDIRECT (di_addrs inode) = map (\<lambda>i. di_addrs inode ! i) [0..<NDIRECT]"
    using assms by (auto simp: dinode_valid_def intro!: nth_equalityI)
  then have "direct_blocks inode = map (\<lambda>i. int_of_u32 (di_addrs inode ! i)) (filter (\<lambda>i. \<not> di_addrs inode ! i = 0) [0..<NDIRECT])"
    by (simp add: direct_blocks_def filter_map comp_def)
  then show ?thesis
    by (simp only: direct_loop_def for_ctl_skip for_ctl_map)
qed

lemma upto_ctl_in_image: "e < INT_MAX \<Longrightarrow> upto_ctl f b e a = for_ctl f [b..e] a"
  by (simp add: upto_ctl_def)

text \<open>
  What a directory check has to say about its loop body: up to the file position it is a
  function \<open>g\<close> of the entry and the check's variables, and it leaves a block at the first
  entry that satisfies \<open>stop\<close>. From this the locale proves what the check's loops compute.
\<close>

definition entries :: "fsck \<Rightarrow> (dirent \<Rightarrow> bool) \<Rightarrow> int list \<Rightarrow> dirent list" where
  "entries st stop bs = concat (map (\<lambda>b. takeWhile (\<lambda>d. \<not> stop d) (slots st b)) bs)"

lemma listing_entries: "listing st r inode = entries st no_name (blocks r inode)"
  by (simp add: listing_def entries_def live_def [abs_def])

locale dir_scan =
  fixes st :: fsck and body :: "dirent \<Rightarrow> nat \<times> 's \<Rightarrow> (nat \<times> 's) ctl res"
    and stop :: "dirent \<Rightarrow> bool" and g :: "dirent \<Rightarrow> 's \<Rightarrow> 's ctl res"
  assumes body_erased: "map_res (map_ctl snd) (body d (p, s)) = (if stop d then Ret (Break s) else g d s)"
    and no_break: "g d s \<noteq> Ret (Break t)"
begin

lemma scan_block:
  assumes "block_in_image st b" and "length dir = 16"
  shows "erase (while_dirents st body b 0 (dir, p, s)) = for_ctl g (takeWhile (\<lambda>d. \<not> stop d) (slots st b)) s \<and>
         kept (while_dirents st body b 0 (dir, p, s))"
  using while_dirents_slots [OF assms(1), of body "\<lambda>d s. if stop d then Ret (Break s) else g d s" dir 0 p s]
  by (simp add: body_erased assms for_ctl_break [of _ _ stop g])

lemma scan_blocks:
  assumes "\<forall>b\<in>set bs. block_in_image st b" and "length dir = 16"
  shows "erase (for_ctl (\<lambda>b. while_dirents st body b 0) bs (dir, p, s)) = for_ctl g (entries st stop bs) s \<and>
         kept (for_ctl (\<lambda>b. while_dirents st body b 0) bs (dir, p, s))"
  using assms
proof (induction bs arbitrary: dir p s)
  case Nil
  then show ?case by (simp add: erase_def kept_def entries_def)
next
  case (Cons b bs)
  let ?w = "while_dirents st body b 0 (dir, p, s)"
  let ?L = "takeWhile (\<lambda>d. \<not> stop d) (slots st b)"
  have w: "erase ?w = for_ctl g ?L s" "kept ?w"
    using scan_block [of b dir p s] Cons.prems by simp_all
  have e: "entries st stop (b # bs) = ?L @ entries st stop bs" by (simp add: entries_def)
  show ?case
  proof (cases ?w)
    case (Ret c)
    show ?thesis
    proof (cases c)
      case (Next a)
      obtain dir' q t where a: "a = (dir', q, t)" by (cases a)
      have "length dir' = 16" using w(2) by (simp add: kept_def Ret Next a)
      from Cons.IH [of dir' q t, OF _ this] Cons.prems show ?thesis
        using w(1) by (simp add: Ret Next a e for_ctl_append [OF no_break] erase_def flip: w(1))
    next
      case (Break a)
      obtain dir' q t where "a = (dir', q, t)" by (cases a)
      with w(1) have "for_ctl g ?L s = Ret (Break t)" by (simp add: Ret Break erase_def)
      with for_ctl_not_Break [of g ?L s t] show ?thesis by simp
    next
      case (Goto a)
      then show ?thesis using w
        by (auto simp: Ret e for_ctl_append [OF no_break] erase_def kept_def simp flip: w(1) split: prod.splits)
    qed
  qed (use w(1) in \<open>simp_all add: e for_ctl_append [OF no_break] erase_def kept_def flip: w(1)\<close>)
qed

lemma scan_direct:
  assumes "dinode_valid inode" and "\<forall>b\<in>set (direct_blocks inode). block_in_image st b" and "length dir = 16"
  shows "erase (direct_loop st body inode (dir, p, s)) = for_ctl g (entries st stop (direct_blocks inode)) s \<and>
         kept (direct_loop st body inode (dir, p, s))"
  using scan_blocks [OF assms(2,3)] by (simp add: direct_loop_blocks [OF assms(1)])

lemma scan_indirect:
  assumes "\<forall>b\<in>set (indirect_blocks r inode). block_in_image st b" and "length dir = 16"
    and "indirect_end r inode = run_end r inode" and "run_end r inode < INT_MAX"
  shows "erase (indirect_loop st r body inode (dir, p, s)) = for_ctl g (entries st stop (indirect_blocks r inode)) s \<and>
         kept (indirect_loop st r body inode (dir, p, s))"
proof (cases "di_addrs inode ! NDIRECT = 0")
  case True
  then show ?thesis using assms(2)
    by (simp add: indirect_loop_def indirect_blocks_def entries_def erase_def kept_def)
next
  case False
  then have "indirect_loop st r body inode (dir, p, s) = for_ctl (\<lambda>b. while_dirents st body b 0) (indirect_blocks r inode) (dir, p, s)"
    by (simp only: indirect_loop_def indirect_blocks_def assms(3) upto_ctl_in_image [OF assms(4)] if_False)
  then show ?thesis using scan_blocks [OF assms(1,2)] by simp
qed

end


section \<open>Inodes and the bitmap\<close>

definition marked :: "fsck \<Rightarrow> int \<Rightarrow> bool" where
  "marked st b = bit (dataBitmap st ! nat ((b mod 4096) div 8)) (nat (b mod 8))"

definition addr_ok :: "fsck \<Rightarrow> int \<Rightarrow> bool" where
  "addr_ok st b \<longleftrightarrow> beginDataBlocksAddr st \<le> b \<and> b < imageSize st"

definition addrs_ok :: "fsck \<Rightarrow> bool" where
  "addrs_ok st \<longleftrightarrow> (\<forall>d\<in>set (inodes st). (\<forall>b\<in>set (direct_blocks d). addr_ok st b) \<and>
     (di_addrs d ! NDIRECT \<noteq> 0 \<longrightarrow>
        addr_ok st (int_of_u32 (di_addrs d ! NDIRECT)) \<and> addr_ok st (run_end True d)))"

lemma getInode_in:
  "layout_ok st \<Longrightarrow> 0 \<le> i \<Longrightarrow> i < numInodes st \<Longrightarrow>
     getInode st i = Some (inodes st ! nat i) \<and> inodes st ! nat i \<in> set (inodes st)"
  by (auto simp: getInode_def layout_ok_def)

lemma all_inodes:
  assumes "layout_ok st"
  shows "(\<forall>i\<in>{0..numInodes st - 1}. P (inodes st ! nat i)) \<longleftrightarrow> (\<forall>d\<in>set (inodes st). P d)"
proof
  assume all: "\<forall>i\<in>{0..numInodes st - 1}. P (inodes st ! nat i)"
  show "\<forall>d\<in>set (inodes st). P d"
  proof
    fix d assume "d \<in> set (inodes st)"
    then obtain k where "k < length (inodes st)" "d = inodes st ! k"
      by (auto simp: in_set_conv_nth)
    then show "P d" using all [rule_format, of "int k"] assms by (auto simp: layout_ok_def)
  qed
qed (use assms in \<open>auto simp: layout_ok_def\<close>)

lemma rfold_index:
  assumes "\<And>k s. k < length ds \<Longrightarrow> f (n + int k) s = g (n + int k) (ds ! k) s"
  shows "rfold f [n..n + int (length ds) - 1] s =
    rfold (\<lambda>(i, d). g i d) (zip (map (\<lambda>k. n + int k) [0..<length ds]) ds) s"
  using assms
proof (induction ds arbitrary: n s)
  case (Cons d ds)
  have range: "[n..n + int (length (d # ds)) - 1] = n # [n + 1..(n + 1) + int (length ds) - 1]"
    by (subst upto_rec1) (auto simp: algebra_simps)
  have idx: "map (\<lambda>k. n + int k) [0..<length (d # ds)] = n # map (\<lambda>k. (n + 1) + int k) [0..<length ds]"
    by (simp add: upt_conv_Cons map_Suc_upt [symmetric] comp_def algebra_simps del: upt_Suc)
  have IH: "rfold f [n + 1..(n + 1) + int (length ds) - 1] t =
    rfold (\<lambda>(i, d). g i d) (zip (map (\<lambda>k. (n + 1) + int k) [0..<length ds]) ds) t" for t
    by (rule Cons.IH) (use Cons.prems [of "Suc k" for k] in \<open>simp add: algebra_simps\<close>)
  show ?case
    unfolding range idx using Cons.prems [of 0 s] IH by (simp del: upto.simps) (cases "g n d s", auto)
qed simp

text \<open>The inode table with its indices.\<close>

definition inode_table :: "fsck \<Rightarrow> (int \<times> dinode) list" where
  "inode_table st = zip (map int [0..<length (inodes st)]) (inodes st)"

lemma for_inodes_table:
  assumes "layout_ok st"
  shows "for_inodes st f s = rfold (\<lambda>(i, d). f i d) (inode_table st) s"
proof -
  have n: "numInodes st = int (length (inodes st))" using assms by (simp add: layout_ok_def)
  show ?thesis
    using rfold_index [of "inodes st" "\<lambda>i s. rbind (deref (getInode st i)) (\<lambda>inode. f i inode s)" 0 f s]
    by (simp add: for_inodes_def inode_table_def getInode_def n)
qed

lemma in_inode_table: "(i, d) \<in> set (inode_table st) \<longleftrightarrow> 0 \<le> i \<and> i < int (length (inodes st)) \<and> d = inodes st ! nat i"
  by (auto simp: inode_table_def set_zip intro: exI [of _ "nat i"])

lemma snd_inode_table: "snd ` set (inode_table st) = set (inodes st)"
  by (force simp: inode_table_def set_zip in_set_conv_nth)

lemma all_inode_table: "(\<forall>(i, d)\<in>set (inode_table st). P d) \<longleftrightarrow> (\<forall>d\<in>set (inodes st). P d)"
  unfolding snd_inode_table [symmetric] by auto

lemma for_inodes_check:
  assumes "layout_ok st" and "\<And>i d. (i, d) \<in> set (inode_table st) \<Longrightarrow> f i d () = (if P i d then Ret () else Halt m)"
  shows "for_inodes st f () = (if \<forall>(i, d)\<in>set (inode_table st). P i d then Ret () else Halt m)"
  unfolding for_inodes_table [OF assms(1)]
  by (subst rfold_check [where P = "\<lambda>(i, d). P i d" and m = m]) (auto simp: assms(2))

lemma table_valid: "layout_ok st \<Longrightarrow> (i, d) \<in> set (inode_table st) \<Longrightarrow> dinode_valid d \<and> d \<in> set (inodes st)"
  by (auto simp: layout_ok_def in_inode_table)

lemma set_direct_blocks:
  "dinode_valid d \<Longrightarrow> set (direct_blocks d) = {b. b \<noteq> 0 \<and> (\<exists>j<NDIRECT. b = int_of_u32 (di_addrs d ! j))}"
  by (force simp: direct_blocks_def dinode_valid_def in_set_conv_nth)

lemma for_direct_blocks:
  assumes "dinode_valid d"
  shows "for_direct d f s = rfold f (direct_blocks d) s"
proof -
  have take: "take NDIRECT (di_addrs d) = map (\<lambda>i. di_addrs d ! i) [0..<NDIRECT]"
    using assms by (auto simp: dinode_valid_def intro!: nth_equalityI)
  have skip: "rfold (\<lambda>x s. let a = h x in if a = 0 then Ret s else f a s) xs s = rfold f (filter (\<lambda>a. a \<noteq> 0) (map h xs)) s"
    for h :: "nat \<Rightarrow> int" and xs s
  proof (induction xs arbitrary: s)
    case (Cons x xs)
    then show ?case by (cases "f (h x) s") (auto simp: Let_def)
  qed simp
  show ?thesis by (simp only: for_direct_def direct_blocks_def take skip map_map comp_def)
qed

lemma isAllocated_marked [simp]:
  assumes "0 \<le> b" and "length (dataBitmap st) = 512"
  shows "isAllocated st b = Ret (marked st b)"
proof -
  have "nat (b mod 4096 div 8) < 512" using assms by (simp add: nat_less_iff)
  moreover have "b mod 4096 mod 8 = b mod 8" by (simp add: mod_mod_cancel)
  ultimately show ?thesis
    using assms by (simp add: isAllocated_def marked_def push_bit_of_1 and_exp_eq_0_iff_not_bit Let_def pos_imp_zdiv_nonneg_iff)
qed

lemma upto_check:
  assumes "e < INT_MAX" and "\<And>k. b \<le> k \<Longrightarrow> k \<le> e \<Longrightarrow> f k () = (if P k then Ret (Next ()) else Halt m)"
  shows "upto_ctl f b e () = (if \<forall>k\<in>set [b..e]. P k then Ret (Next ()) else Halt m)"
proof -
  have "for_ctl f ks () = (if \<forall>k\<in>set ks. P k then Ret (Next ()) else Halt m)" if "set ks \<subseteq> {b..e}" for ks
    using that by (induction ks) (auto simp: assms(2))
  then show ?thesis by (simp add: upto_ctl_in_image [OF assms(1)])
qed

lemma badInode_eq:
  assumes "layout_ok st"
  shows "badInode st = (if \<forall>d\<in>set (inodes st). di_type d \<in> {0, T_DIR, T_FILE, T_DEV}
                        then Ret () else Halt ERR_BAD_INODE)"
  unfolding badInode_def all_inode_table [symmetric]
  by (rule for_inodes_check [OF assms]) auto

definition inode_addrs_ok :: "fsck \<Rightarrow> dinode \<Rightarrow> bool" where
  "inode_addrs_ok st d \<longleftrightarrow> (\<forall>b\<in>set (direct_blocks d). addr_ok st b) \<and>
     (di_addrs d ! NDIRECT \<noteq> 0 \<longrightarrow>
        addr_ok st (int_of_u32 (di_addrs d ! NDIRECT)) \<and> addr_ok st (run_end True d))"

lemma int_of_u32_small: "unat w < 2147483648 \<Longrightarrow> int_of_u32 w = int (unat w)"
proof -
  assume a: "unat w < 2147483648"
  have "sint w = uint w" unfolding sint_uint
  proof (rule signed_take_bit_int_eq_self)
    have "int (unat w) < 2147483648" using a by linarith
    then show "uint w < 2 ^ (LENGTH(32) - Suc 0)" by simp
    show "- (2 ^ (LENGTH(32) - Suc 0)) \<le> uint w" by (rule order_trans [OF _ uint_ge_0]) simp
  qed
  then show ?thesis by (simp add: int_of_u32_def)
qed

lemma div_roundup: "(n + 511) div 512 = n div 512 + (if n mod 512 = 0 then 0 else (1::nat))"
proof -
  have "(n mod 512 + 511 + 512 * (n div 512)) div 512 = n div 512 + (n mod 512 + 511) div 512" by (rule div_mult_self2) simp
  moreover have "n mod 512 + 511 + 512 * (n div 512) = n + 511" using mult_div_mod_eq [of 512 n] by linarith
  moreover have "(n mod 512 + 511) div 512 = (if n mod 512 = 0 then 0 else 1)"
  proof (cases "n mod 512")
    case (Suc k)
    then have "k < 512" using mod_less_divisor [of 512 n] by linarith
    then show ?thesis by (simp add: Suc)
  qed simp
  ultimately show ?thesis by argo
qed

text \<open>Within the image the \<open>int\<close> arithmetic of the checker does not wrap around.\<close>

lemma indirect_end_eq:
  assumes "layout_ok st" and "addr_ok st (int_of_u32 (di_addrs d ! NDIRECT))"
  shows "indirect_end r d = run_end r d"
proof -
  let ?b = "int_of_u32 (di_addrs d ! NDIRECT)" and ?n = "unat (di_size d) div 512"
  have b: "0 < ?b" "?b < 4194304" using assms by (auto simp: addr_ok_def layout_ok_def)
  have n: "?n < 8388608" using unsigned_less [of "di_size d", where ?'a = nat] by (simp add: div_less_iff_less_mult)
  have q: "int_of_u32 (di_size d div 512) = int ?n"
    using n unat_div [of "di_size d" 512] int_of_u32_small [of "di_size d div 512"] by simp
  have m: "di_size d mod 512 = 0 \<longleftrightarrow> unat (di_size d) mod 512 = 0"
    using unat_mod [of "di_size d" 512] unat_eq_zero [of "di_size d mod 512"] by simp
  have e: "(unat (di_size d) + 511) div 512 = ?n + (if unat (di_size d) mod 512 = 0 then 0 else 1)" by (rule div_roundup)
  show ?thesis using b n by (simp add: indirect_end_def run_end_def file_blocks_def q m e Let_def)
qed

lemma check_addresses_eq:
  assumes "layout_ok st" and "dinode_valid d"
  shows "check_addresses st d = (if inode_addrs_ok st d then Ret () else Halt ERR_BAD_ADDR)"
proof -
  have direct: "for_direct d (\<lambda>addr _. if addr < beginDataBlocksAddr st \<or> addr \<ge> imageSize st then Halt ERR_BAD_ADDR else Ret ()) ()
     = (if \<forall>b\<in>set (direct_blocks d). addr_ok st b then Ret () else Halt ERR_BAD_ADDR)"
    unfolding for_direct_blocks [OF assms(2)] by (rule rfold_check) (auto simp: addr_ok_def)
  have loop: "upto_ctl (\<lambda>j _. rbind (isAllocated st j) (\<lambda>_. Ret (Next ()))) b e () = Ret (Next ())"
    if "addr_ok st b" "addr_ok st e" for b e
    using that assms(1)
    by (subst upto_check [where P = "\<lambda>_. True"]) (auto simp: addr_ok_def layout_ok_def)
  have e: "indirect_end True d = run_end True d"
    if "\<not> (int_of_u32 (di_addrs d ! NDIRECT) < beginDataBlocksAddr st \<or> imageSize st \<le> int_of_u32 (di_addrs d ! NDIRECT))"
    by (rule indirect_end_eq [OF assms(1)]) (use that in \<open>auto simp: addr_ok_def\<close>)
  show ?thesis
    unfolding check_addresses_def direct inode_addrs_ok_def
    using loop e by (auto simp: Let_def) (auto simp: addr_ok_def)
qed

lemma badAddressInInode_eq:
  assumes "layout_ok st"
  shows "badAddressInInode st = (if addrs_ok st then Ret () else Halt ERR_BAD_ADDR)"
  unfolding badAddressInInode_def addrs_ok_def inode_addrs_ok_def [symmetric] all_inode_table [symmetric]
  by (rule for_inodes_check [OF assms]) (simp add: check_addresses_eq [OF assms] table_valid [OF assms])


lemma run_end_False_le: "run_end False d \<le> run_end r d"
  by (simp add: run_end_def file_blocks_def div_le_mono)

lemma block_addr_ok:
  assumes "layout_ok st" and "inode_addrs_ok st d" and "b \<in> set (blocks r d)"
  shows "addr_ok st b"
proof (cases "b \<in> set (direct_blocks d)")
  case False
  with assms have b: "di_addrs d ! NDIRECT \<noteq> 0" "int_of_u32 (di_addrs d ! NDIRECT) \<le> b" "b \<le> run_end r d"
    by (auto simp: blocks_def indirect_blocks_def split: if_splits)
  with assms have ok: "addr_ok st (int_of_u32 (di_addrs d ! NDIRECT))" "addr_ok st (run_end True d)"
    by (auto simp: inode_addrs_ok_def)
  have "b \<le> run_end True d" using b(3) run_end_False_le [of d True] by (cases r) auto
  with b ok show ?thesis by (auto simp: addr_ok_def)
qed (use assms in \<open>auto simp: inode_addrs_ok_def\<close>)

lemma indirect_end_small:
  assumes "layout_ok st" and "inode_addrs_ok st d" and "di_addrs d ! NDIRECT \<noteq> 0"
  shows "indirect_end r d = run_end r d" and "run_end r d < INT_MAX"
proof -
  have ok: "addr_ok st (int_of_u32 (di_addrs d ! NDIRECT))" "addr_ok st (run_end True d)" using assms by (simp_all add: inode_addrs_ok_def)
  show "indirect_end r d = run_end r d" by (rule indirect_end_eq [OF assms(1) ok(1)])
  have "run_end True d < 4194304" using ok(2) assms(1) by (auto simp: addr_ok_def layout_ok_def)
  then show "run_end r d < INT_MAX" using run_end_False_le [of d True] by (cases r) auto
qed

lemma block_in_imageI: "layout_ok st \<Longrightarrow> addr_ok st b \<Longrightarrow> block_in_image st b"
  by (auto simp: layout_ok_def addr_ok_def block_in_image_def)

lemma addrs_okD: "addrs_ok st \<Longrightarrow> d \<in> set (inodes st) \<Longrightarrow> inode_addrs_ok st d"
  by (auto simp: addrs_ok_def inode_addrs_ok_def)

lemma check_marked_eq:
  "layout_ok st \<Longrightarrow> addr_ok st b \<Longrightarrow> check_marked st b = (if marked st b then Ret () else Halt ERR_MARKED_FREE)"
  by (auto simp: check_marked_def layout_ok_def addr_ok_def)

text \<open>A loop over the direct blocks and then the indirect range is the loop over \<open>blocks\<close>.\<close>

lemma upto_ctl_rfold:
  assumes "e < INT_MAX"
  shows "upto_ctl (\<lambda>k s. rbind (f k s) (\<lambda>s. Ret (Next s))) b e s = rbind (rfold f [b..e] s) (\<lambda>s. Ret (Next s))"
  unfolding upto_ctl_in_image [OF assms] by (rule for_ctl_rfold) simp

lemma for_blocks_eq:
  assumes "layout_ok st" and "inode_addrs_ok st d" and "dinode_valid d"
  shows "for_blocks d f s = rfold f (blocks False d) s"
proof (cases "di_addrs d ! NDIRECT = 0")
  case True
  then show ?thesis by (simp add: for_blocks_def for_direct_blocks assms blocks_def indirect_blocks_def)
next
  case False
  then show ?thesis
    by (simp add: for_blocks_def for_direct_blocks assms blocks_def indirect_blocks_def Let_def
        upto_ctl_rfold indirect_end_small [OF assms(1,2)] rfold_append rbind_assoc)
qed

lemma addressUsedByInodeButMarkedFreeInBitmap_eq:
  assumes "layout_ok st" and "addrs_ok st"
  shows "addressUsedByInodeButMarkedFreeInBitmap st =
    (if \<forall>d\<in>set (inodes st). \<forall>b\<in>set (blocks False d). marked st b then Ret () else Halt ERR_MARKED_FREE)"
  unfolding addressUsedByInodeButMarkedFreeInBitmap_def all_inode_table [symmetric]
proof (rule for_inodes_check [OF assms(1)])
  fix i d assume "(i, d) \<in> set (inode_table st)"
  then have d: "dinode_valid d" "inode_addrs_ok st d"
    using table_valid [OF assms(1)] addrs_okD [OF assms(2)] by auto
  show "for_blocks d (\<lambda>addr _. check_marked st addr) () =
      (if \<forall>b\<in>set (blocks False d). marked st b then Ret () else Halt ERR_MARKED_FREE)"
    unfolding for_blocks_eq [OF assms(1) d(2,1)]
    by (rule rfold_check) (simp add: check_marked_eq [OF assms(1)] block_addr_ok [OF assms(1) d(2)])
qed

section \<open>Blocks marked in use\<close>

definition uses :: "dinode \<Rightarrow> int \<Rightarrow> bool" where
  "uses d y \<longleftrightarrow> y \<in> set (blocks True d)"

lemma block_user_eq:
  assumes "layout_ok st" and "0 \<le> i" "i < numInodes st" "0 < y" and "addrs_ok st"
  shows "\<exists>c. block_user st y i found = Ret c \<and> ctl_val c = (found \<or> uses (inodes st ! nat i) y) \<and>
           (c = Next (ctl_val c) \<or> c = Goto True)"
proof -
  let ?d = "inodes st ! nat i"
  have d: "getInode st i = Some ?d" "dinode_valid ?d"
    using getInode_in [OF assms(1-3)] assms(1) by (auto simp: layout_ok_def)
  have e: "indirect_end True ?d = run_end True ?d" if "di_addrs ?d ! NDIRECT \<noteq> 0"
    by (rule indirect_end_small [OF assms(1) addrs_okD [OF assms(5)] that]) (use getInode_in [OF assms(1-3)] in blast)
  have "list_ex (\<lambda>j. int_of_u32 (di_addrs ?d ! j) \<noteq> 0 \<and> int_of_u32 (di_addrs ?d ! j) = y) [0..<NDIRECT]
      \<longleftrightarrow> y \<in> set (direct_blocks ?d)"
    using assms(4) by (auto simp: list_ex_iff set_direct_blocks [OF d(2)] Bex_def simp del: int_of_u32_eq_0)
  then show ?thesis
    using e by (auto simp: block_user_def d uses_def blocks_def indirect_blocks_def Let_def)
qed

lemma block_users_eq:
  assumes "layout_ok st" and "0 < y" and "set is \<subseteq> {0..<numInodes st}" and "addrs_ok st"
  shows "\<exists>c. for_ctl (block_user st y) is found = Ret c \<and>
           ctl_val c = (found \<or> (\<exists>i\<in>set is. uses (inodes st ! nat i) y))"
  using assms(3)
proof (induction "is" arbitrary: found)
  case (Cons i "is")
  then have i: "0 \<le> i" "i < numInodes st" by auto
  obtain c where c: "block_user st y i found = Ret c" "ctl_val c = (found \<or> uses (inodes st ! nat i) y)"
      "c = Next (ctl_val c) \<or> c = Goto True"
    using block_user_eq [OF assms(1) i assms(2,4)] by blast
  then show ?case using Cons.IH [of "ctl_val c"] Cons.prems by (cases c) auto
qed simp

lemma bitmapMarksBlockInUseButItIsNotInUse_eq:
  assumes "layout_ok st" and "addrs_ok st" and "0 \<le> numDataBlocks st" and "numDataBlocks st + beginDataBlocksAddr st < 2 ^ 31"
  shows "bitmapMarksBlockInUseButItIsNotInUse st =
    (if \<forall>y\<in>{beginDataBlocksAddr st..<beginDataBlocksAddr st + numDataBlocks st}.
          marked st y \<longrightarrow> (\<exists>d\<in>set (inodes st). uses d y) then Ret () else Halt ERR_BITMAP_USED)"
proof -
  let ?r = "[beginDataBlocksAddr st..i32 (numDataBlocks st + beginDataBlocksAddr st) - 1]"
  have r: "set ?r = {beginDataBlocksAddr st..<beginDataBlocksAddr st + numDataBlocks st}"
    using assms by (auto simp: layout_ok_def)
  have ex: "(\<exists>i\<in>{0..numInodes st - 1}. uses (inodes st ! nat i) y) \<longleftrightarrow> (\<exists>d\<in>set (inodes st). uses d y)" for y
    using all_inodes [OF assms(1), of "\<lambda>d. \<not> uses d y"] by auto
  show ?thesis
    unfolding bitmapMarksBlockInUseButItIsNotInUse_def r [symmetric]
  proof (rule rfold_check)
    fix y assume "y \<in> set ?r"
    then have y: "0 < y" using assms(1) r by (auto simp: layout_ok_def)
    obtain c where c: "for_ctl (block_user st y) [0..numInodes st - 1] False = Ret c"
        "ctl_val c = (\<exists>d\<in>set (inodes st). uses d y)"
      using block_users_eq [OF assms(1) y _ assms(2), of "[0..numInodes st - 1]" False]
      by (auto simp: ex subset_iff)
    show "rbind (isAllocated st y) (\<lambda>alloc. if alloc then
       rbind (for_ctl (block_user st y) [0..numInodes st - 1] False) (\<lambda>found.
         if ctl_val found then Ret () else Halt ERR_BITMAP_USED) else Ret ()) =
       (if marked st y \<longrightarrow> (\<exists>d\<in>set (inodes st). uses d y) then Ret () else Halt ERR_BITMAP_USED)"
      using y assms(1) by (simp add: c layout_ok_def)
  qed
qed

section \<open>Addresses used once\<close>

lemma claims_eq:
  assumes "\<And>b. b \<in> set bs \<Longrightarrow> 0 \<le> b \<and> nat b < length hm"
  shows "rfold claim_addr bs hm = (if distinct bs \<and> (\<forall>b\<in>set bs. hm ! nat b = 0)
     then Ret (fold (\<lambda>b hm. hm[nat b := 1]) bs hm) else Halt ERR_TWICE)"
  using assms
proof (induction bs arbitrary: hm)
  case (Cons b bs)
  have b: "0 \<le> b" "nat b < length hm" using Cons.prems [of b] by auto
  have IH: "rfold claim_addr bs (hm[nat b := 1]) = (if distinct bs \<and> (\<forall>c\<in>set bs. hm[nat b := 1] ! nat c = 0)
     then Ret (fold (\<lambda>b hm. hm[nat b := 1]) bs (hm[nat b := 1])) else Halt ERR_TWICE)"
    using Cons.prems by (intro Cons.IH) auto
  have nth: "(\<forall>c\<in>set bs. hm[nat b := 1] ! nat c = 0) \<longleftrightarrow> b \<notin> set bs \<and> (\<forall>c\<in>set bs. hm ! nat c = 0)"
  proof -
    have "hm[nat b := 1] ! nat c = (if c = b then 1 else hm ! nat c)" if "c \<in> set bs" for c
      using that b Cons.prems [of c] by (auto simp: nth_list_update)
    then show ?thesis by auto
  qed
  have "rfold claim_addr (b # bs) hm = (if hm ! nat b \<noteq> 0 then Halt ERR_TWICE else rfold claim_addr bs (hm[nat b := 1]))"
    using b by (simp add: claim_addr_def [of b])
  with IH nth show ?case by auto
qed simp

lemma addressUsedMoreThanOnce_claims:
  assumes "layout_ok st" and "addrs_ok st"
  shows "addressUsedMoreThanOnce st = rfold claim_addr (concat (map (blocks False) (inodes st))) (inodeHashMap st)"
proof -
  have body: "for_blocks d claim_addr hm = rfold claim_addr (blocks False d) hm"
    if "(i, d) \<in> set (inode_table st)" for i d hm
    using table_valid [OF assms(1) that] addrs_okD [OF assms(2)] by (intro for_blocks_eq [OF assms(1)]) auto
  have "addressUsedMoreThanOnce st = rfold (\<lambda>(i, d). rfold claim_addr (blocks False d)) (inode_table st) (inodeHashMap st)"
    unfolding addressUsedMoreThanOnce_def for_inodes_table [OF assms(1)]
    by (rule rfold_cong) (auto simp: body)
  also have "\<dots> = rfold claim_addr (concat (map (\<lambda>x. blocks False (snd x)) (inode_table st))) (inodeHashMap st)"
  proof -
    have "rfold (\<lambda>(i, d). rfold claim_addr (blocks False d)) xs hm
        = rfold claim_addr (concat (map (\<lambda>x. blocks False (snd x)) xs)) hm" for xs :: "(int \<times> dinode) list" and hm
      by (induction xs arbitrary: hm) (auto simp: rfold_append intro!: rbind_cong split: prod.splits)
    then show ?thesis .
  qed
  also have "map (\<lambda>x. blocks False (snd x)) (inode_table st) = map (blocks False) (inodes st)"
    by (simp add: inode_table_def comp_def flip: map_map [unfolded comp_def])
  finally show ?thesis .
qed

lemma addressUsedMoreThanOnce_eq:
  assumes "layout_ok st" and "addrs_ok st" and "imageSize st \<le> int (length (inodeHashMap st))"
    and "\<forall>b<nat (imageSize st). inodeHashMap st ! b = 0"
  shows "(\<exists>hm. addressUsedMoreThanOnce st = Ret hm) \<longleftrightarrow> distinct (concat (map (blocks False) (inodes st)))"
    and "\<not> distinct (concat (map (blocks False) (inodes st))) \<Longrightarrow> addressUsedMoreThanOnce st = Halt ERR_TWICE"
proof -
  have b: "0 \<le> b \<and> nat b < nat (imageSize st)" if b: "b \<in> set (concat (map (blocks False) (inodes st)))" for b
  proof -
    obtain d where d: "d \<in> set (inodes st)" "b \<in> set (blocks False d)"
      using b by auto
    then show ?thesis using block_addr_ok [OF assms(1) addrs_okD [OF assms(2) d(1)] d(2)] assms(1)
      by (auto simp: addr_ok_def layout_ok_def)
  qed
  have "rfold claim_addr (concat (map (blocks False) (inodes st))) (inodeHashMap st) =
     (if distinct (concat (map (blocks False) (inodes st))) \<and>
         (\<forall>b\<in>set (concat (map (blocks False) (inodes st))). inodeHashMap st ! nat b = 0)
     then Ret (fold (\<lambda>b hm. hm[nat b := 1]) (concat (map (blocks False) (inodes st))) (inodeHashMap st)) else Halt ERR_TWICE)"
    using b assms(3) by (intro claims_eq) force
  moreover have "\<forall>b\<in>set (concat (map (blocks False) (inodes st))). inodeHashMap st ! nat b = 0"
    using b assms(4) by blast
  ultimately show "(\<exists>hm. addressUsedMoreThanOnce st = Ret hm) \<longleftrightarrow> distinct (concat (map (blocks False) (inodes st)))"
    and "\<not> distinct (concat (map (blocks False) (inodes st))) \<Longrightarrow> addressUsedMoreThanOnce st = Halt ERR_TWICE"
    by (auto simp: addressUsedMoreThanOnce_claims [OF assms(1,2)])
qed

end
