(* ===== verification/Fscheck_Dirs.thy ===== *)
theory Fscheck_Dirs
  imports Fscheck_Spec
begin

text \<open>
  The checks of \<open>a/fscheck.c\<close> that read directories: the parent check, and the sweep over all directories
  that three others share, as the locale \<open>dir_fold\<close>.
\<close>

section \<open>Directory entries\<close>

definition dir_at :: "fsck \<Rightarrow> int \<Rightarrow> bool" where
  "dir_at st i \<longleftrightarrow> (case getInode st i of None \<Rightarrow> False | Some d \<Rightarrow> di_type d = T_DIR)"

text \<open>Every entry of every directory names an inode of the table.\<close>

definition refs_valid :: "fsck \<Rightarrow> bool" where
  "refs_valid st \<longleftrightarrow> (\<forall>d\<in>set (inodes st). di_type d = T_DIR \<longrightarrow>
     (\<forall>e\<in>set (listing st True d). inum_of e < numInodes st))"

definition direct_listing :: "fsck \<Rightarrow> dinode \<Rightarrow> dirent list" where
  "direct_listing st d = entries st no_name (direct_blocks d)"

lemma direct_listing_subset: "set (direct_listing st d) \<subseteq> set (listing st r d)"
  by (auto simp: direct_listing_def listing_entries entries_def blocks_def)

subsection \<open>The parent directory\<close>

definition find_parent_step :: "fsck \<Rightarrow> int \<Rightarrow> dirent \<Rightarrow> int \<Rightarrow> int ctl res" where
  "find_parent_step st m d parent = rbind (deref (getInode st (inum_of d))) (\<lambda>sub.
     if di_type sub \<noteq> T_DIR then Ret (Next parent)
     else if is_dotdot d then if inum_of d = m \<and> m \<noteq> 1 then Halt ERR_PARENT else Ret (Goto (inum_of d))
     else Ret (Next parent))"

interpretation find_parent: dir_scan st "find_parent st m" no_name "find_parent_step st m" for st m
  by unfold_locales
     (auto simp: find_parent_def find_parent_step_def map_res_rbind if_distrib [of "map_res _"] rbind_eq_Ret
       cong: if_cong split: if_splits)

definition find_child_step :: "fsck \<Rightarrow> int \<Rightarrow> dirent \<Rightarrow> unit \<Rightarrow> unit ctl res" where
  "find_child_step st m d _ = rbind (deref (getInode st (inum_of d))) (\<lambda>sub.
     if di_type sub \<noteq> T_DIR then Ret (Next ())
     else if inum_of d = m then Ret (Goto ()) else Ret (Next ()))"

interpretation find_child: dir_scan st "find_child st m" no_name "find_child_step st m" for st m
  by unfold_locales
     (auto simp: find_child_def find_child_step_def map_res_rbind if_distrib [of "map_res _"] rbind_eq_Ret
       cong: if_cong split: if_splits)

definition parent_ok :: "fsck \<Rightarrow> int \<Rightarrow> dinode \<Rightarrow> bool" where
  "parent_ok st m d \<longleftrightarrow> (case find (\<lambda>e. is_dotdot e \<and> dir_at st (inum_of e)) (direct_listing st d) of
      None \<Rightarrow> False
    | Some e \<Rightarrow> (inum_of e = m \<longrightarrow> m = 1) \<and>
        (\<exists>c\<in>set (direct_listing st (inodes st ! nat (inum_of e))). inum_of c = m))"

lemma find_parent_loop:
  assumes "layout_ok st" and "\<And>e. e \<in> set es \<Longrightarrow> inum_of e < numInodes st"
  shows "for_ctl (find_parent_step st m) es q =
    (case find (\<lambda>e. is_dotdot e \<and> dir_at st (inum_of e)) es of
       None \<Rightarrow> Ret (Next q)
     | Some e \<Rightarrow> if inum_of e = m \<and> m \<noteq> 1 then Halt ERR_PARENT else Ret (Goto (inum_of e)))"
  using assms(2)
proof (induction es)
  case (Cons e es)
  then have "getInode st (inum_of e) = Some (inodes st ! nat (inum_of e))"
    using getInode_in [OF assms(1), of "inum_of e"] by simp
  with Cons show ?case by (auto simp: find_parent_step_def dir_at_def)
qed simp

lemma find_child_loop:
  assumes "layout_ok st" and "\<And>e. e \<in> set es \<Longrightarrow> inum_of e < numInodes st" and "dir_at st m"
  shows "for_ctl (find_child_step st m) es () = (if \<exists>e\<in>set es. inum_of e = m then Ret (Goto ()) else Ret (Next ()))"
  using assms(2)
proof (induction es)
  case (Cons e es)
  then have "getInode st (inum_of e) = Some (inodes st ! nat (inum_of e))"
    using getInode_in [OF assms(1), of "inum_of e"] by simp
  with Cons assms(3) show ?case by (auto simp: find_child_step_def dir_at_def)
qed simp


lemma eraseD_Next: "erase x = Ret (Next s) \<Longrightarrow> kept x \<Longrightarrow> \<exists>dir p. x = Ret (Next (dir, p, s)) \<and> length dir = 16"
proof -
  assume x: "erase x = Ret (Next s)" "kept x"
  then obtain c where c: "x = Ret c" by (cases x) (auto simp: erase_def)
  with x show ?thesis by (cases c) (auto simp: erase_def kept_def)
qed

lemma eraseD_Goto: "erase x = Ret (Goto s) \<Longrightarrow> kept x \<Longrightarrow> \<exists>dir p. x = Ret (Goto (dir, p, s)) \<and> length dir = 16"
proof -
  assume x: "erase x = Ret (Goto s)" "kept x"
  then obtain c where c: "x = Ret c" by (cases x) (auto simp: erase_def)
  with x show ?thesis by (cases c) (auto simp: erase_def kept_def)
qed

lemma eraseD_Halt: "erase x = Halt m \<Longrightarrow> x = Halt m"
  by (cases x) (auto simp: erase_def)

lemma direct_in_image:
  "layout_ok st \<Longrightarrow> inode_addrs_ok st d \<Longrightarrow> b \<in> set (direct_blocks d) \<Longrightarrow> block_in_image st b"
  by (auto simp: inode_addrs_ok_def intro: block_in_imageI)

lemma check_parent_eq:
  assumes ok: "layout_ok st" "addrs_ok st" "refs_valid st" and md: "(m, d) \<in> set (inode_table st)"
    and dir: "length dir = 16"
  shows "if di_type d = T_DIR \<longrightarrow> parent_ok st m d
         then \<exists>a. check_parent st m d (dir, p) = Ret a \<and> length (fst a) = 16
         else check_parent st m d (dir, p) = Halt ERR_PARENT"
proof (cases "di_type d = T_DIR")
  case False
  then show ?thesis using dir by (simp add: check_parent_def)
next
  case True
  have d: "dinode_valid d" "d \<in> set (inodes st)" "inode_addrs_ok st d"
    using table_valid [OF ok(1) md] addrs_okD [OF ok(2)] by auto
  have refs: "inum_of e < numInodes st" if "e \<in> set (direct_listing st d')" "d' \<in> set (inodes st)" "di_type d' = T_DIR" for e d'
    using that ok(3) direct_listing_subset by (force simp: refs_valid_def)
  let ?x = "direct_loop st (find_parent st m) d (dir, p, - 1)"
  let ?F = "find (\<lambda>e. is_dotdot e \<and> dir_at st (inum_of e)) (direct_listing st d)"
  have x: "erase ?x = (case ?F of None \<Rightarrow> Ret (Next (- 1))
     | Some e \<Rightarrow> if inum_of e = m \<and> m \<noteq> 1 then Halt ERR_PARENT else Ret (Goto (inum_of e)))" "kept ?x"
    using find_parent.scan_direct [where st = st and m = m and p = p and s = "- 1", OF d(1) _ dir] direct_in_image [OF ok(1) d(3)]
      find_parent_loop [OF ok(1) refs [OF _ d(2) True]]
    by (auto simp: direct_listing_def)
  show ?thesis
  proof (cases ?F)
    case None
    with x obtain dir' p' where "?x = Ret (Next (dir', p', - 1))" using eraseD_Next [of ?x] by auto
    then show ?thesis using True None by (simp add: check_parent_def parent_ok_def)
  next
    case (Some e)
    then have e: "e \<in> set (direct_listing st d)" "dir_at st (inum_of e)"
      by (auto simp: find_Some_iff)
    show ?thesis
    proof (cases "inum_of e = m \<and> m \<noteq> 1")
      case bad: True
      then have "?x = Halt ERR_PARENT" using x Some eraseD_Halt by auto
      then show ?thesis using True Some bad by (simp add: check_parent_def parent_ok_def)
    next
      case fine: False
      then obtain dir' p' where x': "?x = Ret (Goto (dir', p', inum_of e))" "length dir' = 16"
        using x Some eraseD_Goto [of ?x] by auto
      define pd where "pd = inodes st ! nat (inum_of e)"
      have pd: "getInode st (inum_of e) = Some pd" "pd \<in> set (inodes st)" "di_type pd = T_DIR"
        using getInode_in [OF ok(1) _ refs [OF e(1) d(2) True]] e(2) by (auto simp: pd_def dir_at_def)
      then have pd': "dinode_valid pd" "inode_addrs_ok st pd"
        using ok(1) addrs_okD [OF ok(2)] by (auto simp: layout_ok_def)
      have nz: "inum_of e \<noteq> - 1" using uint_ge_0 [of "de_inum e"] by linarith
      have m: "dir_at st m" using md True ok(1) by (auto simp: dir_at_def in_inode_table getInode_def layout_ok_def)
      let ?y = "direct_loop st (find_child st m) pd (dir', p', ())"
      have y: "erase ?y = (if \<exists>c\<in>set (direct_listing st pd). inum_of c = m then Ret (Goto ()) else Ret (Next ()))" "kept ?y"
        using find_child.scan_direct [where st = st and m = m and p = p' and s = "()", OF pd'(1) _ x'(2)] direct_in_image [OF ok(1) pd'(2)]
          find_child_loop [OF ok(1) refs [OF _ pd(2,3)] m]
        by (auto simp: direct_listing_def)
      show ?thesis
      proof (cases "\<exists>c\<in>set (direct_listing st pd). inum_of c = m")
        case True
        then obtain dir'' p'' where "?y = Ret (Goto (dir'', p'', ()))" "length dir'' = 16" using y eraseD_Goto [of ?y] by auto
        then show ?thesis using \<open>di_type d = T_DIR\<close> x' pd fine True Some nz
          by (auto simp: check_parent_def parent_ok_def pd_def)
      next
        case False
        then obtain dir'' p'' where "?y = Ret (Next (dir'', p'', ()))" using y eraseD_Next [of ?y] by auto
        then show ?thesis using \<open>di_type d = T_DIR\<close> x' pd fine False Some nz
          by (auto simp: check_parent_def parent_ok_def pd_def)
      qed
    qed
  qed
qed

lemma parentDirectoryMismatch_eq:
  assumes ok: "layout_ok st" "addrs_ok st" "refs_valid st"
  shows "if \<forall>(m, d)\<in>set (inode_table st). di_type d = T_DIR \<longrightarrow> parent_ok st m d
         then \<exists>p'. parentDirectoryMismatch st p = Ret p'
         else parentDirectoryMismatch st p = Halt ERR_PARENT"
proof -
  have "if \<forall>x\<in>set (inode_table st). (case x of (m, d) \<Rightarrow> di_type d = T_DIR \<longrightarrow> parent_ok st m d)
        then \<exists>a. rfold (\<lambda>(m, d). check_parent st m d) (inode_table st) (malloc_dir st, p) = Ret a \<and> length (fst a) = 16
        else rfold (\<lambda>(m, d). check_parent st m d) (inode_table st) (malloc_dir st, p) = Halt ERR_PARENT"
  proof (rule rfold_check_inv)
    fix x and a :: "u8 list \<times> nat"
    assume x: "x \<in> set (inode_table st)" and a: "length (fst a) = 16"
    obtain m d where "x = (m, d)" by (cases x)
    then show "if case x of (m, d) \<Rightarrow> di_type d = T_DIR \<longrightarrow> parent_ok st m d
       then \<exists>a'. (case x of (m, d) \<Rightarrow> check_parent st m d) a = Ret a' \<and> length (fst a') = 16
       else (case x of (m, d) \<Rightarrow> check_parent st m d) a = Halt ERR_PARENT"
      using check_parent_eq [OF ok, of m d "fst a" "snd a"] x a by (auto split: if_splits)
  qed simp
  then show ?thesis
    by (auto simp: parentDirectoryMismatch_def for_inodes_table [OF ok(1)] split: if_splits)
qed


subsection \<open>Checks that fold over every entry\<close>

text \<open>Such a check's body either leaves the block or updates its variables by \<open>h\<close>; it never jumps out.\<close>

locale dir_fold =
  fixes st :: fsck and body :: "dirent \<Rightarrow> nat \<times> 's \<Rightarrow> (nat \<times> 's) ctl res"
    and stop :: "dirent \<Rightarrow> bool" and h :: "dirent \<Rightarrow> 's \<Rightarrow> 's res"
  assumes body_fold: "map_res (map_ctl snd) (body d (p, s)) =
    (if stop d then Ret (Break s) else rbind (h d s) (\<lambda>s. Ret (Next s)))"

sublocale dir_fold \<subseteq> dir_scan st body stop "\<lambda>d s. rbind (h d s) (\<lambda>s. Ret (Next s))"
  by unfold_locales (simp_all add: body_fold rbind_eq_Ret)

context dir_fold
begin

lemma fold_loop: "for_ctl (\<lambda>d s. rbind (h d s) (\<lambda>s. Ret (Next s))) es s = rbind (rfold h es s) (\<lambda>s. Ret (Next s))"
  by (rule for_ctl_rfold) simp

lemma fold_result:
  assumes "erase x = rbind (rfold h es s) (\<lambda>s. Ret (Next s))" and "kept x"
  shows "rfold h es s = map_res (\<lambda>c. snd (snd (ctl_val c))) x \<and> (\<forall>c. x = Ret c \<longrightarrow> length (fst (ctl_val c)) = 16)"
proof (cases x)
  case (Ret c)
  then obtain t where "rfold h es s = Ret t" "erase x = Ret (Next t)"
    using assms(1) by (cases "rfold h es s") (auto simp: erase_def)
  with eraseD_Next [OF this(2) assms(2)] show ?thesis by auto
qed (use assms(1) in \<open>cases "rfold h es s"; simp add: erase_def\<close>)+

lemma fold_direct:
  assumes "layout_ok st" and "inode_addrs_ok st d" and "dinode_valid d" and "length dir = 16"
  shows "let x = direct_loop st body d (dir, p, s) in
    rfold h (entries st stop (direct_blocks d)) s = map_res (\<lambda>c. snd (snd (ctl_val c))) x \<and>
    (\<forall>c. x = Ret c \<longrightarrow> length (fst (ctl_val c)) = 16)"
  unfolding Let_def
  by (rule fold_result)
    (use scan_direct [OF assms(3) _ assms(4), of p s] direct_in_image [OF assms(1,2)] in \<open>simp_all add: fold_loop\<close>)

lemma fold_indirect:
  assumes "layout_ok st" and "inode_addrs_ok st d" and "length dir = 16"
  shows "let x = indirect_loop st r body d (dir, p, s) in
    rfold h (entries st stop (indirect_blocks r d)) s = map_res (\<lambda>c. snd (snd (ctl_val c))) x \<and>
    (\<forall>c. x = Ret c \<longrightarrow> length (fst (ctl_val c)) = 16)"
proof (cases "di_addrs d ! NDIRECT = 0")
  case True
  then show ?thesis
    using assms(3) by (simp add: indirect_loop_def indirect_blocks_def entries_def)
next
  case False
  have "\<forall>b\<in>set (indirect_blocks r d). block_in_image st b"
    using block_in_imageI [OF assms(1) block_addr_ok [OF assms(1,2)]] by (auto simp: blocks_def)
  then show ?thesis
    unfolding Let_def
    by (intro fold_result)
      (use scan_indirect [OF _ assms(3) indirect_end_small [OF assms(1,2) False], of r p s] in \<open>simp_all add: fold_loop\<close>)
qed

lemma fold_both:
  assumes "layout_ok st" and "inode_addrs_ok st d" and "dinode_valid d" and "length dir = 16"
  shows "map_res (\<lambda>a. snd (snd a)) (both_loops st r body d (dir, p, s)) = rfold h (entries st stop (blocks r d)) s \<and>
    (\<forall>a. both_loops st r body d (dir, p, s) = Ret a \<longrightarrow> length (fst a) = 16)"
proof -
  let ?x = "direct_loop st body d (dir, p, s)"
  have E: "entries st stop (blocks r d) = entries st stop (direct_blocks d) @ entries st stop (indirect_blocks r d)"
    by (simp add: entries_def blocks_def)
  note x = fold_direct [OF assms, of p s, unfolded Let_def]
  show ?thesis
  proof (cases ?x)
    case (Ret c)
    obtain dir' p' t where c: "ctl_val c = (dir', p', t)" "length dir' = 16"
      using x Ret by (cases "ctl_val c") auto
    let ?y = "indirect_loop st r body d (dir', p', t)"
    note y = fold_indirect [OF assms(1,2) c(2), of r p' t, unfolded Let_def]
    show ?thesis using x y by (cases ?y) (auto simp: both_loops_def Ret c E rfold_append)
  qed (use x in \<open>simp_all add: both_loops_def E rfold_append\<close>)
qed

end

definition dir_table :: "fsck \<Rightarrow> (int \<times> dinode) list" where
  "dir_table st = filter (\<lambda>(m, d). di_type d = T_DIR) (inode_table st)"

lemma all_directories_eq:
  assumes ok: "layout_ok st" "addrs_ok st" and body: "\<And>m. dir_fold (body m) stop (h m)"
  shows "map_res snd (all_directories st body p s) =
    rfold (\<lambda>(m, d). rfold (h m) (entries st stop (blocks True d))) (dir_table st) s"
proof -
  let ?f = "\<lambda>m inode a. if di_type inode \<noteq> T_DIR then Ret a else both_loops st True (body m) inode a"
  have "map_res (\<lambda>a. snd (snd a)) (rfold (\<lambda>(m, d). ?f m d) xs (dir, p, s)) =
      rfold (\<lambda>(m, d). rfold (h m) (entries st stop (blocks True d))) (filter (\<lambda>(m, d). di_type d = T_DIR) xs) s"
    if "set xs \<subseteq> set (inode_table st)" "length dir = 16" for xs dir p s
    using that
  proof (induction xs arbitrary: dir p s)
    case (Cons x xs)
    obtain m d where x: "x = (m, d)" by (cases x)
    show ?case
    proof (cases "di_type d = T_DIR")
      case False
      then show ?thesis using Cons by (simp add: x)
    next
      case True
      have d: "dinode_valid d" "inode_addrs_ok st d"
        using Cons.prems table_valid [OF ok(1), of m d] addrs_okD [OF ok(2)] by (auto simp: x)
      let ?y = "both_loops st True (body m) d (dir, p, s)"
      have y: "map_res (\<lambda>a. snd (snd a)) ?y = rfold (h m) (entries st stop (blocks True d)) s"
          "\<forall>a. ?y = Ret a \<longrightarrow> length (fst a) = 16"
        using dir_fold.fold_both [OF body ok(1) d(2,1) Cons.prems(2)] by blast+
      show ?thesis
        using y Cons.IH Cons.prems True by (cases ?y) (auto simp: x simp flip: y(1))
    qed
  qed simp
  from this [of "inode_table st" "malloc_dir st" p s] show ?thesis
    unfolding all_directories_def for_inodes_table [OF ok(1)] dir_table_def
    by (simp add: map_res_rbind split_def) (cases "rfold (\<lambda>(m, d). ?f m d) (inode_table st) (malloc_dir st, p, s)"; simp add: split_def)
qed

end
