(* ===== verification/Fscheck_Refs.thy ===== *)
theory Fscheck_Refs
  imports Fscheck_Dirs
begin

text \<open>
  The three checks of \<open>a/fscheck.c\<close> that sweep all directories and collect what their entries
  refer to: \<open>inodeMarkedUseButNotFoundInADirectory\<close>, \<open>badReferenceCountForFile\<close> and
  \<open>directoryAppearsMoreThanOnceInFileSystem\<close>. Each body is an instance of the locale
  \<open>dir_fold\<close>; the sweep is then a fold over the list of references.
\<close>

section \<open>References\<close>

text \<open>All entries of all directories, in the order the sweep meets them.\<close>

definition refs :: "fsck \<Rightarrow> dirent list" where
  "refs st = concat (map (\<lambda>(m, d). listing st True d) (dir_table st))"

lemma in_dir_table: "(m, d) \<in> set (dir_table st) \<longleftrightarrow> (m, d) \<in> set (inode_table st) \<and> di_type d = T_DIR"
  by (auto simp: dir_table_def)

lemma inode_table_nth: "x \<in> set (inode_table st) \<Longrightarrow> \<exists>i<length (inodes st). x = (int i, inodes st ! i)"
  by (metis in_inode_table nat_less_iff int_nat_eq prod.exhaust)

lemma refs_in_range:
  assumes "layout_ok st" and "refs_valid st" and "e \<in> set (refs st)"
  shows "0 \<le> inum_of e \<and> inum_of e < numInodes st"
  using assms(3,2) table_valid [OF assms(1)] by (fastforce simp: refs_def in_dir_table refs_valid_def)

lemma map_res_eq_Ret: "map_res f x = Ret y \<longleftrightarrow> (\<exists>z. x = Ret z \<and> y = f z)"
  by (cases x) auto

lemma rfold_concat: "rfold (\<lambda>x. rfold f (g x)) xs s = rfold f (concat (map g xs)) s"
  by (induction xs arbitrary: s) (auto simp: rfold_append intro!: rbind_cong)

lemma sweep_refs:
  assumes "layout_ok st" and "addrs_ok st" and "\<And>m. dir_fold (body m) no_name h"
  shows "map_res snd (all_directories st body p s) = rfold h (refs st) s"
proof -
  have "rfold (\<lambda>(m, d). rfold h (entries st no_name (blocks True d))) (dir_table st) s = rfold h (refs st) s"
    unfolding refs_def by (subst rfold_concat [symmetric]) (rule rfold_cong; auto simp: listing_entries)
  with all_directories_eq [OF assms(1,2), of body no_name "\<lambda>_. h" p s] assms(3) show ?thesis by simp
qed

section \<open>Every inode in use is in some directory\<close>

interpretation mark_found: dir_fold st "mark_found st m" no_name "\<lambda>d hm. arr_set hm (inum_of d) 1" for st m
  by unfold_locales (simp add: mark_found_def map_res_rbind)

lemma mark_all:
  assumes "\<forall>e\<in>set es. inum_of e < int (length hm)"
  shows "\<exists>hm'. rfold (\<lambda>d hm. arr_set hm (inum_of d) 1) es hm = Ret hm' \<and> length hm' = length hm \<and>
    (\<forall>i<length hm. hm' ! i = (if \<exists>e\<in>set es. inum_of e = int i then 1 else hm ! i))"
  using assms
proof (induction es arbitrary: hm)
  case (Cons e es)
  have e: "0 \<le> inum_of e" "nat (inum_of e) < length hm" using Cons.prems by (simp_all add: nat_less_iff del: nat_uint_eq)
  obtain hm' where "rfold (\<lambda>d hm. arr_set hm (inum_of d) 1) es (hm[nat (inum_of e) := 1]) = Ret hm'"
      "length hm' = length hm"
      "\<forall>i<length hm. hm' ! i = (if \<exists>e\<in>set es. inum_of e = int i then 1 else hm[nat (inum_of e) := 1] ! i)"
    using Cons.IH [of "hm[nat (inum_of e) := 1]"] Cons.prems by auto
  then show ?case using e by (auto simp: nth_list_update)
qed simp

definition used_inode :: "dinode \<Rightarrow> bool" where
  "used_inode d \<longleftrightarrow> di_type d = T_DIR \<or> di_type d = T_FILE \<or> di_type d = T_DEV"

lemma inodeMarkedUseButNotFoundInADirectory_eq:
  assumes ok: "layout_ok st" "addrs_ok st" "refs_valid st"
    and hm: "numInodes st \<le> int (length (inodeHashMap2 st))" "\<forall>i<nat (numInodes st). inodeHashMap2 st ! i = 0"
  shows "if \<forall>(i, d)\<in>set (inode_table st). used_inode d \<longrightarrow> i \<in> inum_of ` set (refs st)
    then \<exists>p'. inodeMarkedUseButNotFoundInADirectory st p = Ret p'
    else inodeMarkedUseButNotFoundInADirectory st p = Halt ERR_NOT_FOUND"
proof -
  obtain hm' where hm': "rfold (\<lambda>d hm. arr_set hm (inum_of d) 1) (refs st) (inodeHashMap2 st) = Ret hm'"
      "length hm' = length (inodeHashMap2 st)"
      "\<forall>i<length hm'. hm' ! i = (if \<exists>e\<in>set (refs st). inum_of e = int i then 1 else inodeHashMap2 st ! i)"
    using mark_all [of "refs st" "inodeHashMap2 st"] refs_in_range [OF ok(1,3)] hm(1) by fastforce
  obtain p' where p': "all_directories st (mark_found st) p (inodeHashMap2 st) = Ret (p', hm')"
    using sweep_refs [where body = "mark_found st" and p = p and s = "inodeHashMap2 st", OF ok(1,2) mark_found.dir_fold_axioms] hm'(1)
    by (auto simp: map_res_eq_Ret)
  let ?b = "\<lambda>i inode _. if \<not> (di_type inode = T_DIR \<or> di_type inode = T_FILE \<or> di_type inode = T_DEV) then Ret ()
     else rbind (arr_get hm' i) (\<lambda>v. if v = 1 then Ret () else Halt ERR_NOT_FOUND)"
  have "for_inodes st ?b () =
     (if \<forall>(i, d)\<in>set (inode_table st). used_inode d \<longrightarrow> i \<in> inum_of ` set (refs st) then Ret () else Halt ERR_NOT_FOUND)"
    unfolding for_inodes_table [OF ok(1)]
  proof (rule rfold_check)
    fix x assume "x \<in> set (inode_table st)"
    then obtain i d where x: "x = (int i, d)" "i < length hm'" "inodeHashMap2 st ! i = 0"
      using inode_table_nth [of x st] hm hm'(2) ok(1) by (auto simp: layout_ok_def)
    then show "(case x of (i, inode) \<Rightarrow> ?b i inode) () =
        (if case x of (i, d) \<Rightarrow> used_inode d \<longrightarrow> i \<in> inum_of ` set (refs st) then Ret () else Halt ERR_NOT_FOUND)"
      using hm'(3) by (auto simp: used_inode_def image_iff Bex_def)
  qed
  then show ?thesis by (simp add: inodeMarkedUseButNotFoundInADirectory_def p')
qed

section \<open>Reference counts\<close>

definition count_one :: "fsck \<Rightarrow> dirent \<Rightarrow> int list \<Rightarrow> int list res" where
  "count_one st d numRefs = rbind (deref (getInode st (inum_of d))) (\<lambda>sub.
     if di_type sub = T_FILE then rbind (arr_get numRefs (inum_of d)) (\<lambda>v. arr_set numRefs (inum_of d) (i32 (v + 1)))
     else Ret numRefs)"

interpretation count_ref: dir_fold st "count_ref st m" no_name "count_one st" for st m
  by unfold_locales
     (auto simp: count_ref_def count_one_def map_res_rbind rbind_assoc if_distrib [of "map_res _"] intro!: rbind_cong)

definition ref_count :: "fsck \<Rightarrow> int \<Rightarrow> nat" where
  "ref_count st i = length (filter (\<lambda>e. inum_of e = i) (refs st))"

lemma i32_succ: "i32 (i32 x + 1) = i32 (x + 1)"
  unfolding i32_def signed_take_bit_eq_iff_take_bit_eq
  by (metis take_bit_add take_bit_signed_take_bit le_refl lessI less_imp_le_nat)

lemma inum_of_eq_int: "inum_of e = int i \<longleftrightarrow> unat (de_inum e) = i"
  by (metis of_nat_eq_iff uint_nat)

lemma count_all:
  assumes "layout_ok st" and "\<forall>e\<in>set es. inum_of e < int (length a)" and "int (length a) = numInodes st"
    and "\<forall>i<length a. a ! i = i32 (c i)"
  shows "\<exists>a'. rfold (count_one st) es a = Ret a' \<and> length a' = length a \<and>
    (\<forall>i<length a. di_type (inodes st ! i) = T_FILE \<longrightarrow>
       a' ! i = i32 (c i + int (length (filter (\<lambda>e. inum_of e = int i) es))))"
  using assms(2,3,4)
proof (induction es arbitrary: a c)
  case (Cons e es)
  let ?i = "nat (inum_of e)" let ?c = "c(?i := c ?i + 1)"
  have e: "0 \<le> inum_of e" "?i < length a" "getInode st (inum_of e) = Some (inodes st ! ?i)"
    using Cons.prems getInode_in [OF assms(1), of "inum_of e"] by (simp_all add: nat_less_iff del: nat_uint_eq)
  show ?case
  proof (cases "di_type (inodes st ! ?i) = T_FILE")
    case True
    have "\<forall>i<length a. a[?i := i32 (a ! ?i + 1)] ! i = i32 (?c i)"
      using Cons.prems(3) e(2) by (simp add: nth_list_update i32_succ)
    then obtain a' where a': "rfold (count_one st) es (a[?i := i32 (a ! ?i + 1)]) = Ret a'" "length a' = length a"
        "\<forall>i<length a. di_type (inodes st ! i) = T_FILE \<longrightarrow> a' ! i = i32 (?c i + int (length (filter (\<lambda>e. inum_of e = int i) es)))"
      using Cons.IH [of "a[?i := i32 (a ! ?i + 1)]" ?c] Cons.prems by auto
    have "count_one st e a = Ret (a[?i := i32 (a ! ?i + 1)])" using e True by (simp add: count_one_def)
    with a' show ?thesis by (auto simp: algebra_simps inum_of_eq_int)
  next
    case False
    then have "count_one st e a = Ret a" using e by (simp add: count_one_def)
    moreover obtain a' where "rfold (count_one st) es a = Ret a'" "length a' = length a"
        "\<forall>i<length a. di_type (inodes st ! i) = T_FILE \<longrightarrow> a' ! i = i32 (c i + int (length (filter (\<lambda>e. inum_of e = int i) es)))"
      using Cons.IH [of a c] Cons.prems by auto
    ultimately show ?thesis using False by (auto simp: inum_of_eq_int)
  qed
qed simp

lemma badReferenceCountForFile_eq:
  assumes ok: "layout_ok st" "addrs_ok st" "refs_valid st"
  shows "if \<forall>(i, d)\<in>set (inode_table st). di_type d = T_FILE \<longrightarrow> i32 (int (ref_count st i)) = sint (di_nlink d)
    then \<exists>p'. badReferenceCountForFile st p = Ret p'
    else badReferenceCountForFile st p = Halt ERR_REFCOUNT"
proof -
  let ?z = "replicate (nat (numInodes st)) (0 :: int)"
  have n: "int (length ?z) = numInodes st" "length (inodes st) = length ?z" using ok(1) by (auto simp: layout_ok_def)
  have "\<exists>a'. rfold (count_one st) (refs st) ?z = Ret a' \<and> length a' = length ?z \<and>
    (\<forall>i<length ?z. di_type (inodes st ! i) = T_FILE \<longrightarrow>
       a' ! i = i32 (0 + int (length (filter (\<lambda>e. inum_of e = int i) (refs st)))))"
    using refs_in_range [OF ok(1,3)] n(1) by (intro count_all [OF ok(1)]) auto
  then obtain a where a: "rfold (count_one st) (refs st) ?z = Ret a" "length a = length ?z"
     "\<forall>i<length ?z. di_type (inodes st ! i) = T_FILE \<longrightarrow> a ! i = i32 (int (ref_count st (int i)))"
    by (auto simp: ref_count_def)
  obtain p' where p': "all_directories st (count_ref st) p ?z = Ret (p', a)"
    using sweep_refs [where body = "count_ref st" and p = p and s = ?z, OF ok(1,2) count_ref.dir_fold_axioms] a(1)
    by (auto simp: map_res_eq_Ret)
  let ?b = "\<lambda>i inode _. if di_type inode = T_FILE then
     rbind (arr_get a i) (\<lambda>v. if v \<noteq> sint (di_nlink inode) then Halt ERR_REFCOUNT else Ret ()) else Ret ()"
  have "for_inodes st ?b () =
     (if \<forall>(i, d)\<in>set (inode_table st). di_type d = T_FILE \<longrightarrow> i32 (int (ref_count st i)) = sint (di_nlink d)
      then Ret () else Halt ERR_REFCOUNT)"
    unfolding for_inodes_table [OF ok(1)]
  proof (rule rfold_check)
    fix x assume "x \<in> set (inode_table st)"
    then obtain i where x: "x = (int i, inodes st ! i)" "i < length ?z"
      using inode_table_nth n(2) by metis
    then show "(case x of (i, inode) \<Rightarrow> ?b i inode) () =
        (if case x of (i, d) \<Rightarrow> di_type d = T_FILE \<longrightarrow> i32 (int (ref_count st i)) = sint (di_nlink d)
         then Ret () else Halt ERR_REFCOUNT)"
      using a(2,3) by simp
  qed
  then show ?thesis by (simp add: badReferenceCountForFile_def p')
qed

section \<open>Directories named once\<close>

text \<open>
  This sweep does not stop at an unnamed slot: it reads all 32 slots of a block. The directories
  it counts are those the slots refer to, a directory's own \<open>.\<close> and every \<open>..\<close> left out.
\<close>

definition all_slots :: "fsck \<Rightarrow> dinode \<Rightarrow> dirent list" where
  "all_slots st d = concat (map (slots st) (blocks True d))"

lemma all_slots_entries: "all_slots st d = entries st (\<lambda>_. False) (blocks True d)"
  by (simp add: all_slots_def entries_def takeWhile_eq_all_conv [THEN iffD2])

definition slots_valid :: "fsck \<Rightarrow> bool" where
  "slots_valid st \<longleftrightarrow> (\<forall>d\<in>set (inodes st). di_type d = T_DIR \<longrightarrow> (\<forall>e\<in>set (all_slots st d). inum_of e < numInodes st))"

definition counted :: "fsck \<Rightarrow> int \<Rightarrow> dirent \<Rightarrow> bool" where
  "counted st m e \<longleftrightarrow> dir_at st (inum_of e) \<and> \<not> (is_dot e \<and> inum_of e = m) \<and> \<not> is_dotdot e"

definition named_dirs :: "fsck \<Rightarrow> int list" where
  "named_dirs st = concat (map (\<lambda>(m, d). map inum_of (filter (counted st m) (all_slots st d))) (dir_table st))"

definition see_one :: "fsck \<Rightarrow> int \<Rightarrow> dirent \<Rightarrow> int list \<Rightarrow> int list res" where
  "see_one st m d dirMap = rbind (deref (getInode st (inum_of d))) (\<lambda>sub.
     if di_type sub = T_DIR then
       if is_dot d \<and> inum_of d = m then Ret dirMap
       else if is_dotdot d then Ret dirMap
       else rbind (arr_get dirMap (inum_of d)) (\<lambda>v.
         if v = 1 then Halt ERR_DIR_TWICE else arr_set dirMap (inum_of d) 1)
     else Ret dirMap)"

interpretation see_dir: dir_fold st "see_dir st m" "\<lambda>_. False" "see_one st m" for st m
  by unfold_locales
     (auto simp: see_dir_def see_one_def map_res_rbind rbind_assoc if_distrib [of "map_res _"]
        intro!: rbind_cong split: if_splits)

definition see_num :: "int \<Rightarrow> int list \<Rightarrow> int list res" where
  "see_num i dirMap = rbind (arr_get dirMap i) (\<lambda>v. if v = 1 then Halt ERR_DIR_TWICE else arr_set dirMap i 1)"

lemma see_filter:
  assumes "layout_ok st" and "\<forall>e\<in>set es. inum_of e < numInodes st"
  shows "rfold (see_one st m) es a = rfold see_num (map inum_of (filter (counted st m) es)) a"
  using assms(2)
proof (induction es arbitrary: a)
  case (Cons e es)
  have e: "getInode st (inum_of e) = Some (inodes st ! nat (inum_of e))"
    using Cons.prems getInode_in [OF assms(1), of "inum_of e"] by simp
  have "see_one st m e a = (if counted st m e then see_num (inum_of e) a else Ret a)"
    by (simp add: see_one_def see_num_def counted_def dir_at_def e del: nat_uint_eq)
  with Cons show ?case by (auto intro!: rbind_cong)
qed simp

lemma see_nums:
  assumes "\<forall>b\<in>set bs. 0 \<le> b \<and> nat b < length a" and "\<forall>b\<in>set bs. a ! nat b = (if b \<in> S then 1 else 0)"
  shows "if distinct bs \<and> set bs \<inter> S = {} then \<exists>a'. rfold see_num bs a = Ret a' else rfold see_num bs a = Halt ERR_DIR_TWICE"
  using assms
proof (induction bs arbitrary: a S)
  case (Cons b bs)
  have b: "0 \<le> b" "nat b < length a" "a ! nat b = (if b \<in> S then 1 else 0)" using Cons.prems by auto
  show ?case
  proof (cases "b \<in> S")
    case False
    have "\<forall>c\<in>set bs. a[nat b := 1] ! nat c = (if c \<in> insert b S then 1 else 0)"
      using Cons.prems b(1) by (auto simp: nth_list_update eq_nat_nat_iff)
    with Cons.IH [of "a[nat b := 1]" "insert b S"] Cons.prems(1) False b show ?thesis
      by (auto simp: see_num_def [of b] split: if_splits)
  qed (use b in \<open>simp add: see_num_def\<close>)
qed simp

lemma directoryAppearsMoreThanOnceInFileSystem_eq:
  assumes ok: "layout_ok st" "addrs_ok st" "slots_valid st"
  shows "if distinct (named_dirs st) then \<exists>p'. directoryAppearsMoreThanOnceInFileSystem st p = Ret p'
    else directoryAppearsMoreThanOnceInFileSystem st p = Halt ERR_DIR_TWICE"
proof -
  let ?z = "replicate (nat (numInodes st)) (0 :: int)"
  have valid: "e \<in> set (all_slots st d) \<Longrightarrow> inum_of e < numInodes st" if "(m, d) \<in> set (dir_table st)" for m d e
    using that ok(3) table_valid [OF ok(1)] by (auto simp: in_dir_table slots_valid_def)
  have "rfold (\<lambda>(m, d). rfold (see_one st m) (entries st (\<lambda>_. False) (blocks True d))) (dir_table st) ?z
      = rfold (\<lambda>x. rfold see_num (case x of (m, d) \<Rightarrow> map inum_of (filter (counted st m) (all_slots st d)))) (dir_table st) ?z"
    by (rule rfold_cong) (use see_filter [OF ok(1)] valid in \<open>auto simp: all_slots_entries\<close>)
  then have sweep: "map_res snd (all_directories st (see_dir st) p ?z) = rfold see_num (named_dirs st) ?z"
    using all_directories_eq [where body = "see_dir st" and p = p and s = ?z, OF ok(1,2) see_dir.dir_fold_axioms]
    by (simp add: rfold_concat named_dirs_def)
  have range: "\<forall>b\<in>set (named_dirs st). 0 \<le> b \<and> nat b < length ?z"
  proof
    fix b assume "b \<in> set (named_dirs st)"
    then obtain m d e where "(m, d) \<in> set (dir_table st)" "e \<in> set (all_slots st d)" "b = inum_of e"
      by (auto simp: named_dirs_def)
    then show "0 \<le> b \<and> nat b < length ?z" using valid [of m d e] order.strict_trans1 [OF uint_ge_0]
      by (auto simp: nat_less_iff simp del: nat_uint_eq)
  qed
  have "if distinct (named_dirs st) then \<exists>a'. rfold see_num (named_dirs st) ?z = Ret a'
        else rfold see_num (named_dirs st) ?z = Halt ERR_DIR_TWICE"
    using see_nums [OF range, of "{}"] range by simp
  then show ?thesis unfolding directoryAppearsMoreThanOnceInFileSystem_def sweep [symmetric]
    by (cases "all_directories st (see_dir st) p ?z") (auto split: if_splits)
qed

end
