(* ===== verification/Fscheck_Tree.thy ===== *)
theory Fscheck_Tree
  imports Fscheck_Refs
begin

text \<open>
  The two recursive checks of \<open>a/fscheck.c\<close>, \<open>directoryNotProperlyFormatted\<close> and
  \<open>inodeReferredToInDirectoryButMarkedFree\<close>. Both descend from a directory into its
  subdirectories without remembering where they have been. The locale \<open>tree_walk\<close> states what
  such a walk is and derives from it that passing means every reachable directory is good and
  no reachable directory lies on a cycle, and that a depth of one more than the number of inodes is
  enough for a walk that can pass.
\<close>

section \<open>Walking a directory graph\<close>

locale tree_walk =
  fixes passes :: "nat \<Rightarrow> 'i \<Rightarrow> bool" and good :: "'i \<Rightarrow> bool" and child :: "'i \<Rightarrow> 'i \<Rightarrow> bool"
  assumes walk_0: "\<not> passes 0 i"
    and walk_Suc: "passes (Suc f) i \<longleftrightarrow> good i \<and> (\<forall>j. child i j \<longrightarrow> passes f j)"
begin

lemma passes_reachable:
  assumes "child\<^sup>*\<^sup>* i j" and "passes f i"
  shows "\<exists>f'. passes f' j"
  using assms
proof (induction arbitrary: f rule: converse_rtranclp_induct)
  case (step i k)
  then show ?case by (cases f) (auto simp: walk_0 walk_Suc)
qed auto

lemma passes_good: "passes f i \<Longrightarrow> good i"
  by (cases f) (auto simp: walk_0 walk_Suc)

lemma passes_acyclic: "passes f i \<Longrightarrow> \<not> child\<^sup>+\<^sup>+ i i"
proof (induction f arbitrary: i)
  case (Suc f)
  show ?case
  proof
    assume "child\<^sup>+\<^sup>+ i i"
    then obtain j where j: "child i j" "child\<^sup>*\<^sup>* j i" by (meson tranclpD)
    then have "child\<^sup>+\<^sup>+ j j" by (meson rtranclp_into_tranclp1)
    with Suc j(1) show False by (auto simp: walk_Suc)
  qed
qed (simp add: walk_0)

lemma passes_rank:
  assumes "\<And>j. child\<^sup>*\<^sup>* i j \<Longrightarrow> good j" and "\<And>j k. child\<^sup>*\<^sup>* i j \<Longrightarrow> child j k \<Longrightarrow> rank k < (rank j :: nat)"
    and "rank i < f"
  shows "passes f i"
  using assms
proof (induction f arbitrary: i)
  case (Suc f)
  have "passes f j" if "child i j" for j
    using Suc.prems that by (intro Suc.IH) (auto intro: converse_rtranclp_into_rtranclp, force)
  with Suc.prems(1) [of i] show ?case by (simp add: walk_Suc)
qed simp

lemma passes_enough:
  assumes good: "\<And>j. child\<^sup>*\<^sup>* i j \<Longrightarrow> good j" and acyclic: "\<And>j. child\<^sup>*\<^sup>* i j \<Longrightarrow> \<not> child\<^sup>+\<^sup>+ j j"
    and fin: "finite A" "\<And>j k. child j k \<Longrightarrow> k \<in> A" and f: "card A < f"
  shows "passes f i"
proof (rule passes_rank [where rank = "\<lambda>j. card {k. child\<^sup>+\<^sup>+ j k}"])
  have sub: "{k. child\<^sup>+\<^sup>+ j k} \<subseteq> A" for j using fin(2) by (auto elim: tranclp.cases)
  then show "card {k. child\<^sup>+\<^sup>+ i k} < f" using f card_mono [OF fin(1) sub] by (meson le_less_trans)
  fix j k assume jk: "child\<^sup>*\<^sup>* i j" "child j k"
  then have "child\<^sup>*\<^sup>* i k" by auto
  then have "{l. child\<^sup>+\<^sup>+ k l} \<subset> {l. child\<^sup>+\<^sup>+ j l}"
    using acyclic [of k] jk(2) by (auto intro: tranclp_into_tranclp2)
  then show "card {l. child\<^sup>+\<^sup>+ k l} < card {l. child\<^sup>+\<^sup>+ j l}"
    using finite_subset [OF sub fin(1)] by (rule psubset_card_mono [rotated])
qed (use good in simp)

lemma passes_iff:
  assumes "finite A" "\<And>j k. child j k \<Longrightarrow> k \<in> A" "card A < f"
  shows "passes f i \<longleftrightarrow> (\<forall>j. child\<^sup>*\<^sup>* i j \<longrightarrow> good j \<and> \<not> child\<^sup>+\<^sup>+ j j)"
proof
  assume p: "passes f i"
  show "\<forall>j. child\<^sup>*\<^sup>* i j \<longrightarrow> good j \<and> \<not> child\<^sup>+\<^sup>+ j j"
    using passes_reachable [OF _ p] passes_good passes_acyclic by blast
next
  assume "\<forall>j. child\<^sup>*\<^sup>* i j \<longrightarrow> good j \<and> \<not> child\<^sup>+\<^sup>+ j j"
  then show "passes f i" by (intro passes_enough [OF _ _ assms]) auto
qed

lemma cycle_never_passes:
  assumes "child\<^sup>*\<^sup>* i j" and "child\<^sup>+\<^sup>+ j j"
  shows "\<not> passes f i"
  using passes_reachable [OF assms(1)] passes_acyclic assms(2) by blast

end

section \<open>Subdirectories\<close>

definition subdir_entry :: "fsck \<Rightarrow> dirent \<Rightarrow> bool" where
  "subdir_entry st e \<longleftrightarrow> dir_at st (inum_of e) \<and> \<not> is_dot e \<and> \<not> is_dotdot e"

definition subdir :: "fsck \<Rightarrow> bool \<Rightarrow> int \<Rightarrow> int \<Rightarrow> bool" where
  "subdir st r i j \<longleftrightarrow> (\<exists>d e. getInode st i = Some d \<and> e \<in> set (listing st r d) \<and> subdir_entry st e \<and> j = inum_of e)"

lemma subdir_in_table: "subdir st r i j \<Longrightarrow> j \<in> {0..<numInodes st}"
  by (auto simp: subdir_def subdir_entry_def dir_at_def getInode_def split: if_splits)

section \<open>Both of \<open>.\<close> and \<open>..\<close> in every directory\<close>

definition format_step :: "fsck \<Rightarrow> (int \<Rightarrow> unit res) \<Rightarrow> dirent \<Rightarrow> bool \<times> bool \<Rightarrow> (bool \<times> bool) res" where
  "format_step st r d = (\<lambda>(foundDot, foundDotDot). rbind (deref (getInode st (inum_of d))) (\<lambda>sub.
     if di_type sub \<noteq> T_DIR then Ret (foundDot, foundDotDot)
     else if is_dot d then Ret (True, foundDotDot)
     else if is_dotdot d then Ret (foundDot, True)
     else rbind (r (inum_of d)) (\<lambda>_. Ret (foundDot, foundDotDot))))"

lemma format_entry_fold:
  assumes "\<And>i p. map_res (\<lambda>_. ()) (recurse i p) = r i"
  shows "dir_fold (format_entry st recurse) no_name (format_step st r)"
proof -
  have rec: "rbind (recurse i p) (\<lambda>_. y) = rbind (r i) (\<lambda>_. y)" for i p and y :: "'b res"
    by (simp add: rbind_map_res flip: assms [of i p])
  show ?thesis
    by unfold_locales
       (auto simp: format_entry_def format_step_def map_res_rbind rbind_assoc if_distrib [of "map_res _"] rec
         intro!: rbind_cong split: if_splits)
qed

fun format_walk :: "fsck \<Rightarrow> nat \<Rightarrow> int \<Rightarrow> unit res" where
  "format_walk st 0 i = NoRet"
| "format_walk st (Suc fuel) i = rbind (deref (getInode st i)) (\<lambda>d.
     rbind (rfold (format_step st (format_walk st fuel)) (listing st False d) (False, False)) (\<lambda>(a, b).
     if \<not> a \<or> \<not> b then Halt ERR_FORMAT else Ret ()))"

lemma getInode_addrs:
  assumes "layout_ok st" and "addrs_ok st" and "getInode st i = Some d"
  shows "inode_addrs_ok st d" and "dinode_valid d"
proof -
  have "d \<in> set (inodes st)" using assms(1,3) by (auto simp: getInode_def layout_ok_def split: if_splits)
  with assms(1,2) show "inode_addrs_ok st d" "dinode_valid d" by (auto simp: addrs_okD layout_ok_def)
qed

lemma directoryNotProperlyFormatted_walk:
  assumes ok: "layout_ok st" "addrs_ok st"
  shows "map_res (\<lambda>_. ()) (directoryNotProperlyFormatted st fuel i p) = format_walk st fuel i"
proof (induction fuel arbitrary: i p)
  case (Suc fuel)
  show ?case
  proof (cases "getInode st i")
    case (Some d)
    let ?x = "both_loops st False (format_entry st (directoryNotProperlyFormatted st fuel)) d (malloc_dir st, p, False, False)"
    have "map_res (\<lambda>a. snd (snd a)) ?x = rfold (format_step st (format_walk st fuel)) (listing st False d) (False, False)"
      using dir_fold.fold_both [OF format_entry_fold [OF Suc.IH] ok(1) getInode_addrs [OF ok Some]]
      by (simp add: listing_entries)
    then show ?thesis by (cases ?x) (auto simp: Some simp flip: \<open>map_res _ ?x = _\<close> split: prod.splits)
  qed simp
qed simp

lemma format_steps:
  "rfold (format_step st r) es (a, b) = Ret (a', b') \<longleftrightarrow>
    (\<forall>e\<in>set es. getInode st (inum_of e) \<noteq> None \<and> (subdir_entry st e \<longrightarrow> r (inum_of e) = Ret ())) \<and>
    a' = (a \<or> (\<exists>e\<in>set es. is_dot e \<and> dir_at st (inum_of e))) \<and>
    b' = (b \<or> (\<exists>e\<in>set es. is_dotdot e \<and> \<not> is_dot e \<and> dir_at st (inum_of e)))"
proof (induction es arbitrary: a b)
  case (Cons e es)
  show ?case
  proof (cases "getInode st (inum_of e)")
    case (Some d)
    have "format_step st r e (a, b) = (if subdir_entry st e then rbind (r (inum_of e)) (\<lambda>_. Ret (a, b)) else
        Ret (a \<or> is_dot e \<and> dir_at st (inum_of e), b \<or> is_dotdot e \<and> \<not> is_dot e \<and> dir_at st (inum_of e)))"
      by (auto simp: format_step_def Some subdir_entry_def dir_at_def)
    then show ?thesis using Cons
      by (cases "r (inum_of e)") (auto simp: Some subdir_entry_def)
  qed (simp add: format_step_def)
qed auto

text \<open>What the format check wants of the directory with number \<open>i\<close>.\<close>

definition well_formatted :: "fsck \<Rightarrow> int \<Rightarrow> bool" where
  "well_formatted st i \<longleftrightarrow> (case getInode st i of None \<Rightarrow> False | Some d \<Rightarrow>
     (\<forall>e\<in>set (listing st False d). inum_of e < numInodes st) \<and>
     (\<exists>e\<in>set (listing st False d). is_dot e \<and> dir_at st (inum_of e)) \<and>
     (\<exists>e\<in>set (listing st False d). is_dotdot e \<and> \<not> is_dot e \<and> dir_at st (inum_of e)))"

lemma getInode_inum: "getInode st (inum_of e) \<noteq> None \<longleftrightarrow> inum_of e < numInodes st"
  by (simp add: getInode_def)

interpretation format_walk: tree_walk "\<lambda>f i. format_walk st f i = Ret ()" "well_formatted st" "subdir st False" for st
proof
  fix f i
  show "format_walk st (Suc f) i = Ret () \<longleftrightarrow>
    well_formatted st i \<and> (\<forall>j. subdir st False i j \<longrightarrow> format_walk st f j = Ret ())"
  proof (cases "getInode st i")
    case (Some d)
    let ?x = "rfold (format_step st (format_walk st f)) (listing st False d) (False, False)"
    have "format_walk st (Suc f) i = Ret () \<longleftrightarrow> ?x = Ret (True, True)"
      using Some by (auto simp: rbind_eq_Ret split: if_splits)
    then show ?thesis unfolding format_steps getInode_inum by (auto simp: well_formatted_def subdir_def Some)
  qed (simp add: well_formatted_def)
qed simp

lemma map_unit_eq_Ret: "map_res (\<lambda>_. ()) x = Ret () \<longleftrightarrow> (\<exists>y. x = Ret y)"
  by (cases x) auto

lemma fuel_enough: "layout_ok st \<Longrightarrow> numInodes st < int fuel \<Longrightarrow> nat (numInodes st) < fuel"
  by (auto simp: layout_ok_def nat_less_iff)

lemma directoryNotProperlyFormatted_iff:
  assumes "layout_ok st" and "addrs_ok st" and "numInodes st < int fuel"
  shows "(\<exists>p'. directoryNotProperlyFormatted st fuel i p = Ret p') \<longleftrightarrow>
    (\<forall>j. (subdir st False)\<^sup>*\<^sup>* i j \<longrightarrow> well_formatted st j \<and> \<not> (subdir st False)\<^sup>+\<^sup>+ j j)"
  unfolding map_unit_eq_Ret [symmetric] directoryNotProperlyFormatted_walk [OF assms(1,2)]
  by (rule format_walk.passes_iff [where A = "{0..<numInodes st}"]) (use fuel_enough [OF assms(1,3)] subdir_in_table in auto)

section \<open>Every entry refers to an inode in use\<close>

definition ref_step :: "fsck \<Rightarrow> (int \<Rightarrow> unit res) \<Rightarrow> dirent \<Rightarrow> unit \<Rightarrow> unit res" where
  "ref_step st r d _ = rbind (deref (getInode st (inum_of d))) (\<lambda>sub.
     if \<not> used_inode sub then Halt ERR_REF_FREE
     else if is_dot d then Ret ()
     else if is_dotdot d then Ret ()
     else if di_type sub = T_DIR then r (inum_of d) else Ret ())"

lemma ref_entry_fold:
  assumes "\<And>i p. map_res (\<lambda>_. ()) (recurse i p) = r i"
  shows "dir_fold (ref_entry st recurse) no_name (ref_step st r)"
proof -
  have rec: "rbind (recurse i p) (\<lambda>_. y) = rbind (r i) (\<lambda>_. y)" for i p and y :: "'b res"
    by (simp add: rbind_map_res flip: assms [of i p])
  show ?thesis
    by unfold_locales
       (auto simp: ref_entry_def ref_step_def used_inode_def map_res_rbind rbind_assoc if_distrib [of "map_res _"] rec
         intro!: rbind_cong split: if_splits)
qed

fun ref_walk :: "fsck \<Rightarrow> nat \<Rightarrow> int \<Rightarrow> unit res" where
  "ref_walk st 0 i = NoRet"
| "ref_walk st (Suc fuel) i = rbind (deref (getInode st i)) (\<lambda>d. rfold (ref_step st (ref_walk st fuel)) (listing st True d) ())"

lemma inodeReferredToInDirectoryButMarkedFree_walk:
  assumes ok: "layout_ok st" "addrs_ok st"
  shows "map_res (\<lambda>_. ()) (inodeReferredToInDirectoryButMarkedFree st fuel i p) = ref_walk st fuel i"
proof (induction fuel arbitrary: i p)
  case (Suc fuel)
  show ?case
  proof (cases "getInode st i")
    case (Some d)
    let ?x = "both_loops st True (ref_entry st (inodeReferredToInDirectoryButMarkedFree st fuel)) d (malloc_dir st, p, ())"
    have "map_res (\<lambda>a. snd (snd a)) ?x = rfold (ref_step st (ref_walk st fuel)) (listing st True d) ()"
      using dir_fold.fold_both [OF ref_entry_fold [OF Suc.IH] ok(1) getInode_addrs [OF ok Some]]
      by (simp add: listing_entries)
    then show ?thesis by (cases ?x) (auto simp: Some simp flip: \<open>map_res _ ?x = _\<close> split: prod.splits)
  qed simp
qed simp

definition used_at :: "fsck \<Rightarrow> int \<Rightarrow> bool" where
  "used_at st i \<longleftrightarrow> (case getInode st i of None \<Rightarrow> False | Some d \<Rightarrow> used_inode d)"

definition refers_to_used :: "fsck \<Rightarrow> int \<Rightarrow> bool" where
  "refers_to_used st i \<longleftrightarrow> (case getInode st i of None \<Rightarrow> False | Some d \<Rightarrow>
     \<forall>e\<in>set (listing st True d). used_at st (inum_of e))"

lemma ref_steps:
  "rfold (ref_step st r) es () = Ret () \<longleftrightarrow>
    (\<forall>e\<in>set es. used_at st (inum_of e) \<and> (subdir_entry st e \<longrightarrow> r (inum_of e) = Ret ()))"
proof (induction es)
  case (Cons e es)
  have "ref_step st r e () = Ret () \<longleftrightarrow> used_at st (inum_of e) \<and> (subdir_entry st e \<longrightarrow> r (inum_of e) = Ret ())"
    by (cases "getInode st (inum_of e)") (auto simp: ref_step_def used_at_def subdir_entry_def dir_at_def)
  with Cons show ?case by (auto simp: rbind_eq_Ret)
qed simp

interpretation ref_walk: tree_walk "\<lambda>f i. ref_walk st f i = Ret ()" "refers_to_used st" "subdir st True" for st
proof
  fix f i
  show "ref_walk st (Suc f) i = Ret () \<longleftrightarrow>
    refers_to_used st i \<and> (\<forall>j. subdir st True i j \<longrightarrow> ref_walk st f j = Ret ())"
    by (cases "getInode st i") (auto simp: refers_to_used_def subdir_def ref_steps)
qed simp

lemma inodeReferredToInDirectoryButMarkedFree_iff:
  assumes "layout_ok st" and "addrs_ok st" and "numInodes st < int fuel"
  shows "(\<exists>p'. inodeReferredToInDirectoryButMarkedFree st fuel i p = Ret p') \<longleftrightarrow>
    (\<forall>j. (subdir st True)\<^sup>*\<^sup>* i j \<longrightarrow> refers_to_used st j \<and> \<not> (subdir st True)\<^sup>+\<^sup>+ j j)"
  unfolding map_unit_eq_Ret [symmetric] inodeReferredToInDirectoryButMarkedFree_walk [OF assms(1,2)]
  by (rule ref_walk.passes_iff [where A = "{0..<numInodes st}"]) (use fuel_enough [OF assms(1,3)] subdir_in_table in auto)

end
