(* ===== verification/Fscheck_Main.thy ===== *)
theory Fscheck_Main
  imports Fscheck_Tree
begin

text \<open>
  The root directory check and the whole run of \<open>a/fscheck.c\<close>: \<open>run_checks\<close> returns exactly on
  the images that satisfy \<open>consistent\<close>, the conjunction of what the twelve checks look for. Last comes what
  \<open>main\<close> does when the image has more blocks than inodes.
\<close>

section \<open>The root directory\<close>

definition root_ok :: "fsck \<Rightarrow> bool" where
  "root_ok st \<longleftrightarrow> dir_at st 1 \<and>
     (let es = slots st (int_of_u32 (di_addrs (inodes st ! 1) ! 0)) in
      is_dot (es ! 0) \<longrightarrow> inum_of (es ! 0) = 1 \<and> (is_dotdot (es ! 1) \<longrightarrow> inum_of (es ! 1) = 1))"

lemma root_block_in_image:
  assumes "layout_ok st" and "addrs_ok st" and "0 < imageSize st" and "getInode st 1 = Some d"
  shows "block_in_image st (int_of_u32 (di_addrs d ! 0))"
proof (cases "di_addrs d ! 0 = 0")
  case True
  then show ?thesis using assms(1,3) by (auto simp: block_in_image_def layout_ok_def int_of_u32_def)
next
  case False
  then have "int_of_u32 (di_addrs d ! 0) \<in> set (direct_blocks d)"
    using getInode_addrs(2) [OF assms(1,2,4)] by (auto simp: set_direct_blocks intro!: exI [of _ 0])
  then show ?thesis
    using direct_in_image [OF assms(1) getInode_addrs(1) [OF assms(1,2,4)]] by blast
qed

lemma rootDirectoryDoesNotExist_eq:
  assumes "layout_ok st" and "addrs_ok st" and "0 < imageSize st"
  shows "if root_ok st then \<exists>p'. rootDirectoryDoesNotExist st p = Ret p' else rootDirectoryDoesNotExist st p = Halt ERR_ROOT"
proof (cases "getInode st 1")
  case None
  then show ?thesis by (simp add: rootDirectoryDoesNotExist_def root_ok_def dir_at_def)
next
  case (Some d)
  then have d: "d = inodes st ! 1" by (simp add: getInode_def split: if_splits)
  let ?b = "int_of_u32 (di_addrs d ! 0)"
  have blk: "block_in_image st ?b" by (rule root_block_in_image [OF assms Some])
  have r0: "read_image st (lseek_set (i32 (512 * ?b)) p) (malloc_dir st) =
      (nat (512 * ?b) + 16, rd (img st) (nat (512 * ?b)) 16)" for p
    using read_in_image [OF blk, of 0 "malloc_dir st" p] by simp
  have r1: "read_image st (nat (512 * ?b) + 16) dir = (nat (512 * ?b) + 32, rd (img st) (nat (512 * ?b) + 16) 16)"
    if "length dir = 16" for dir
  proof -
    have "nat (512 * ?b) + 32 \<le> img_len st" using blk unfolding block_in_image_def by linarith
    with that show ?thesis by (simp add: read_image_def)
  qed
  have s: "slots st ?b ! 0 = dec_dirent (rd (img st) (nat (512 * ?b)) 16)"
      "slots st ?b ! 1 = dec_dirent (rd (img st) (nat (512 * ?b) + 16) 16)"
    by (simp_all add: slots_def)
  have root: "root_ok st \<longleftrightarrow> di_type d = T_DIR \<and> (is_dot (slots st ?b ! 0) \<longrightarrow> inum_of (slots st ?b ! 0) = 1 \<and>
      (is_dotdot (slots st ?b ! 1) \<longrightarrow> inum_of (slots st ?b ! 1) = 1))"
    unfolding root_ok_def d [symmetric] dir_at_def Some Let_def by simp
  show ?thesis
    unfolding root s by (auto simp: rootDirectoryDoesNotExist_def Some r0 r1 Let_def)
qed

section \<open>The whole run\<close>

text \<open>
  What an image must satisfy for every check to pass. Directories are walked from the root, inode 1.
\<close>

definition bitmap_ok :: "fsck \<Rightarrow> bool" where
  "bitmap_ok st \<longleftrightarrow>
     (\<forall>d\<in>set (inodes st). \<forall>b\<in>set (blocks False d). marked st b) \<and>
     (\<forall>y\<in>{beginDataBlocksAddr st..<beginDataBlocksAddr st + numDataBlocks st}.
        marked st y \<longrightarrow> (\<exists>d\<in>set (inodes st). uses d y)) \<and>
     distinct (concat (map (blocks False) (inodes st)))"

definition tree_ok :: "fsck \<Rightarrow> bool" where
  "tree_ok st \<longleftrightarrow>
     (\<forall>j. (subdir st False)\<^sup>*\<^sup>* 1 j \<longrightarrow> well_formatted st j \<and> \<not> (subdir st False)\<^sup>+\<^sup>+ j j) \<and>
     (\<forall>j. (subdir st True)\<^sup>*\<^sup>* 1 j \<longrightarrow> refers_to_used st j \<and> \<not> (subdir st True)\<^sup>+\<^sup>+ j j) \<and>
     (\<forall>(m, d)\<in>set (inode_table st). di_type d = T_DIR \<longrightarrow> parent_ok st m d) \<and>
     distinct (named_dirs st)"

definition links_ok :: "fsck \<Rightarrow> bool" where
  "links_ok st \<longleftrightarrow>
     (\<forall>(i, d)\<in>set (inode_table st). used_inode d \<longrightarrow> i \<in> inum_of ` set (refs st)) \<and>
     (\<forall>(i, d)\<in>set (inode_table st). di_type d = T_FILE \<longrightarrow> i32 (int (ref_count st i)) = sint (di_nlink d))"

definition consistent :: "fsck \<Rightarrow> bool" where
  "consistent st \<longleftrightarrow> (\<forall>d\<in>set (inodes st). di_type d \<in> {0, T_DIR, T_FILE, T_DEV}) \<and>
     addrs_ok st \<and> root_ok st \<and> bitmap_ok st \<and> tree_ok st \<and> links_ok st"

text \<open>
  What the checks take for granted of the state \<open>main\<close> built: the superblock's numbers fit the
  image, the two work arrays are long enough and zeroed, and every slot of a directory holds an inode
  number of the table (an out-of-range one makes \<open>getInode\<close> return the null pointer the checks
  then follow).
\<close>

definition setup_ok :: "fsck \<Rightarrow> bool" where
  "setup_ok st \<longleftrightarrow> layout_ok st \<and> 0 < imageSize st \<and> 0 \<le> numDataBlocks st \<and>
     numDataBlocks st + beginDataBlocksAddr st < 2147483648 \<and>
     imageSize st \<le> int (length (inodeHashMap st)) \<and> (\<forall>x\<in>set (inodeHashMap st). x = 0) \<and>
     numInodes st \<le> int (length (inodeHashMap2 st)) \<and> (\<forall>x\<in>set (inodeHashMap2 st). x = 0) \<and> slots_valid st"

lemma setup_okD:
  assumes "setup_ok st"
  shows "layout_ok st" "0 < imageSize st" "slots_valid st" "refs_valid st"
    "\<forall>b<nat (imageSize st). inodeHashMap st ! b = 0" "\<forall>b<nat (numInodes st). inodeHashMap2 st ! b = 0"
proof -
  have "set (listing st True d) \<subseteq> set (all_slots st d)" for d
    by (auto simp: listing_def all_slots_def live_def [abs_def] dest: set_takeWhileD)
  then show "refs_valid st" using assms by (fastforce simp: setup_ok_def refs_valid_def slots_valid_def)
qed (use assms in \<open>auto simp: setup_ok_def\<close>)

lemma setup_ok_bounds:
  assumes "setup_ok st"
  shows "0 \<le> numDataBlocks st" "numDataBlocks st + beginDataBlocksAddr st < 2 ^ 31"
    "imageSize st \<le> int (length (inodeHashMap st))" "numInodes st \<le> int (length (inodeHashMap2 st))"
  using assms by (auto simp: setup_ok_def)

lemma rbind_if_halt:
  "x = (if P then Ret y else Halt m) \<Longrightarrow> (\<exists>r. rbind x f = Ret r) \<longleftrightarrow> P \<and> (\<exists>r. f y = Ret r)"
  "if P then \<exists>y. x = Ret y else x = Halt m \<Longrightarrow> (\<And>y. (\<exists>r. f y = Ret r) \<longleftrightarrow> Q) \<Longrightarrow> (\<exists>r. rbind x f = Ret r) \<longleftrightarrow> P \<and> Q"
  "(\<exists>y. x = Ret y) \<longleftrightarrow> P \<Longrightarrow> (\<And>y. (\<exists>r. f y = Ret r) \<longleftrightarrow> Q) \<Longrightarrow> (\<exists>r. rbind x f = Ret r) \<longleftrightarrow> P \<and> Q"
  by (auto simp: rbind_eq_Ret split: if_splits)

lemma run_checks_iff:
  assumes st: "setup_ok st" and fuel: "numInodes st < int fuel"
  shows "(\<exists>p'. run_checks fuel st p = Ret p') \<longleftrightarrow> consistent st"
proof (cases "addrs_ok st")
  case False
  then show ?thesis
    by (simp add: run_checks_def consistent_def badInode_eq badAddressInInode_eq setup_okD [OF st])
next
  case True
  note ok = setup_okD [OF st] setup_ok_bounds [OF st] True
  have last: "(\<exists>p'. directoryAppearsMoreThanOnceInFileSystem st q = Ret p') \<longleftrightarrow> distinct (named_dirs st)" for q
    using directoryAppearsMoreThanOnceInFileSystem_eq [of st q, OF ok(1,11,3)] by (cases "distinct (named_dirs st)") simp_all
  have "(\<exists>p'. run_checks fuel st p = Ret p') \<longleftrightarrow>
     (\<forall>d\<in>set (inodes st). di_type d \<in> {0, T_DIR, T_FILE, T_DEV}) \<and> addrs_ok st \<and> root_ok st \<and>
     (\<forall>j. (subdir st False)\<^sup>*\<^sup>* 1 j \<longrightarrow> well_formatted st j \<and> \<not> (subdir st False)\<^sup>+\<^sup>+ j j) \<and>
     (\<forall>(m, d)\<in>set (inode_table st). di_type d = T_DIR \<longrightarrow> parent_ok st m d) \<and>
     (\<forall>d\<in>set (inodes st). \<forall>b\<in>set (blocks False d). marked st b) \<and>
     (\<forall>y\<in>{beginDataBlocksAddr st..<beginDataBlocksAddr st + numDataBlocks st}.
        marked st y \<longrightarrow> (\<exists>d\<in>set (inodes st). uses d y)) \<and>
     distinct (concat (map (blocks False) (inodes st))) \<and>
     (\<forall>(i, d)\<in>set (inode_table st). used_inode d \<longrightarrow> i \<in> inum_of ` set (refs st)) \<and>
     (\<forall>j. (subdir st True)\<^sup>*\<^sup>* 1 j \<longrightarrow> refers_to_used st j \<and> \<not> (subdir st True)\<^sup>+\<^sup>+ j j) \<and>
     (\<forall>(i, d)\<in>set (inode_table st). di_type d = T_FILE \<longrightarrow> i32 (int (ref_count st i)) = sint (di_nlink d)) \<and>
     distinct (named_dirs st)"
    unfolding run_checks_def
    by (intro rbind_if_halt(1) [OF badInode_eq, THEN trans] arg_cong2 [where f = "(\<and>)"] refl
          rbind_if_halt(1) [OF badAddressInInode_eq, THEN trans]
          rbind_if_halt(2) [OF rootDirectoryDoesNotExist_eq]
          rbind_if_halt(3) [OF directoryNotProperlyFormatted_iff]
          rbind_if_halt(2) [OF parentDirectoryMismatch_eq]
          rbind_if_halt(1) [OF addressUsedByInodeButMarkedFreeInBitmap_eq, THEN trans]
          rbind_if_halt(1) [OF bitmapMarksBlockInUseButItIsNotInUse_eq, THEN trans]
          rbind_if_halt(3) [OF addressUsedMoreThanOnce_eq(1)]
          rbind_if_halt(2) [OF inodeMarkedUseButNotFoundInADirectory_eq]
          rbind_if_halt(3) [OF inodeReferredToInDirectoryButMarkedFree_iff]
          rbind_if_halt(2) [OF badReferenceCountForFile_eq] ok fuel)
       (rule last)
  then show ?thesis by (auto simp: consistent_def bitmap_ok_def tree_ok_def links_ok_def)
qed

section \<open>The work arrays\<close>

lemma cleared_map_overflow:
  assumes "0 \<le> n" and "n < s"
  shows "cleared_map js n s = Fault"
proof -
  let ?f = "\<lambda>i (hm :: int list). arr_set hm i (0 :: int)"
  have "rfold ?f is hm = Fault" if "n \<in> set is" "length hm = nat n" "\<forall>i\<in>set is. 0 \<le> i" for "is" hm
    using that
  proof (induction "is" arbitrary: hm)
    case (Cons i "is")
    then show ?case using assms(1) by (cases "i < n") (auto simp: arr_set_def nat_less_iff)
  qed simp
  then show ?thesis using assms by (simp add: cleared_map_def)
qed

lemma read_super_sb:
  assumes "524 \<le> len" and "sb = dec_superblock (rd content 512 12)"
  shows "imageSize (fst (read_super mem content len)) = int_of_u32 (sb_size sb)"
    "numInodes (fst (read_super mem content len)) = int_of_u32 (sb_ninodes sb)"
  using assms by (simp_all add: read_super_def read_image_def lseek_set_def Let_def)

lemma read_table_sb: "imageSize (fst (read_table st p)) = imageSize st" "numInodes (fst (read_table st p)) = numInodes st"
  by (simp_all add: read_table_def split_beta Let_def)

lemma main_overflow_eq:
  assumes "524 \<le> len" and "sb = dec_superblock (rd content 512 12)"
    and "0 \<le> int_of_u32 (sb_ninodes sb)" and "int_of_u32 (sb_ninodes sb) < int_of_u32 (sb_size sb)"
  shows "fscheck_main fuel mem js (Some (content, len)) = Fault"
proof -
  obtain st p st' p' where st: "read_super mem content len = (st, p)" "read_table st p = (st', p')"
    by (metis surj_pair)
  then have "imageSize st' = int_of_u32 (sb_size sb)" "numInodes st' = int_of_u32 (sb_ninodes sb)"
    using read_super_sb [OF assms(1,2), of mem] read_table_sb [of st p] by simp_all
  then show ?thesis using cleared_map_overflow [OF assms(3,4)] by (simp add: fscheck_main_def st)
qed

end
