(* ===== verification/Fscheck_Props.thy ===== *)
theory Fscheck_Props
  imports Fscheck_Main
begin

text \<open>
  The properties of the checker \<open>a/fscheck.c\<close>: each check accepts exactly the images its
  message describes, and the whole run accepts exactly the consistent ones. A small image that passes,
  and one with a directory that contains itself, show that the hypotheses can be met.
\<close>

section \<open>A small image\<close>

text \<open>
  Eight blocks, the data blocks from 5 on: the root directory in block 5 with the entries \<open>.\<close>,
  \<open>..\<close> and \<open>f\<close>, and the file \<open>f\<close>, inode 2, in block 6.
\<close>

definition DOT :: dirent where "DOT = \<lparr>de_inum = 1, de_name = 46 # replicate 13 0\<rparr>"
definition DOTDOT :: dirent where "DOTDOT = \<lparr>de_inum = 1, de_name = 46 # 46 # replicate 12 0\<rparr>"
definition F_ENT :: dirent where "F_ENT = \<lparr>de_inum = 2, de_name = 102 # replicate 13 0\<rparr>"
definition NO_ENT :: dirent where "NO_ENT = \<lparr>de_inum = 0, de_name = replicate 14 0\<rparr>"

definition demo_img :: bytes where
  "demo_img = wr (wr (wr (\<lambda>_. 0) 2560 (enc_dirent DOT)) 2576 (enc_dirent DOTDOT)) 2592 (enc_dirent F_ENT)"

abbreviation root_d :: dinode where
  "root_d \<equiv> \<lparr>di_type = T_DIR, di_major = 0, di_minor = 0, di_nlink = 1, di_size = 48, di_addrs = 5 # replicate 12 0\<rparr>"
abbreviation file_d :: dinode where
  "file_d \<equiv> \<lparr>di_type = T_FILE, di_major = 0, di_minor = 0, di_nlink = 1, di_size = 10, di_addrs = 6 # replicate 12 0\<rparr>"
abbreviation free_d :: dinode where
  "free_d \<equiv> \<lparr>di_type = 0, di_major = 0, di_minor = 0, di_nlink = 0, di_size = 0, di_addrs = replicate 13 0\<rparr>"

definition demo :: fsck where
  "demo = \<lparr>img = demo_img, img_len = 4096, junk = (\<lambda>_. 170), imageSize = 8, numDataBlocks = 3, numInodes = 3,
     numInodeBlocks = 1, dataBitmapAddr = 3, beginDataBlocksAddr = 5, inodes = [free_d, root_d, file_d],
     dataBitmap = 127 # replicate 511 0, inodeHashMap = replicate 8 0, inodeHashMap2 = replicate 8 0,
     directoryHashMap = replicate 8 0\<rparr>"

lemma demo_ents [simp]: "dirent_valid DOT" "dirent_valid DOTDOT" "dirent_valid F_ENT"
  by (simp_all add: dirent_valid_def DOT_def DOTDOT_def F_ENT_def)
lemma rd_zero: "rd (\<lambda>_. 0) a n = replicate n 0"
  by (simp add: rd_def map_replicate_const)
lemma dec_zero: "dec_dirent (replicate 16 0) = NO_ENT"
  by (simp add: dec_dirent_def NO_ENT_def of_le16_def)
lemma demo_slots: "slots demo 5 = DOT # DOTDOT # F_ENT # replicate 29 NO_ENT"
proof (rule nth_equalityI)
  fix k assume "k < length (slots demo 5)"
  then have "k < 32" by (simp add: slots_def)
  then show "slots demo 5 ! k = (DOT # DOTDOT # F_ENT # replicate 29 NO_ENT) ! k"
    by (cases "k = 0"; cases "k = 1"; cases "k = 2")
       (simp_all add: slots_def demo_def demo_img_def dirent.length_enc dirent.dec_enc rd_wr_other rd_wr_same
          rd_zero dec_zero nth_Cons')
qed (simp add: slots_def)

lemma demo_slots6: "slots demo 6 = replicate 32 NO_ENT"
  by (rule nth_equalityI)
     (simp_all add: slots_def demo_def demo_img_def dirent.length_enc rd_wr_other rd_zero dec_zero)

lemma demo_ent_simps [simp]:
  "inum_of DOT = 1" "inum_of DOTDOT = 1" "inum_of F_ENT = 2" "inum_of NO_ENT = 0"
  "\<not> no_name DOT" "\<not> no_name DOTDOT" "\<not> no_name F_ENT" "no_name NO_ENT"
  "is_dot DOT" "\<not> is_dot DOTDOT" "\<not> is_dot F_ENT" "\<not> is_dotdot DOT" "is_dotdot DOTDOT" "\<not> is_dotdot F_ENT"
  by (simp_all add: DOT_def DOTDOT_def F_ENT_def NO_ENT_def is_dot_def is_dotdot_def)

lemma demo_blocks [simp]: "blocks r free_d = []" "blocks r root_d = [5]" "blocks r file_d = [6]"
   "direct_blocks free_d = []" "direct_blocks root_d = [5]" "direct_blocks file_d = [6]"
  by (simp_all add: demo_def blocks_def direct_blocks_def indirect_blocks_def int_of_u32_def)

lemma demo_inodes: "inodes demo = [free_d, root_d, file_d]" "numInodes demo = 3" "imageSize demo = 8" "numDataBlocks demo = 3" 
   "beginDataBlocksAddr demo = 5" "dataBitmap demo = 127 # replicate 511 0"
  by (simp_all add: demo_def)

lemma demo_listing: "listing demo r root_d = [DOT, DOTDOT, F_ENT]" "all_slots demo root_d = DOT # DOTDOT # F_ENT # replicate 29 NO_ENT"
  by (simp_all add: listing_def all_slots_def live_def demo_slots)

lemma demo_setup: "setup_ok demo"
  unfolding setup_ok_def layout_ok_def slots_valid_def demo_inodes
  by (simp add: demo_listing dinode_valid_def) (simp add: demo_def)

lemma demo_table: "inode_table demo = [(0, free_d), (1, root_d), (2, file_d)]"
  by (simp add: inode_table_def demo_inodes numeral_2_eq_2)

lemma demo_dir_at: "dir_at demo i \<longleftrightarrow> i = 1"
  by (cases "i = 0 \<or> i = 1 \<or> i = 2") (auto simp: dir_at_def getInode_def demo_inodes split: option.splits)

lemma demo_getInode: "getInode demo 1 = Some root_d"
  by (simp add: getInode_def demo_inodes)

lemma demo_subdir: "\<not> subdir demo r i j"
proof 
  assume "subdir demo r i j"
  then obtain d e where d: "getInode demo i = Some d" "e \<in> set (listing demo r d)" "dir_at demo (inum_of e)" "\<not> is_dot e" "\<not> is_dotdot e"
    by (auto simp: subdir_def subdir_entry_def)
  then have "0 \<le> i" "i < 3" by (auto simp: getInode_def demo_inodes split: if_splits)
  then consider "i = 0" | "i = 1" | "i = 2" by linarith
  then show False
  proof cases
    case 2 then show ?thesis using d by (auto simp: demo_getInode demo_listing demo_dir_at)
  qed (use d in \<open>auto simp: getInode_def demo_inodes listing_def live_def demo_slots6\<close>)
qed

lemma demo_addrs: "addrs_ok demo"
  by (simp add: addrs_ok_def demo_inodes addr_ok_def)

lemma demo_dir_table: "dir_table demo = [(1, root_d)]"
  by (simp add: dir_table_def demo_table)

lemma demo_refs: "refs demo = [DOT, DOTDOT, F_ENT]"
  by (simp add: refs_def demo_dir_table demo_listing)

lemma demo_parent: "parent_ok demo 1 root_d"
  by (simp add: parent_ok_def direct_listing_def entries_def demo_slots demo_dir_at demo_inodes)

lemma demo_named: "named_dirs demo = []"
  by (simp add: named_dirs_def demo_dir_table demo_listing counted_def demo_dir_at)

lemma demo_walk: "(subdir demo r)\<^sup>*\<^sup>* i j \<longleftrightarrow> j = i" "\<not> (subdir demo r)\<^sup>+\<^sup>+ i j"
  using demo_subdir by (auto elim: converse_rtranclpE simp: tranclp_unfold_left)

lemma demo_formatted: "well_formatted demo 1" "refers_to_used demo 1"
  by (auto simp: well_formatted_def refers_to_used_def demo_getInode demo_listing demo_dir_at demo_inodes used_at_def 
    used_inode_def getInode_def)

lemma demo_bitmap: "bitmap_ok demo"
proof -
  have r: "{5..<5 + 3} = {5, 6, 7::int}" by auto
  show ?thesis
  unfolding bitmap_ok_def demo_inodes r
  by (simp add: marked_def demo_inodes uses_def bit_numeral_rec)
qed

lemma demo_consistent: "consistent demo"
  unfolding consistent_def tree_ok_def links_ok_def demo_table demo_walk demo_inodes
  using demo_addrs demo_bitmap demo_parent demo_formatted demo_named
  by (simp add: root_ok_def demo_dir_at demo_inodes demo_slots demo_refs int_of_u32_def used_inode_def ref_count_def demo_walk(2))
text \<open>The same image with an entry of the root directory that names the root directory again.\<close>

definition LOOP_ENT :: dirent where "LOOP_ENT = \<lparr>de_inum = 1, de_name = 102 # replicate 13 0\<rparr>"

definition demo_loop :: fsck where
  "demo_loop = demo\<lparr>img := wr demo_img 2592 (enc_dirent LOOP_ENT)\<rparr>"

lemma demo_loop_simps:
  "getInode demo_loop = getInode demo" "dir_at demo_loop = dir_at demo" "layout_ok demo_loop" "addrs_ok demo_loop"
  using demo_setup demo_addrs
  by (auto simp: demo_loop_def getInode_def dir_at_def setup_ok_def layout_ok_def addrs_ok_def addr_ok_def fun_eq_iff)

lemma first_three: "3 \<le> length xs \<Longrightarrow> xs = xs ! 0 # xs ! 1 # xs ! 2 # drop 3 xs"
  by (cases xs; cases "tl xs"; cases "tl (tl xs)") (auto simp: numeral_3_eq_3)

lemma demo_loop_subdir: "subdir demo_loop False 1 1"
proof -
  have e: "dirent_valid LOOP_ENT" by (simp add: LOOP_ENT_def dirent_valid_def)
  then have "slots demo_loop 5 ! 0 = DOT \<and> slots demo_loop 5 ! 1 = DOTDOT \<and> slots demo_loop 5 ! 2 = LOOP_ENT"
    by (simp add: slots_def demo_loop_def demo_img_def rd_wr_other rd_wr_same dirent.length_enc dirent.dec_enc)
  moreover have "slots demo_loop 5 = slots demo_loop 5 ! 0 # slots demo_loop 5 ! 1 # slots demo_loop 5 ! 2 # drop 3 (slots demo_loop 5)"
    by (rule first_three) (simp add: slots_def)
  ultimately obtain xs where "slots demo_loop 5 = DOT # DOTDOT # LOOP_ENT # xs" by metis
  moreover have "\<not> no_name LOOP_ENT" "\<not> is_dot LOOP_ENT" "\<not> is_dotdot LOOP_ENT" "inum_of LOOP_ENT = 1"
    by (simp_all add: LOOP_ENT_def is_dot_def is_dotdot_def)
  ultimately show ?thesis
    unfolding subdir_def
    by (intro exI [of _ root_d] exI [of _ LOOP_ENT])
       (simp add: demo_loop_simps demo_getInode listing_def live_def subdir_entry_def demo_dir_at)
qed

section \<open>Properties\<close>



text \<open>C0. No block twice: \<open>addressUsedMoreThanOnce\<close> passes exactly when the blocks of all inodes, the free ones included, are
  pairwise different, and stops with its message otherwise. The blocks of an inode are its direct ones that are not 0 and the run from the
  indirect block on that has room for the complete blocks of the file past the twelfth; a last partial block is not counted.\<close>

theorem address_once_exact:
  assumes "layout_ok st" and "addrs_ok st" and "imageSize st \<le> int (length (inodeHashMap st))"
    and "\<forall>b<nat (imageSize st). inodeHashMap st ! b = 0"
  shows "if distinct (concat (map (blocks False) (inodes st))) then \<exists>hm. addressUsedMoreThanOnce st = Ret hm
         else addressUsedMoreThanOnce st = Halt ERR_TWICE"
  using addressUsedMoreThanOnce_eq [OF assms] by (cases "distinct (concat (map (blocks False) (inodes st)))") simp_all

theorem address_once_exact_witness:
  "layout_ok demo \<and> addrs_ok demo \<and> (\<exists>hm. addressUsedMoreThanOnce demo = Ret hm)"
  using address_once_exact [OF setup_okD(1) [OF demo_setup] demo_addrs setup_ok_bounds(3) [OF demo_setup] setup_okD(5) [OF demo_setup]]
    setup_okD(1) [OF demo_setup] demo_addrs by (simp add: demo_inodes)

text \<open>C0. The two bitmap checks: \<open>addressUsedByInodeButMarkedFreeInBitmap\<close> passes exactly when every direct block and every block of the
  run from the indirect block on, a last partial block not counted, is marked; \<open>bitmapMarksBlockInUseButItIsNotInUse\<close> exactly when every marked
  data block is a direct block or in the run of an inode, a last partial block counted. Each stops with its own message otherwise. Both take the
  run to follow the indirect block on the disk; the addresses stored in the indirect block play no part.\<close>

theorem bitmap_checks_exact:
  assumes "layout_ok st" and "addrs_ok st" and "0 \<le> numDataBlocks st" and "numDataBlocks st + beginDataBlocksAddr st < 2 ^ 31"
  shows "addressUsedByInodeButMarkedFreeInBitmap st =
      (if \<forall>d\<in>set (inodes st). \<forall>b\<in>set (blocks False d). marked st b then Ret () else Halt ERR_MARKED_FREE) \<and>
    bitmapMarksBlockInUseButItIsNotInUse st =
      (if \<forall>y\<in>{beginDataBlocksAddr st..<beginDataBlocksAddr st + numDataBlocks st}.
          marked st y \<longrightarrow> (\<exists>d\<in>set (inodes st). uses d y) then Ret () else Halt ERR_BITMAP_USED)"
  using addressUsedByInodeButMarkedFreeInBitmap_eq bitmapMarksBlockInUseButItIsNotInUse_eq assms by blast

theorem bitmap_checks_exact_witness:
  "layout_ok demo \<and> addrs_ok demo \<and> addressUsedByInodeButMarkedFreeInBitmap demo = Ret () \<and>
   bitmapMarksBlockInUseButItIsNotInUse demo = Ret ()"
  using bitmap_checks_exact [OF setup_okD(1) [OF demo_setup] demo_addrs setup_ok_bounds(1,2) [OF demo_setup]]
    demo_bitmap setup_okD(1) [OF demo_setup] demo_addrs by (simp add: bitmap_ok_def)

text \<open>C0. Inode types and addresses: \<open>badInode\<close> and \<open>badAddressInInode\<close> pass exactly when every inode has a
  known type (free, directory, file, device) and the addresses in each inode that are not 0, and the last block of the run from the
  indirect block on (as many blocks as the file has past the twelfth, a partial one counted), lie between the first data block and the end of the image.
  The addresses stored in the indirect block are not examined.\<close>

theorem inode_checks_exact:
  assumes "layout_ok st"
  shows "badInode st = (if \<forall>d\<in>set (inodes st). di_type d \<in> {0, T_DIR, T_FILE, T_DEV} then Ret () else Halt ERR_BAD_INODE) \<and>
    badAddressInInode st = (if addrs_ok st then Ret () else Halt ERR_BAD_ADDR)"
  using badInode_eq badAddressInInode_eq assms by blast

theorem inode_checks_exact_witness:
  "layout_ok demo \<and> badInode demo = Ret () \<and> badAddressInInode demo = Ret ()"
  using inode_checks_exact [OF setup_okD(1) [OF demo_setup]] setup_okD(1) [OF demo_setup] demo_addrs
  by (simp add: demo_inodes)

text \<open>C0. The two recursive checks, started at a directory: with a recursion depth above the number of inodes they
  pass exactly when every directory below has both \<open>.\<close> and \<open>..\<close> (respectively when every entry below refers to
  an inode in use) and no directory below is its own descendant.\<close>

theorem recursive_checks_exact:
  assumes "layout_ok st" and "addrs_ok st" and "numInodes st < int fuel"
  shows "((\<exists>p'. directoryNotProperlyFormatted st fuel i p = Ret p') \<longleftrightarrow>
      (\<forall>j. (subdir st False)\<^sup>*\<^sup>* i j \<longrightarrow> well_formatted st j \<and> \<not> (subdir st False)\<^sup>+\<^sup>+ j j)) \<and>
    ((\<exists>p'. inodeReferredToInDirectoryButMarkedFree st fuel i p = Ret p') \<longleftrightarrow>
      (\<forall>j. (subdir st True)\<^sup>*\<^sup>* i j \<longrightarrow> refers_to_used st j \<and> \<not> (subdir st True)\<^sup>+\<^sup>+ j j))"
  using directoryNotProperlyFormatted_iff inodeReferredToInDirectoryButMarkedFree_iff assms by blast

theorem recursive_checks_exact_witness:
  "layout_ok demo \<and> addrs_ok demo \<and> (\<exists>p'. directoryNotProperlyFormatted demo 4 1 0 = Ret p') \<and>
   (\<exists>p'. inodeReferredToInDirectoryButMarkedFree demo 4 1 0 = Ret p')"
  using recursive_checks_exact [OF setup_okD(1) [OF demo_setup] demo_addrs, of 4 1 0] demo_formatted
    setup_okD(1) [OF demo_setup] demo_addrs by (simp add: demo_walk demo_inodes)

text \<open>C0. A cycle of directories is fatal to both recursive checks: if a directory below \<open>i\<close> contains itself,
  directly or through others, neither check returns, whatever the recursion depth it is given.\<close>

theorem directory_cycle_never_returns:
  assumes "layout_ok st" and "addrs_ok st" and "(subdir st r)\<^sup>*\<^sup>* i j" and "(subdir st r)\<^sup>+\<^sup>+ j j"
  shows "if r then inodeReferredToInDirectoryButMarkedFree st fuel i p \<noteq> Ret p'
         else directoryNotProperlyFormatted st fuel i p \<noteq> Ret p'"
proof (cases r)
  case True
  then have "ref_walk st fuel i \<noteq> Ret ()" using ref_walk.cycle_never_passes assms(3,4) by auto
  then show ?thesis using True inodeReferredToInDirectoryButMarkedFree_walk [OF assms(1,2), of fuel i p] by auto
next
  case False
  then have "format_walk st fuel i \<noteq> Ret ()" using format_walk.cycle_never_passes assms(3,4) by auto
  then show ?thesis using False directoryNotProperlyFormatted_walk [OF assms(1,2), of fuel i p] by auto
qed

theorem directory_cycle_never_returns_witness:
  "subdir demo_loop False 1 1 \<and> directoryNotProperlyFormatted demo_loop 1000 1 0 \<noteq> Ret 3072"
  using directory_cycle_never_returns [OF demo_loop_simps(3,4), of False 1 1 1000 0 3072] demo_loop_subdir by auto





text \<open>C0. Directories named once: \<open>directoryAppearsMoreThanOnceInFileSystem\<close> passes exactly when no directory is
  named by two slots, \<open>.\<close> and \<open>..\<close> aside, and stops with its message otherwise.\<close>

theorem directory_once_exact:
  assumes "layout_ok st" and "addrs_ok st" and "slots_valid st"
  shows "if distinct (named_dirs st) then \<exists>p'. directoryAppearsMoreThanOnceInFileSystem st p = Ret p'
    else directoryAppearsMoreThanOnceInFileSystem st p = Halt ERR_DIR_TWICE"
  by (rule directoryAppearsMoreThanOnceInFileSystem_eq [OF assms])

theorem directory_once_exact_witness:
  "layout_ok demo \<and> addrs_ok demo \<and> slots_valid demo \<and> (\<exists>p'. directoryAppearsMoreThanOnceInFileSystem demo 0 = Ret p')"
  using directory_once_exact [OF setup_okD(1) [OF demo_setup] demo_addrs setup_okD(3) [OF demo_setup], of 0]
    setup_okD(1,3) [OF demo_setup] demo_addrs by (simp add: demo_named)

text \<open>C0. The work arrays of \<open>main\<close>: they have one entry per inode but one per block is cleared, so on every image with
  fewer inodes than blocks, the images \<open>mkfs\<close> makes among them, \<open>main\<close> writes outside its arrays before any check runs.\<close>

theorem work_array_overflow:
  assumes "524 \<le> len" and "sb = dec_superblock (rd content 512 12)"
    and "0 \<le> int_of_u32 (sb_ninodes sb)" and "int_of_u32 (sb_ninodes sb) < int_of_u32 (sb_size sb)"
  shows "fscheck_main fuel mem js (Some (content, len)) = Fault"
  by (rule main_overflow_eq [OF assms])

theorem work_array_overflow_witness:
  "fscheck_main 201 (\<lambda>_. 0) (\<lambda>_. 0)
     (Some (wr (\<lambda>_. 0) 512 (enc_superblock \<lparr>sb_size = 1024, sb_nblocks = 995, sb_ninodes = 200\<rparr>), 524288)) = Fault"
  using work_array_overflow [of 524288 "\<lparr>sb_size = 1024, sb_nblocks = 995, sb_ninodes = 200\<rparr>"
      "wr (\<lambda>_. 0) 512 (enc_superblock \<lparr>sb_size = 1024, sb_nblocks = 995, sb_ninodes = 200\<rparr>)" 201 "\<lambda>_. 0" "\<lambda>_. 0"]
  by (simp add: superblock.get_put_same int_of_u32_def)

end
