(* ===== verification/Kernel_Monad.thy ===== *)
theory Kernel_Monad
  imports Xv6_Prelude
begin

text \<open>
  Kernel code that works on a state: a computation maps the state to a result and a new state, or
  panics (\<open>Halt\<close>), or sleeps for good (\<open>NoRet\<close>), or does something undefined (\<open>Fault\<close>).
  \<open>run m s P\<close> says that from \<open>s\<close> the computation returns, and that \<open>P\<close> holds of what it returns.
\<close>

type_synonym ('s, 'a) km = "'s \<Rightarrow> ('a \<times> 's) res"

named_theorems km_simps "unfolding computations"

definition ret :: "'a \<Rightarrow> ('s, 'a) km" where
  "ret a = (\<lambda>s. Ret (a, s))"

definition bnd :: "('s, 'a) km \<Rightarrow> ('a \<Rightarrow> ('s, 'b) km) \<Rightarrow> ('s, 'b) km" where
  "bnd m f = (\<lambda>s. rbind (m s) (\<lambda>(a, s'). f a s'))"

definition panic :: "string \<Rightarrow> ('s, 'a) km" where
  "panic msg = (\<lambda>s. Halt msg)"

definition sleep_forever :: "('s, 'a) km" where
  "sleep_forever = (\<lambda>s. NoRet)"

definition fault :: "('s, 'a) km" where
  "fault = (\<lambda>s. Fault)"

definition gets :: "('s \<Rightarrow> 'a) \<Rightarrow> ('s, 'a) km" where
  "gets f = (\<lambda>s. Ret (f s, s))"

definition modify :: "('s \<Rightarrow> 's) \<Rightarrow> ('s, unit) km" where
  "modify f = (\<lambda>s. Ret ((), f s))"

abbreviation seq :: "('s, 'a) km \<Rightarrow> ('s, 'b) km \<Rightarrow> ('s, 'b) km" where
  "seq m n \<equiv> bnd m (\<lambda>_. n)"

definition guarded :: "bool \<Rightarrow> ('s, unit) km \<Rightarrow> ('s, unit) km" where
  "guarded b m = (if b then m else ret ())"

lemma bnd_apply: "bnd m f s = (case m s of Ret (a, s') \<Rightarrow> f a s' | Halt e \<Rightarrow> Halt e | Fault \<Rightarrow> Fault | NoRet \<Rightarrow> NoRet)"
  by (cases "m s") (auto simp: bnd_def)

lemma km_apply [simp, km_simps]:
  "ret a s = Ret (a, s)" "panic msg s = Halt msg" "sleep_forever s = NoRet" "fault s = Fault"
  "gets f s = Ret (f s, s)" "modify g s = Ret ((), g s)"
  by (simp_all add: ret_def panic_def sleep_forever_def fault_def gets_def modify_def)

lemma bnd_step [simp]:
  "m s = Ret (a, s') \<Longrightarrow> bnd m f s = f a s'" "m s = Halt e \<Longrightarrow> bnd m f s = Halt e"
  "m s = Fault \<Longrightarrow> bnd m f s = Fault" "m s = NoRet \<Longrightarrow> bnd m f s = NoRet"
  by (simp_all add: bnd_def)

lemma bnd_assoc [km_simps]: "bnd (bnd m f) g = bnd m (\<lambda>a. bnd (f a) g)"
  by (rule ext) (auto simp: bnd_apply split: res.splits prod.splits)

lemma bnd_ret [simp]: "bnd (ret a) f = f a" "bnd m ret = m"
  by (rule ext; auto simp: bnd_apply split: res.splits prod.splits)+

lemma bnd_eq_Ret: "bnd m f s = Ret r \<longleftrightarrow> (\<exists>a s'. m s = Ret (a, s') \<and> f a s' = Ret r)"
  by (auto simp: bnd_apply split: res.splits prod.splits)

section \<open>Returning with a property\<close>

definition run :: "('s, 'a) km \<Rightarrow> 's \<Rightarrow> ('a \<Rightarrow> 's \<Rightarrow> bool) \<Rightarrow> bool" where
  "run m s P \<longleftrightarrow> (\<exists>a s'. m s = Ret (a, s') \<and> P a s')"

lemma runI: "m s = Ret (a, s') \<Longrightarrow> P a s' \<Longrightarrow> run m s P"
  by (auto simp: run_def)

lemma runE: "run m s P \<Longrightarrow> (\<And>a s'. m s = Ret (a, s') \<Longrightarrow> P a s' \<Longrightarrow> thesis) \<Longrightarrow> thesis"
  by (auto simp: run_def)

lemma run_bnd: "run m s P \<Longrightarrow> (\<And>a s'. P a s' \<Longrightarrow> run (f a) s' Q) \<Longrightarrow> run (bnd m f) s Q"
  by (auto simp: run_def)

lemma run_weaken: "run m s P \<Longrightarrow> (\<And>a s'. P a s' \<Longrightarrow> Q a s') \<Longrightarrow> run m s Q"
  by (auto simp: run_def)

lemma run_bnd_iff: "run (bnd m f) s Q \<longleftrightarrow> run m s (\<lambda>a s'. run (f a) s' Q)"
  by (auto simp: run_def bnd_eq_Ret)

lemma run_simps [simp]:
  "run (ret a) s P \<longleftrightarrow> P a s" "run (gets f) s P \<longleftrightarrow> P (f s) s" "run (modify g) s U \<longleftrightarrow> U () (g s)"
  "\<not> run (panic msg) s P" "\<not> run sleep_forever s P" "\<not> run fault s P"
  by (auto simp: run_def)

lemma run_Ret [simp]: "run (\<lambda>s. Ret (a, s)) s P \<longleftrightarrow> P a s"
  by (simp add: run_def)

lemma run_conj: "run m s P \<Longrightarrow> run m s Q \<Longrightarrow> run m s (\<lambda>a s'. P a s' \<and> Q a s')"
  by (auto simp: run_def)

end
