(* ===== verification/Bio.thy ===== *)
theory Bio
  imports Kernel_Monad
begin

unbundle bit_operations_syntax

text \<open>
  The disk driver \<open>kernel/ide.c\<close> and the buffer cache \<open>kernel/bio.c\<close>. A buffer is named by its index in
  \<open>bcache.buf\<close>, and \<open>NBUF\<close> names \<open>bcache.head\<close>; the list through \<open>prev\<close> and \<open>next\<close> is kept as the code
  keeps it, link by link. The flag bits are three booleans. One thread of control runs: a wait for the disk is
  served by the disk's interrupts, a wait for a buffer someone else holds never ends. The drive answers with the
  sector its registers select; \<open>bad_sector\<close> says on which reads it reports an error.
\<close>

abbreviation NBUF :: nat where "NBUF \<equiv> 10"
abbreviation HEAD :: nat where "HEAD \<equiv> NBUF"

section \<open>State\<close>

record buf =
  b_busy :: bool
  b_valid :: bool
  b_dirty :: bool
  b_dev :: u32
  b_sector :: u32
  b_prev :: nat
  b_next :: nat
  b_data :: bytes

record ide_regs =
  r_lba0 :: u8
  r_lba1 :: u8
  r_lba2 :: u8
  r_drive :: u8

record bio =
  bcache :: "nat \<Rightarrow> buf"
  idequeue :: "nat list"
  havedisk1 :: bool
  ide_reg :: ide_regs
  disk :: "u32 \<Rightarrow> u32 \<Rightarrow> bytes"
  bad_sector :: "u32 \<Rightarrow> u32 \<Rightarrow> bool"

definition upd_buf :: "nat \<Rightarrow> (buf \<Rightarrow> buf) \<Rightarrow> 'a bio_scheme \<Rightarrow> 'a bio_scheme" where
  "upd_buf i f s = s\<lparr>bcache := (bcache s)(i := f (bcache s i))\<rparr>"

section \<open>The disk driver\<close>

text \<open>The drive and the sector the registers select: bit 4 of the drive register, and 28 address bits.\<close>

definition drive_of :: "ide_regs \<Rightarrow> u32" where
  "drive_of r = ucast (drop_bit 4 (r_drive r) AND 1)"

definition lba_of :: "ide_regs \<Rightarrow> u32" where
  "lba_of r = ucast (r_lba0 r) OR push_bit 8 (ucast (r_lba1 r)) OR push_bit 16 (ucast (r_lba2 r)) OR
     push_bit 24 (ucast (r_drive r AND 0x0f))"

definition regs_for :: "u32 \<Rightarrow> u32 \<Rightarrow> ide_regs" where
  "regs_for dev sector = \<lparr>r_lba0 = ucast (sector AND 0xff), r_lba1 = ucast (drop_bit 8 sector AND 0xff),
     r_lba2 = ucast (drop_bit 16 sector AND 0xff),
     r_drive = ucast (0xe0 OR push_bit 4 (dev AND 1) OR (drop_bit 24 sector AND 0x0f))\<rparr>"

definition idestart :: "nat \<Rightarrow> 'a bio_scheme \<Rightarrow> 'a bio_scheme" where
  "idestart b s = (let bf = bcache s b; r = regs_for (b_dev bf) (b_sector bf) in
     if b_dirty bf then s\<lparr>ide_reg := r, disk := (disk s)(drive_of r := (disk s (drive_of r))(lba_of r := b_data bf))\<rparr>
     else s\<lparr>ide_reg := r\<rparr>)"

definition ideintr :: "'a bio_scheme \<Rightarrow> 'a bio_scheme" where
  "ideintr s = (case idequeue s of
      [] \<Rightarrow> s
    | b # q \<Rightarrow>
        let s = s\<lparr>idequeue := q\<rparr>; r = ide_reg s;
            s = (if \<not> b_dirty (bcache s b) \<and> \<not> bad_sector s (drive_of r) (lba_of r)
                 then upd_buf b (\<lambda>x. x\<lparr>b_data := disk s (drive_of r) (lba_of r)\<rparr>) s else s);
            s = upd_buf b (\<lambda>x. x\<lparr>b_valid := True, b_dirty := False\<rparr>) s
        in case idequeue s of [] \<Rightarrow> s | b' # _ \<Rightarrow> idestart b' s)"

text \<open>The wait in \<open>iderw\<close>: one interrupt after another until the request is done.\<close>

lemma idequeue_start [simp]: "idequeue (idestart b s) = idequeue s" "idequeue (upd_buf b f s) = idequeue s"
  by (simp_all add: idestart_def upd_buf_def Let_def)

lemma length_ideintr: "idequeue s \<noteq> [] \<Longrightarrow> length (idequeue (ideintr s)) < length (idequeue s)"
  by (cases "idequeue s") (auto simp: ideintr_def Let_def split: list.splits)

function ide_await :: "nat \<Rightarrow> ('a bio_scheme, unit) km" where
  "ide_await b s =
     (if b_valid (bcache s b) \<and> \<not> b_dirty (bcache s b) then Ret ((), s)
      else if idequeue s = [] then NoRet
      else ide_await b (ideintr s))"
  by auto
termination by (relation "measure (\<lambda>(b, s). length (idequeue s))") (auto simp: length_ideintr)

declare ide_await.simps [simp del]

definition iderw :: "nat \<Rightarrow> ('a bio_scheme, unit) km" where
  "iderw b = (\<lambda>s. let bf = bcache s b in
     if \<not> b_busy bf then Halt ''iderw: buf not busy''
     else if b_valid bf \<and> \<not> b_dirty bf then Halt ''iderw: nothing to do''
     else if b_dev bf \<noteq> 0 \<and> \<not> havedisk1 s then Halt ''iderw: ide disk 1 not present''
     else
       let s = s\<lparr>idequeue := idequeue s @ [b]\<rparr>;
           s = (if hd (idequeue s) = b then idestart b s else s)
       in ide_await b s)"

section \<open>The buffer cache\<close>

definition link_front :: "nat \<Rightarrow> (nat \<Rightarrow> buf) \<Rightarrow> nat \<Rightarrow> buf" where
  "link_front b c =
     (let f = b_next (c HEAD);
          c = c(b := (c b)\<lparr>b_next := f, b_prev := HEAD\<rparr>);
          c = c(f := (c f)\<lparr>b_prev := b\<rparr>)
      in c(HEAD := (c HEAD)\<lparr>b_next := b\<rparr>))"

definition unlink_buf :: "nat \<Rightarrow> (nat \<Rightarrow> buf) \<Rightarrow> nat \<Rightarrow> buf" where
  "unlink_buf b c =
     (let c = c(b_next (c b) := (c (b_next (c b)))\<lparr>b_prev := b_prev (c b)\<rparr>)
      in c(b_prev (c b) := (c (b_prev (c b)))\<lparr>b_next := b_next (c b)\<rparr>))"

definition binit :: "('a bio_scheme, unit) km" where
  "binit = modify (\<lambda>s.
     let c = (bcache s)(HEAD := (bcache s HEAD)\<lparr>b_prev := HEAD, b_next := HEAD\<rparr>)
     in s\<lparr>bcache := fold (\<lambda>b c. link_front b (c(b := (c b)\<lparr>b_dev := -1\<rparr>))) [0..<NBUF] c\<rparr>)"

text \<open>A walk along the list, at most \<open>n\<close> links; it ends at the head.\<close>

fun walk :: "(nat \<Rightarrow> nat) \<Rightarrow> (nat \<Rightarrow> bool) \<Rightarrow> nat \<Rightarrow> nat \<Rightarrow> nat option res" where
  "walk link P 0 b = NoRet"
| "walk link P (Suc n) b = (if b = HEAD then Ret None else if P b then Ret (Some b) else walk link P n (link b))"

definition bget :: "u32 \<Rightarrow> u32 \<Rightarrow> ('a bio_scheme, nat) km" where
  "bget dev sector = (\<lambda>s. let c = bcache s in
     rbind (walk (\<lambda>b. b_next (c b)) (\<lambda>b. b_dev (c b) = dev \<and> b_sector (c b) = sector) (Suc NBUF) (b_next (c HEAD))) (\<lambda>r. case r of
       Some b \<Rightarrow>
         if \<not> b_busy (c b) then Ret (b, upd_buf b (\<lambda>x. x\<lparr>b_busy := True\<rparr>) s) else NoRet
     | None \<Rightarrow>
         rbind (walk (\<lambda>b. b_prev (c b)) (\<lambda>b. \<not> b_busy (c b)) (Suc NBUF) (b_prev (c HEAD))) (\<lambda>r. case r of
           Some b \<Rightarrow>
             Ret (b, upd_buf b (\<lambda>x. x\<lparr>b_dev := dev, b_sector := sector, b_busy := True, b_valid := False, b_dirty := False\<rparr>) s)
         | None \<Rightarrow> Halt ''bget: no buffers'')))"

definition bread :: "u32 \<Rightarrow> u32 \<Rightarrow> ('a bio_scheme, nat) km" where
  "bread dev sector =
     bnd (bget dev sector) (\<lambda>b.
     bnd (gets (\<lambda>s. b_valid (bcache s b))) (\<lambda>valid.
     seq (if \<not> valid then iderw b else ret ())
     (ret b)))"

definition bwrite :: "nat \<Rightarrow> ('a bio_scheme, unit) km" where
  "bwrite b =
     bnd (gets (\<lambda>s. b_busy (bcache s b))) (\<lambda>busy.
     if \<not> busy then panic ''bwrite''
     else seq (modify (upd_buf b (\<lambda>x. x\<lparr>b_dirty := True\<rparr>))) (iderw b))"

definition brelse :: "nat \<Rightarrow> ('a bio_scheme, unit) km" where
  "brelse b =
     bnd (gets (\<lambda>s. b_busy (bcache s b))) (\<lambda>busy.
     if \<not> busy then panic ''brelse''
     else modify (\<lambda>s.
       upd_buf b (\<lambda>x. x\<lparr>b_busy := False\<rparr>) (s\<lparr>bcache := link_front b (unlink_buf b (bcache s))\<rparr>)))"

text \<open>Changing a buffer's bytes in place, as the callers do through \<open>bp->data\<close>.\<close>

definition set_data :: "nat \<Rightarrow> (bytes \<Rightarrow> bytes) \<Rightarrow> ('a bio_scheme, unit) km" where
  "set_data b f = modify (upd_buf b (\<lambda>x. x\<lparr>b_data := f (b_data x)\<rparr>))"

definition buf_data :: "nat \<Rightarrow> ('a bio_scheme, bytes) km" where
  "buf_data b = gets (\<lambda>s. b_data (bcache s b))"

end
