(* ===== verification/Bio_Ring.thy ===== *)
theory Bio_Ring
  imports Bio
begin

text \<open>
  The doubly linked list of \<open>kernel/bio.c\<close> refines a list of buffers, most recently used first: \<open>ring c xs\<close>
  relates the links to the list. \<open>binit\<close> builds the list of all buffers, \<open>brelse\<close> moves a buffer to its
  front, and the two walks of \<open>bget\<close> are searches through the list and through its reverse.
\<close>

section \<open>Linked sequences\<close>

fun linked :: "(nat \<Rightarrow> nat) \<Rightarrow> (nat \<Rightarrow> nat) \<Rightarrow> nat list \<Rightarrow> bool" where
  "linked nx pv (a # b # ys) \<longleftrightarrow> nx a = b \<and> pv b = a \<and> linked nx pv (b # ys)"
| "linked nx pv _ \<longleftrightarrow> True"

lemma linked_append: "linked nx pv (xs @ y # ys) \<longleftrightarrow> linked nx pv (xs @ [y]) \<and> linked nx pv (y # ys)"
  by (induction nx pv xs rule: linked.induct) auto

lemma linked_cong:
  "(\<And>x. x \<in> set (butlast ys) \<Longrightarrow> nx x = nx' x) \<Longrightarrow> (\<And>x. x \<in> set (tl ys) \<Longrightarrow> pv x = pv' x) \<Longrightarrow>
    linked nx pv ys = linked nx' pv' ys"
proof (induction nx pv ys rule: linked.induct)
  case (1 nx pv a b ys)
  have "linked nx pv (b # ys) = linked nx' pv' (b # ys)"
    using 1(2,3) by (intro 1(1)) (auto split: if_splits dest: in_set_butlastD list.set_sel(2) [rotated])
  then show ?case using 1(2) [of a] 1(3) [of b] by auto
qed auto

lemma linked_nth:
  assumes "linked nx pv (us @ a # b # vs)"
  shows "nx a = b" "pv b = a"
  using assms linked_append [of nx pv us a "b # vs"] by auto

text \<open>Taking \<open>b\<close> out and putting it in front of everything after \<open>h\<close>.\<close>

lemma linked_unlink:
  assumes l: "linked nx pv (h # us @ b # vs @ [h])" and d: "distinct (h # us @ b # vs)"
  shows "linked (nx(pv b := nx b)) (pv(nx b := pv b)) (h # us @ vs @ [h])"
proof -
  obtain us' a where us: "h # us = us' @ [a]" by (metis append_butlast_last_id list.discI)
  obtain e vs' where vs: "vs @ [h] = e # vs'" by (cases vs) auto
  have all: "linked nx pv (us' @ a # b # e # vs')" using l us vs by (metis append.assoc append_Cons append_Nil)
  then have ab: "pv b = a" "nx b = e" using linked_nth [of nx pv us' a b "e # vs'"] linked_nth [of nx pv "us' @ [a]" b e vs'] by auto
  have parts: "linked nx pv (us' @ [a])" "linked nx pv (e # vs')"
    using all linked_append [of nx pv us' a "b # e # vs'"] by simp_all
  have da: "distinct (us' @ [a])" using d by (simp flip: us)
  have set_a: "set us' \<union> {a} = insert h (set us)" using us by (metis Un_insert_right list.set(2) set_append sup_bot_right list.set(1))
  have "linked (nx(a := e)) (pv(e := a)) (us' @ [a])"
  proof (rule linked_cong [THEN iffD1, OF _ _ parts(1)])
    fix x assume "x \<in> set (butlast (us' @ [a]))"
    then show "nx x = (nx(a := e)) x" using da by auto
  next
    fix x assume x: "x \<in> set (tl (us' @ [a]))"
    then have "x \<in> set us" using us by (metis list.sel(3))
    moreover have "e \<in> insert h (set vs)" using vs by (cases vs) auto
    ultimately show "pv x = (pv(e := a)) x" using d by auto
  qed
  moreover have "linked (nx(a := e)) (pv(e := a)) (e # vs')"
  proof (rule linked_cong [THEN iffD1, OF _ _ parts(2)])
    fix x assume "x \<in> set (butlast (e # vs'))"
    then have "x \<in> set vs" using vs by (metis butlast_snoc)
    then show "nx x = (nx(a := e)) x" using d set_a by auto
  next
    fix x assume "x \<in> set (tl (e # vs'))"
    then have "x \<noteq> e" using d vs by (cases vs) auto
    then show "pv x = (pv(e := a)) x" by simp
  qed
  ultimately have "linked (nx(a := e)) (pv(e := a)) ((us' @ [a]) @ e # vs')"
    using linked_append [of _ _ us' a "e # vs'"] by simp
  moreover have "(us' @ [a]) @ e # vs' = h # us @ vs @ [h]" using us vs by (metis append_Cons)
  ultimately show ?thesis by (simp add: ab)
qed

lemma linked_front:
  assumes l: "linked nx pv (h # xs @ [h])" and d: "distinct (h # xs)" and b: "b \<noteq> h" "b \<notin> set xs"
  shows "linked (nx(b := nx h, h := b)) (pv(b := h, nx h := b)) (h # b # xs @ [h])"
proof -
  obtain f ys where f: "xs @ [h] = f # ys" by (cases xs) auto
  have h: "nx h = f" using l f by simp
  have fb: "f \<noteq> b" using f b by (cases xs) auto
  have "linked nx pv (f # ys)" using l f by simp
  moreover have "linked nx pv (f # ys) = linked (nx(b := f, h := b)) (pv(b := h, f := b)) (f # ys)"
  proof (rule linked_cong)
    fix x assume "x \<in> set (butlast (f # ys))"
    then have "x \<in> set xs" using f by (metis butlast_snoc)
    then show "nx x = (nx(b := f, h := b)) x" using b d by auto
  next
    fix x assume x: "x \<in> set (tl (f # ys))"
    then have "x \<noteq> b" "x \<noteq> f" using b d f by (cases xs; auto)+
    then show "pv x = (pv(b := h, f := b)) x" by simp
  qed
  ultimately show ?thesis using f fb b by (simp add: h)
qed

lemma walk_linked:
  assumes "linked nx pv (a # xs @ [HEAD])" and "HEAD \<notin> set xs" and "length xs < n"
  shows "walk nx P n (nx a) = Ret (find P xs)"
  using assms
proof (induction xs arbitrary: a n)
  case Nil
  then show ?case by (cases n) auto
next
  case (Cons x xs)
  then show ?case by (cases n) auto
qed

lemma linked_rev: "linked nx pv (rev xs) = linked pv nx xs"
proof (induction nx pv xs rule: linked.induct)
  case (1 nx pv a b ys)
  have "linked nx pv (rev (a # b # ys)) = linked nx pv (rev ys @ b # [a])" by simp
  also have "\<dots> \<longleftrightarrow> linked nx pv (rev ys @ [b]) \<and> linked nx pv [b, a]" by (rule linked_append)
  finally show ?case using 1 by auto
qed auto

section \<open>The ring of buffers\<close>

definition ring :: "(nat \<Rightarrow> buf) \<Rightarrow> nat list \<Rightarrow> bool" where
  "ring c xs \<longleftrightarrow> linked (\<lambda>b. b_next (c b)) (\<lambda>b. b_prev (c b)) (HEAD # xs @ [HEAD]) \<and> distinct (HEAD # xs)"

lemma ring_cong:
  "(\<And>b. b_next (c b) = b_next (c' b)) \<Longrightarrow> (\<And>b. b_prev (c b) = b_prev (c' b)) \<Longrightarrow> ring c xs = ring c' xs"
  by (simp add: ring_def)

lemma ring_walk:
  assumes "ring c xs" and "length xs \<le> NBUF"
  shows "walk (\<lambda>b. b_next (c b)) P (Suc NBUF) (b_next (c HEAD)) = Ret (find P xs)"
    and "walk (\<lambda>b. b_prev (c b)) P (Suc NBUF) (b_prev (c HEAD)) = Ret (find P (rev xs))"
proof -
  show "walk (\<lambda>b. b_next (c b)) P (Suc NBUF) (b_next (c HEAD)) = Ret (find P xs)"
    using assms by (intro walk_linked) (auto simp: ring_def)
  have "linked (\<lambda>b. b_prev (c b)) (\<lambda>b. b_next (c b)) (HEAD # rev xs @ [HEAD])"
    using assms(1) linked_rev [of "\<lambda>b. b_prev (c b)" "\<lambda>b. b_next (c b)" "HEAD # xs @ [HEAD]"] by (simp add: ring_def)
  then show "walk (\<lambda>b. b_prev (c b)) P (Suc NBUF) (b_prev (c HEAD)) = Ret (find P (rev xs))"
    using assms by (intro walk_linked) (auto simp: ring_def)
qed

lemma links_link_front:
  assumes "b \<noteq> HEAD" and "b_next (c HEAD) \<noteq> b"
  shows "(\<lambda>x. b_next (link_front b c x)) = (\<lambda>x. b_next (c x))(b := b_next (c HEAD), HEAD := b)"
    and "(\<lambda>x. b_prev (link_front b c x)) = (\<lambda>x. b_prev (c x))(b := HEAD, b_next (c HEAD) := b)"
  using assms by (auto simp: link_front_def fun_eq_iff Let_def)

lemma links_unlink_buf:
  assumes "b_next (c b) \<noteq> b" and "b_prev (c b) \<noteq> b"
  shows "(\<lambda>x. b_next (unlink_buf b c x)) = (\<lambda>x. b_next (c x))(b_prev (c b) := b_next (c b))"
    and "(\<lambda>x. b_prev (unlink_buf b c x)) = (\<lambda>x. b_prev (c x))(b_next (c b) := b_prev (c b))"
  using assms by (auto simp: unlink_buf_def fun_eq_iff Let_def)

lemma ring_link_front:
  assumes "ring c xs" and "b \<noteq> HEAD" and "b \<notin> set xs"
  shows "ring (link_front b c) (b # xs)"
proof -
  have "b_next (c HEAD) \<noteq> b" using assms by (cases xs) (auto simp: ring_def)
  then show ?thesis using linked_front [of "\<lambda>b. b_next (c b)" "\<lambda>b. b_prev (c b)" HEAD xs b] assms
    by (simp add: ring_def links_link_front fun_upd_def)
qed

lemma ring_unlink:
  assumes r: "ring c xs" and b: "b \<in> set xs"
  shows "ring (unlink_buf b c) (remove1 b xs)"
proof -
  obtain us vs where xs: "xs = us @ b # vs" "b \<notin> set us" using b by (meson split_list_first)
  have l: "linked (\<lambda>b. b_next (c b)) (\<lambda>b. b_prev (c b)) (HEAD # us @ b # vs @ [HEAD])" and d: "distinct (HEAD # us @ b # vs)"
    using r xs by (simp_all add: ring_def)
  obtain us' a where us: "HEAD # us = us' @ [a]" by (metis append_butlast_last_id list.discI)
  obtain e vs' where vs: "vs @ [HEAD] = e # vs'" by (cases vs) auto
  have "linked (\<lambda>b. b_next (c b)) (\<lambda>b. b_prev (c b)) (us' @ a # b # e # vs')"
    using l us vs by (metis append.assoc append_Cons append_Nil)
  then have ab: "b_prev (c b) = a" "b_next (c b) = e"
    using linked_nth [of _ _ us' a b "e # vs'"] linked_nth [of _ _ "us' @ [a]" b e vs'] by auto
  have "a \<noteq> b" "e \<noteq> b"
  proof -
    have "a \<in> set (HEAD # us)" using us by (metis in_set_conv_decomp)
    then show "a \<noteq> b" using d by auto
    show "e \<noteq> b" using d vs by (cases vs) auto
  qed
  then show ?thesis
    using linked_unlink [OF l d] d ab
    by (simp add: ring_def links_unlink_buf xs remove1_append fun_upd_def)
qed

lemma other_fields:
  "b_data (link_front b c x) = b_data (c x)" "b_dev (link_front b c x) = b_dev (c x)"
  "b_sector (link_front b c x) = b_sector (c x)" "b_busy (link_front b c x) = b_busy (c x)"
  "b_valid (link_front b c x) = b_valid (c x)" "b_dirty (link_front b c x) = b_dirty (c x)"
  "b_data (unlink_buf b c x) = b_data (c x)" "b_dev (unlink_buf b c x) = b_dev (c x)"
  "b_sector (unlink_buf b c x) = b_sector (c x)" "b_busy (unlink_buf b c x) = b_busy (c x)"
  "b_valid (unlink_buf b c x) = b_valid (c x)" "b_dirty (unlink_buf b c x) = b_dirty (c x)"
  by (simp_all add: link_front_def unlink_buf_def Let_def)

lemma ring_binit_fold:
  assumes "ring c xs" and "distinct bs" and "HEAD \<notin> set bs" and "set bs \<inter> set xs = {}"
  shows "ring (fold (\<lambda>b c. link_front b (c(b := (c b)\<lparr>b_dev := -1\<rparr>))) bs c) (rev bs @ xs)"
  using assms
proof (induction bs arbitrary: c xs)
  case (Cons b bs)
  have "ring (c(b := (c b)\<lparr>b_dev := -1\<rparr>)) xs"
    using Cons.prems(1) by (subst ring_cong [of _ c]) auto
  then have "ring (link_front b (c(b := (c b)\<lparr>b_dev := -1\<rparr>))) (b # xs)"
    using Cons.prems by (intro ring_link_front) auto
  from Cons.IH [OF this] show ?case using Cons.prems by (simp del: fun_upd_apply)
qed simp

lemma binit_ring: "run binit s (\<lambda>_ s'. ring (bcache s') (rev [0..<NBUF]))"
proof -
  have "ring ((bcache s)(HEAD := (bcache s HEAD)\<lparr>b_prev := HEAD, b_next := HEAD\<rparr>)) []"
    by (simp add: ring_def)
  from ring_binit_fold [OF this, of "[0..<NBUF]"] show ?thesis
    by (simp add: binit_def Let_def del: upt_rec_numeral)
qed

end
