(* ===== verification/Bio_Cache.thy ===== *)
theory Bio_Cache
  imports Bio_Ring
begin

text \<open>
  What the buffer cache promises its clients. \<open>cache_ok s H\<close> is the invariant, with \<open>H\<close> the buffers the
  clients hold. The locale \<open>buffer_cache\<close> is the contract \<open>kernel/fs.c\<close> relies on: \<open>bread\<close> gives a held
  buffer with the block's contents, \<open>bwrite\<close> makes the buffer's bytes the block's contents, \<open>brelse\<close> gives the buffer
  back; its lemmas are the ways \<open>kernel/fs.c\<close> uses a block. The interpretation on \<open>kernel/bio.c\<close> and
  \<open>kernel/ide.c\<close> is at the end.
\<close>

section \<open>The driver\<close>

lemma low_masks:
  "(x :: u32) AND 0xff = take_bit 8 x" "(x :: u32) AND 0x0f = take_bit 4 x" "(y :: u8) AND 0x0f = take_bit 4 y" "(x :: u32) AND 1 = take_bit 1 x"
  "(y :: u8) AND 1 = take_bit 1 y"
  by (simp_all add: take_bit_eq_mask mask_eq_exp_minus_1)

lemma drive_reg_bits: "take_bit 4 (ucast ((0xe0::u32) OR x OR y) :: u8) = take_bit 4 (ucast (x OR y))" 
   "take_bit 1 (drop_bit 4 (ucast ((0xe0::u32) OR x OR y) :: u8)) = take_bit 1 (drop_bit 4 (ucast (x OR y)))"
proof -
  have "ucast ((0xe0::u32) OR x OR y) = (ucast (0xe0::u32) :: u8) OR ucast (x OR y)" 
    by (rule bit_eqI) (auto simp: bit_simps)
  moreover have "take_bit 4 (ucast (0xe0::u32) :: u8) = 0" "take_bit 1 (drop_bit 4 (ucast (0xe0::u32) :: u8)) = 0" by simp_all
  ultimately show "take_bit 4 (ucast ((0xe0::u32) OR x OR y) :: u8) = take_bit 4 (ucast (x OR y))" 
   "take_bit 1 (drop_bit 4 (ucast ((0xe0::u32) OR x OR y) :: u8)) = take_bit 1 (drop_bit 4 (ucast (x OR y)))"
     by (simp_all only: take_bit_or drop_bit_or or.left_neutral)
qed

lemma drive_of_regs_for: "drive_of (regs_for dev sector) = dev AND 1"
  unfolding drive_of_def regs_for_def ide_regs.simps low_masks drive_reg_bits
  by (rule bit_eqI) (auto simp: bit_simps even_drop_bit_iff_not_bit)

lemma lba_of_regs_for: "lba_of (regs_for dev sector) = take_bit 28 sector"
  unfolding lba_of_def regs_for_def ide_regs.simps low_masks drive_reg_bits
  by (rule bit_eqI) (auto simp: bit_simps)

text \<open>A request to the idle driver is carried out before \<open>iderw\<close> returns.\<close>

lemma upd_buf_simps [simp]:
  "bcache (upd_buf b f s) = (bcache s)(b := f (bcache s b))" "disk (upd_buf b f s) = disk s"
  "havedisk1 (upd_buf b f s) = havedisk1 s" "bad_sector (upd_buf b f s) = bad_sector s"
  "ide_reg (upd_buf b f s) = ide_reg s" "bio.more (upd_buf b f s) = bio.more s"
  by (simp_all add: upd_buf_def)

lemma iderw_done:
  assumes "idequeue s = []" and "b_busy (bcache s b)" and "b_valid (bcache s b) \<longrightarrow> b_dirty (bcache s b)"
    and "b_dev (bcache s b) \<noteq> 0 \<longrightarrow> havedisk1 s"
  shows "iderw b s = Ret ((), ideintr (idestart b (s\<lparr>idequeue := [b]\<rparr>)))"
proof -
  let ?s = "idestart b (s\<lparr>idequeue := [b]\<rparr>)" let ?t = "ideintr ?s"
  have q: "idequeue ?s = [b]" by simp
  have bc: "bcache ?s = bcache s" by (simp add: idestart_def Let_def)
  have t: "b_valid (bcache ?t b)" "\<not> b_dirty (bcache ?t b)"
    using q by (simp_all add: ideintr_def Let_def)
  have "ide_await b ?s = ide_await b ?t"
    using assms(3) q by (subst ide_await.simps) (auto simp: bc)
  also have "\<dots> = Ret ((), ?t)" using t by (subst ide_await.simps) simp
  finally show ?thesis using assms by (auto simp: iderw_def Let_def)
qed

text \<open>Blocks the drive registers can name: two drives, 28 bits of sector number.\<close>

definition addressable :: "u32 \<times> u32 \<Rightarrow> bool" where
  "addressable k \<longleftrightarrow> fst k < 2 \<and> snd k < 2 ^ 28"

lemma addressable_regs:
  assumes "addressable (d, n)"
  shows "drive_of (regs_for d n) = d" "lba_of (regs_for d n) = n"
proof -
  have "d AND 1 = take_bit 1 d" by (rule low_masks)
  then show "drive_of (regs_for d n) = d" "lba_of (regs_for d n) = n"
    using assms by (auto simp: addressable_def drive_of_regs_for lba_of_regs_for take_bit_eq_mod mod_word_less)
qed

text \<open>The parts of the state a transfer leaves alone.\<close>

definition same_env :: "'a bio_scheme \<Rightarrow> 'a bio_scheme \<Rightarrow> bool" where
  "same_env s s' \<longleftrightarrow> idequeue s' = idequeue s \<and> havedisk1 s' = havedisk1 s \<and> bad_sector s' = bad_sector s \<and>
     bio.more s' = bio.more s"

lemma iderw_read:
  assumes "idequeue s = []" and "b_busy (bcache s b)" "\<not> b_valid (bcache s b)" "\<not> b_dirty (bcache s b)" and "havedisk1 s"
    and "\<And>d n. \<not> bad_sector s d n" and "addressable (b_dev (bcache s b), b_sector (bcache s b))"
  shows "run (iderw b) s (\<lambda>_ s'. same_env s s' \<and> disk s' = disk s \<and> bcache s' = (bcache s)(b := (bcache s b)
    \<lparr>b_data := disk s (b_dev (bcache s b)) (b_sector (bcache s b)), b_valid := True, b_dirty := False\<rparr>))"
proof -
  have "iderw b s = Ret ((), ideintr (idestart b (s\<lparr>idequeue := [b]\<rparr>)))"
    using assms by (intro iderw_done) auto
  then show ?thesis
    using assms(1,4,6) addressable_regs [OF assms(7)]
    by (simp add: run_def same_env_def idestart_def ideintr_def Let_def upd_buf_def)
qed

lemma iderw_write:
  assumes "idequeue s = []" and "b_busy (bcache s b)" and "b_dirty (bcache s b)" and "havedisk1 s"
    and "addressable (b_dev (bcache s b), b_sector (bcache s b))"
  shows "run (iderw b) s (\<lambda>_ s'. same_env s s' \<and> bcache s' = (bcache s)(b := (bcache s b)\<lparr>b_valid := True, b_dirty := False\<rparr>) \<and>
    disk s' = (disk s)(b_dev (bcache s b) := (disk s (b_dev (bcache s b)))(b_sector (bcache s b) := b_data (bcache s b))))"
proof -
  have "iderw b s = Ret ((), ideintr (idestart b (s\<lparr>idequeue := [b]\<rparr>)))"
    using assms by (intro iderw_done) auto
  then show ?thesis
    using assms(1,3) addressable_regs [OF assms(5)]
    by (simp add: run_def same_env_def idestart_def ideintr_def Let_def upd_buf_def)
qed

section \<open>The contract\<close>

locale buffer_cache =
  fixes bread :: "u32 \<Rightarrow> u32 \<Rightarrow> ('s, nat) km" and bwrite :: "nat \<Rightarrow> ('s, unit) km" and brelse :: "nat \<Rightarrow> ('s, unit) km"
    and set_data :: "nat \<Rightarrow> (bytes \<Rightarrow> bytes) \<Rightarrow> ('s, unit) km"
    and dat :: "'s \<Rightarrow> nat \<Rightarrow> bytes" and key :: "'s \<Rightarrow> nat \<Rightarrow> u32 \<times> u32"
    and blocks_of :: "'s \<Rightarrow> u32 \<times> u32 \<Rightarrow> bytes" and rest :: "'s \<Rightarrow> 'r" and ok :: "'s \<Rightarrow> nat set \<Rightarrow> bool"
  assumes bread_law: "ok s H \<Longrightarrow> addressable (d, n) \<Longrightarrow> (d, n) \<notin> key s ` H \<Longrightarrow> card H < NBUF \<Longrightarrow>
      run (bread d n) s (\<lambda>i s'. ok s' (insert i H) \<and> i \<notin> H \<and> key s' i = (d, n) \<and> dat s' i = blocks_of s (d, n) \<and>
        blocks_of s' = blocks_of s \<and> rest s' = rest s \<and> (\<forall>j\<in>H. key s' j = key s j \<and> dat s' j = dat s j))"
    and bwrite_law: "ok s H \<Longrightarrow> i \<in> H \<Longrightarrow>
      run (bwrite i) s (\<lambda>_ s'. ok s' H \<and> blocks_of s' = (blocks_of s)(key s i := dat s i) \<and> rest s' = rest s \<and>
        (\<forall>j\<in>H. key s' j = key s j \<and> dat s' j = dat s j))"
    and brelse_law: "ok s H \<Longrightarrow> i \<in> H \<Longrightarrow> dat s i = blocks_of s (key s i) \<Longrightarrow>
      run (brelse i) s (\<lambda>_ s'. ok s' (H - {i}) \<and> blocks_of s' = blocks_of s \<and> rest s' = rest s \<and>
        (\<forall>j\<in>H - {i}. key s' j = key s j \<and> dat s' j = dat s j))"
    and set_data_law: "ok s H \<Longrightarrow> i \<in> H \<Longrightarrow>
      run (set_data i f) s (\<lambda>_ s'. ok s' H \<and> blocks_of s' = blocks_of s \<and> rest s' = rest s \<and> dat s' i = f (dat s i) \<and>
        key s' i = key s i \<and> (\<forall>j\<in>H - {i}. key s' j = key s j \<and> dat s' j = dat s j))"
begin

text \<open>
  Taking a block, giving it back unchanged, and writing it back: whatever comes next starts from a state in which
  the other held buffers are as before.
\<close>

lemma bread_then:
  assumes "ok s H" and "addressable (d, n)" and "(d, n) \<notin> key s ` H" and "card H < NBUF"
    and "\<And>i s'. ok s' (insert i H) \<Longrightarrow> i \<notin> H \<Longrightarrow> key s' i = (d, n) \<Longrightarrow> dat s' i = blocks_of s (d, n) \<Longrightarrow>
      blocks_of s' = blocks_of s \<Longrightarrow> rest s' = rest s \<Longrightarrow> (\<And>j. j \<in> H \<Longrightarrow> key s' j = key s j) \<Longrightarrow> (\<And>j. j \<in> H \<Longrightarrow> dat s' j = dat s j) \<Longrightarrow>
      run (K i) s' Q"
  shows "run (bnd (bread d n) K) s Q"
  by (rule run_bnd [OF bread_law [OF assms(1-4)]]) (auto intro!: assms(5))

lemma brelse_then:
  assumes "ok s (insert i H)" and "i \<notin> H" and "dat s i = blocks_of s (key s i)"
    and "\<And>s'. ok s' H \<Longrightarrow> blocks_of s' = blocks_of s \<Longrightarrow> rest s' = rest s \<Longrightarrow> (\<And>j. j \<in> H \<Longrightarrow> key s' j = key s j) \<Longrightarrow>
      (\<And>j. j \<in> H \<Longrightarrow> dat s' j = dat s j) \<Longrightarrow> run K s' Q"
  shows "run (seq (brelse i) K) s Q"
  by (rule run_bnd [OF brelse_law [OF assms(1) _ assms(3)]]) (use assms(2) in \<open>auto intro!: assms(4)\<close>)

lemma write_back_then:
  assumes "ok s (insert i H)" and "i \<notin> H"
    and "\<And>s'. ok s' H \<Longrightarrow> blocks_of s' = (blocks_of s)(key s i := f (dat s i)) \<Longrightarrow> rest s' = rest s \<Longrightarrow>
      (\<And>j. j \<in> H \<Longrightarrow> key s' j = key s j) \<Longrightarrow> (\<And>j. j \<in> H \<Longrightarrow> dat s' j = dat s j) \<Longrightarrow> run K s' Q"
  shows "run (seq (set_data i f) (seq (bwrite i) (seq (brelse i) K))) s Q"
proof (rule run_bnd [OF set_data_law [OF assms(1) insertI1]])
  fix u s1
  assume s1: "ok s1 (insert i H) \<and> blocks_of s1 = blocks_of s \<and> rest s1 = rest s \<and> dat s1 i = f (dat s i) \<and>
    key s1 i = key s i \<and> (\<forall>j\<in>insert i H - {i}. key s1 j = key s j \<and> dat s1 j = dat s j)"
  then have "ok s1 (insert i H)" by blast
  show "run (seq (bwrite i) (seq (brelse i) K)) s1 Q"
  proof (rule run_bnd [OF bwrite_law [OF \<open>ok s1 (insert i H)\<close> insertI1]])
    fix u s2
    assume "ok s2 (insert i H) \<and> blocks_of s2 = (blocks_of s1)(key s1 i := dat s1 i) \<and> rest s2 = rest s1 \<and>
      (\<forall>j\<in>insert i H. key s2 j = key s1 j \<and> dat s2 j = dat s1 j)"
    with s1 assms(2) show "run (seq (brelse i) K) s2 Q" by (intro brelse_then [of s2 i H]) (auto intro!: assms(3))
  qed
qed

end

section \<open>The invariant of the cache\<close>

definition buf_key :: "'a bio_scheme \<Rightarrow> nat \<Rightarrow> u32 \<times> u32" where
  "buf_key s i = (b_dev (bcache s i), b_sector (bcache s i))"

definition disk_block :: "'a bio_scheme \<Rightarrow> u32 \<times> u32 \<Rightarrow> bytes" where
  "disk_block s k = disk s (fst k) (snd k)"

definition cache_ok :: "'a bio_scheme \<Rightarrow> nat set \<Rightarrow> bool" where
  "cache_ok s H \<longleftrightarrow> (\<exists>xs. ring (bcache s) xs \<and> set xs = {0..<NBUF}) \<and> idequeue s = [] \<and> havedisk1 s \<and>
     (\<forall>d n. \<not> bad_sector s d n) \<and> H \<subseteq> {0..<NBUF} \<and>
     (\<forall>i<NBUF. (b_busy (bcache s i) \<longleftrightarrow> i \<in> H) \<and> \<not> b_dirty (bcache s i)) \<and>
     (\<forall>i<NBUF. i \<notin> H \<longrightarrow> b_valid (bcache s i) \<longrightarrow> b_data (bcache s i) = disk_block s (buf_key s i)) \<and>
     (\<forall>i\<in>H. b_valid (bcache s i) \<and> addressable (buf_key s i)) \<and>
     inj_on (buf_key s) {i. i < NBUF \<and> addressable (buf_key s i)}"

lemma cache_okE:
  assumes "cache_ok s H"
  obtains xs where "ring (bcache s) xs" "set xs = {0..<NBUF}" "length xs = NBUF"
proof -
  obtain xs where xs: "ring (bcache s) xs" "set xs = {0..<NBUF}" using assms by (auto simp: cache_ok_def)
  then have "length xs = NBUF" using distinct_card [of xs] by (simp add: ring_def)
  with xs show thesis using that by blast
qed

lemma cache_ok_env:
  assumes "cache_ok s H"
  shows "idequeue s = []" "havedisk1 s" "\<not> bad_sector s d n" "H \<subseteq> {0..<NBUF}" "finite H"
    "i < NBUF \<Longrightarrow> b_busy (bcache s i) \<longleftrightarrow> i \<in> H" "i < NBUF \<Longrightarrow> \<not> b_dirty (bcache s i)"
    "i \<in> H \<Longrightarrow> b_valid (bcache s i)" "i \<in> H \<Longrightarrow> addressable (buf_key s i)" "i \<in> H \<Longrightarrow> i < NBUF"
  using assms finite_subset [of H "{0..<NBUF}"] by (auto simp: cache_ok_def)

lemma cache_ok_ring_upd:
  assumes "cache_ok s H" and "b_next x = b_next (bcache s i)" and "b_prev x = b_prev (bcache s i)"
  shows "\<exists>xs. ring ((bcache s)(i := x)) xs \<and> set xs = {0..<NBUF}"
  using assms ring_cong [of "(bcache s)(i := x)" "bcache s"] by (auto simp: cache_ok_def)

text \<open>A buffer nobody holds comes to hold block \<open>k\<close>.\<close>

lemma cache_ok_take:
  assumes ok: "cache_ok s H" and i: "i < NBUF" "i \<notin> H"
    and x: "b_busy x" "b_valid x" "\<not> b_dirty x" "(b_dev x, b_sector x) = k" "addressable k" "b_data x = disk_block s k"
    and l: "b_next x = b_next (bcache s i)" "b_prev x = b_prev (bcache s i)"
    and fresh: "\<forall>j<NBUF. j \<noteq> i \<longrightarrow> buf_key s j \<noteq> k"
    and s': "same_env s s'" "disk s' = disk s" "bcache s' = (bcache s)(i := x)"
  shows "cache_ok s' (insert i H)"
proof -
  have k: "buf_key s' j = (if j = i then k else buf_key s j)" for j using s' x(4) by (auto simp: buf_key_def)
  have d: "disk_block s' = disk_block s" using s' by (auto simp: disk_block_def)
  have "inj_on (buf_key s') {i. i < NBUF \<and> addressable (buf_key s' i)}"
    using ok fresh unfolding cache_ok_def inj_on_def k by (auto split: if_splits)
  then show ?thesis
    using ok i x s' cache_ok_ring_upd [OF ok l] unfolding cache_ok_def k d same_env_def by auto
qed

lemma find_SomeD: "find P xs = Some x \<Longrightarrow> x \<in> set xs \<and> P x"
  by (auto simp: find_Some_iff)

lemma bget_law:
  assumes ok: "cache_ok s H" and k: "addressable (d, n)" "(d, n) \<notin> buf_key s ` H" and c: "card H < NBUF"
  shows "run (bget d n) s (\<lambda>i s'. \<exists>x. i < NBUF \<and> i \<notin> H \<and> b_busy x \<and> \<not> b_dirty x \<and> (b_dev x, b_sector x) = (d, n) \<and>
    (b_valid x \<longrightarrow> b_data x = disk_block s (d, n)) \<and> b_next x = b_next (bcache s i) \<and> b_prev x = b_prev (bcache s i) \<and>
    (\<forall>j<NBUF. j \<noteq> i \<longrightarrow> buf_key s j \<noteq> (d, n)) \<and> same_env s s' \<and> disk s' = disk s \<and> bcache s' = (bcache s)(i := x))"
proof -
  obtain xs where xs: "ring (bcache s) xs" "set xs = {0..<NBUF}" "length xs = NBUF" by (rule cache_okE [OF ok])
  let ?P = "\<lambda>b. b_dev (bcache s b) = d \<and> b_sector (bcache s b) = n"
  have P: "?P b \<longleftrightarrow> buf_key s b = (d, n)" for b by (auto simp: buf_key_def)
  note walks = ring_walk [OF xs(1), unfolded xs(3), OF order_refl]
  show ?thesis
  proof (cases "find ?P xs")
    case (Some b)
    then have b: "b < NBUF" "buf_key s b = (d, n)" using find_SomeD [OF Some] xs(2) by (auto simp: P)
    then have "b \<notin> H" using k(2) by (metis image_eqI)
    moreover have "\<forall>j<NBUF. j \<noteq> b \<longrightarrow> buf_key s j \<noteq> (d, n)"
    proof (intro allI impI notI)
      fix j assume "j < NBUF" "j \<noteq> b" "buf_key s j = (d, n)"
      then show False using ok b k(1) inj_onD [of "buf_key s" "{i. i < NBUF \<and> addressable (buf_key s i)}" j b]
        by (simp add: cache_ok_def)
    qed
    moreover have "b_valid (bcache s b) \<longrightarrow> b_data (bcache s b) = disk_block s (d, n)"
      using ok b \<open>b \<notin> H\<close> by (auto simp: cache_ok_def)
    moreover have "bget d n s = Ret (b, upd_buf b (\<lambda>x. x\<lparr>b_busy := True\<rparr>) s)"
      unfolding bget_def Let_def walks Some using cache_ok_env(6) [OF ok b(1)] \<open>b \<notin> H\<close> by simp
    ultimately show ?thesis
      using cache_ok_env(7) [OF ok b(1)] b
      by (intro runI) (auto simp: same_env_def buf_key_def intro!: exI [of _ "(bcache s b)\<lparr>b_busy := True\<rparr>"])
  next
    case None
    then have fresh: "\<forall>j<NBUF. buf_key s j \<noteq> (d, n)" using xs(2) by (auto simp: find_None_iff P)
    obtain b where b: "find (\<lambda>b. \<not> b_busy (bcache s b)) (rev xs) = Some b"
    proof (cases "find (\<lambda>b. \<not> b_busy (bcache s b)) (rev xs)")
      case None
      then have "\<forall>b\<in>set xs. b_busy (bcache s b)" by (simp add: find_None_iff)
      then have "{0..<NBUF} \<subseteq> H" using cache_ok_env(6) [OF ok] unfolding xs(2) by (meson atLeastLessThan_iff subsetI)
      then have "card {0..<NBUF} \<le> card H" by (rule card_mono [OF cache_ok_env(5) [OF ok]])
      with c show ?thesis by simp
    qed
    then have "b < NBUF" "\<not> b_busy (bcache s b)" using find_SomeD [OF b] xs(2) by auto
    moreover have "bget d n s = Ret (b, upd_buf b
        (\<lambda>x. x\<lparr>b_dev := d, b_sector := n, b_busy := True, b_valid := False, b_dirty := False\<rparr>) s)"
      unfolding bget_def Let_def walks None b by simp
    ultimately show ?thesis
      using cache_ok_env(6) [OF ok, of b] fresh
      by (intro runI) (auto simp: same_env_def
          intro!: exI [of _ "(bcache s b)\<lparr>b_dev := d, b_sector := n, b_busy := True, b_valid := False, b_dirty := False\<rparr>"])
  qed
qed

lemma bread_cache:
  assumes ok: "cache_ok s H" and k: "addressable (d, n)" "(d, n) \<notin> buf_key s ` H" and c: "card H < NBUF"
  shows "run (bread d n) s (\<lambda>i s'. cache_ok s' (insert i H) \<and> i \<notin> H \<and> buf_key s' i = (d, n) \<and>
    b_data (bcache s' i) = disk_block s (d, n) \<and> disk_block s' = disk_block s \<and> bio.more s' = bio.more s \<and>
    (\<forall>j\<in>H. buf_key s' j = buf_key s j \<and> b_data (bcache s' j) = b_data (bcache s j)))"
  unfolding bread_def
proof (rule run_bnd [OF bget_law [OF assms]])
  fix i s1
  assume "\<exists>x. i < NBUF \<and> i \<notin> H \<and> b_busy x \<and> \<not> b_dirty x \<and> (b_dev x, b_sector x) = (d, n) \<and>
    (b_valid x \<longrightarrow> b_data x = disk_block s (d, n)) \<and> b_next x = b_next (bcache s i) \<and> b_prev x = b_prev (bcache s i) \<and>
    (\<forall>j<NBUF. j \<noteq> i \<longrightarrow> buf_key s j \<noteq> (d, n)) \<and> same_env s s1 \<and> disk s1 = disk s \<and> bcache s1 = (bcache s)(i := x)"
  then obtain x where i: "i < NBUF" "i \<notin> H" and x: "b_busy x" "\<not> b_dirty x" "b_dev x = d" "b_sector x = n"
      "b_valid x \<longrightarrow> b_data x = disk_block s (d, n)"
    and l: "b_next x = b_next (bcache s i)" "b_prev x = b_prev (bcache s i)"
    and fresh: "\<forall>j<NBUF. j \<noteq> i \<longrightarrow> buf_key s j \<noteq> (d, n)"
    and s1: "same_env s s1" "disk s1 = disk s" "bcache s1 = (bcache s)(i := x)"
    by auto
  define y where "y = x\<lparr>b_data := disk_block s (d, n), b_valid := True, b_dirty := False\<rparr>"
  have post: "cache_ok s' (insert i H) \<and> i \<notin> H \<and> buf_key s' i = (d, n) \<and>
      b_data (bcache s' i) = disk_block s (d, n) \<and> disk_block s' = disk_block s \<and> bio.more s' = bio.more s \<and>
      (\<forall>j\<in>H. buf_key s' j = buf_key s j \<and> b_data (bcache s' j) = b_data (bcache s j))"
    if "same_env s s'" "disk s' = disk s" "bcache s' = (bcache s)(i := y)" for s'
  proof -
    have "cache_ok s' (insert i H)"
      by (rule cache_ok_take [OF ok i _ _ _ _ k(1) _ _ _ fresh that]) (simp_all add: y_def x l)
    moreover have "disk_block s' = disk_block s" using that(2) by (simp add: disk_block_def fun_eq_iff)
    moreover have "\<forall>j\<in>H. bcache s' j = bcache s j" using that(3) i by auto
    ultimately show ?thesis using that(1,3) i x by (simp add: y_def buf_key_def same_env_def)
  qed
  show "run (bnd (gets (\<lambda>s. b_valid (bcache s i))) (\<lambda>valid. seq (if \<not> valid then iderw i else ret ()) (ret i))) s1
     (\<lambda>i s'. cache_ok s' (insert i H) \<and> i \<notin> H \<and> buf_key s' i = (d, n) \<and>
    b_data (bcache s' i) = disk_block s (d, n) \<and> disk_block s' = disk_block s \<and> bio.more s' = bio.more s \<and>
    (\<forall>j\<in>H. buf_key s' j = buf_key s j \<and> b_data (bcache s' j) = b_data (bcache s j)))"
  proof (cases "b_valid x")
    case True
    then have "y = x" using x by (auto simp: y_def)
    then show ?thesis using True post [OF s1(1,2)] s1 by (simp add: run_bnd_iff)
  next
    case False
    have "run (iderw i) s1 (\<lambda>_ s'. same_env s1 s' \<and> disk s' = disk s1 \<and> bcache s' = (bcache s1)(i := (bcache s1 i)
        \<lparr>b_data := disk s1 (b_dev (bcache s1 i)) (b_sector (bcache s1 i)), b_valid := True, b_dirty := False\<rparr>))"
      using s1 False x k(1) cache_ok_env(1-3) [OF ok] by (intro iderw_read) (auto simp: same_env_def)
    then obtain s2 where s2: "iderw i s1 = Ret ((), s2)" "same_env s1 s2" "disk s2 = disk s1"
        "bcache s2 = (bcache s1)(i := x\<lparr>b_data := disk s d n, b_valid := True, b_dirty := False\<rparr>)"
      using s1 x by (auto simp: run_def)
    have "same_env s s2" "disk s2 = disk s" "bcache s2 = (bcache s)(i := y)"
      using s1 s2 by (simp_all add: same_env_def y_def disk_block_def)
    from post [OF this] show ?thesis using False s1 s2(1) by (intro runI [of _ _ i s2]) simp_all
  qed
qed

text \<open>Changing only the bytes, or only the flags, of a held buffer.\<close>

lemma cache_ok_upd:
  assumes ok: "cache_ok s H" and i: "i \<in> H"
    and x: "b_busy x" "b_valid x" "\<not> b_dirty x" "b_dev x = b_dev (bcache s i)" "b_sector x = b_sector (bcache s i)"
    and l: "b_next x = b_next (bcache s i)" "b_prev x = b_prev (bcache s i)"
    and s': "same_env s s'" "bcache s' = (bcache s)(i := x)"
    and d: "\<And>k. k \<noteq> buf_key s i \<Longrightarrow> disk_block s' k = disk_block s k"
  shows "cache_ok s' H" and "buf_key s' = buf_key s"
proof -
  show k: "buf_key s' = buf_key s" using s' x by (auto simp: buf_key_def fun_eq_iff)
  have "disk_block s' (buf_key s j) = disk_block s (buf_key s j)" if "j < NBUF" "j \<notin> H" "b_valid (bcache s j)" for j
  proof (rule d)
    have "inj_on (buf_key s) {i. i < NBUF \<and> addressable (buf_key s i)}" using ok by (simp add: cache_ok_def)
    then show "buf_key s j \<noteq> buf_key s i"
      using cache_ok_env(9,10) [OF ok i] that i inj_onD [of "buf_key s" _ j i] by (metis (mono_tags, lifting) mem_Collect_eq)
  qed
  then show "cache_ok s' H"
    using ok i x s' cache_ok_ring_upd [OF ok l] unfolding cache_ok_def k same_env_def by auto
qed

lemma bwrite_cache:
  assumes ok: "cache_ok s H" and i: "i \<in> H"
  shows "run (bwrite i) s (\<lambda>_ s'. cache_ok s' H \<and> disk_block s' = (disk_block s)(buf_key s i := b_data (bcache s i)) \<and>
    bio.more s' = bio.more s \<and> (\<forall>j\<in>H. buf_key s' j = buf_key s j \<and> b_data (bcache s' j) = b_data (bcache s j)))"
proof -
  note e = cache_ok_env [OF ok]
  let ?s = "upd_buf i (\<lambda>x. x\<lparr>b_dirty := True\<rparr>) s"
  have "run (iderw i) ?s (\<lambda>_ s'. same_env ?s s' \<and> bcache s' = (bcache ?s)(i := (bcache ?s i)\<lparr>b_valid := True, b_dirty := False\<rparr>) \<and>
    disk s' = (disk ?s)(b_dev (bcache ?s i) := (disk ?s (b_dev (bcache ?s i)))(b_sector (bcache ?s i) := b_data (bcache ?s i))))"
    using e(1,2) e(6) [OF e(10) [OF i]] e(9) [OF i] i by (intro iderw_write) (auto simp: buf_key_def)
  then obtain s' where s': "iderw i ?s = Ret ((), s')" "same_env ?s s'"
      "bcache s' = (bcache s)(i := (bcache s i)\<lparr>b_valid := True, b_dirty := False\<rparr>)"
      "disk s' = (disk s)(b_dev (bcache s i) := (disk s (b_dev (bcache s i)))(b_sector (bcache s i) := b_data (bcache s i)))"
    by (auto simp: run_def)
  have "disk_block s' = (disk_block s)(buf_key s i := b_data (bcache s i))"
    using s'(4) by (auto simp: disk_block_def buf_key_def fun_eq_iff)
  moreover have "same_env s s'" using s'(2) by (simp add: same_env_def)
  moreover have "cache_ok s' H" "buf_key s' = buf_key s"
    by (rule cache_ok_upd [OF ok i _ _ _ _ _ _ _ \<open>same_env s s'\<close> s'(3)];
        use e(6) [OF e(10) [OF i]] i calculation(1) in simp)+
  ultimately show ?thesis
    using s' e(6) [OF e(10) [OF i]] i
    by (intro runI [of _ _ "()" s']) (auto simp: bwrite_def same_env_def)
qed

lemma set_data_cache:
  assumes ok: "cache_ok s H" and i: "i \<in> H"
  shows "run (set_data i f) s (\<lambda>_ s'. cache_ok s' H \<and> disk_block s' = disk_block s \<and> bio.more s' = bio.more s \<and>
    b_data (bcache s' i) = f (b_data (bcache s i)) \<and> buf_key s' i = buf_key s i \<and>
    (\<forall>j\<in>H - {i}. buf_key s' j = buf_key s j \<and> b_data (bcache s' j) = b_data (bcache s j)))"
proof -
  note e = cache_ok_env [OF ok]
  let ?s = "upd_buf i (\<lambda>x. x\<lparr>b_data := f (b_data x)\<rparr>) s"
  have d: "disk_block ?s = disk_block s" by (simp add: disk_block_def fun_eq_iff)
  have "cache_ok ?s H" "buf_key ?s = buf_key s"
    by (rule cache_ok_upd [OF ok i, where x = "(bcache s i)\<lparr>b_data := f (b_data (bcache s i))\<rparr>"];
        use e(6) [OF e(10) [OF i]] e(7) [OF e(10) [OF i]] e(8) [OF i] i d in \<open>simp add: same_env_def\<close>)+
  then show ?thesis using d by (simp add: set_data_def)
qed

lemma brelse_cache:
  assumes ok: "cache_ok s H" and i: "i \<in> H" and d: "b_data (bcache s i) = disk_block s (buf_key s i)"
  shows "run (brelse i) s (\<lambda>_ s'. cache_ok s' (H - {i}) \<and> disk_block s' = disk_block s \<and> bio.more s' = bio.more s \<and>
    (\<forall>j\<in>H - {i}. buf_key s' j = buf_key s j \<and> b_data (bcache s' j) = b_data (bcache s j)))"
proof -
  note e = cache_ok_env [OF ok]
  let ?c = "link_front i (unlink_buf i (bcache s))"
  let ?s = "upd_buf i (\<lambda>x. x\<lparr>b_busy := False\<rparr>) (s\<lparr>bcache := ?c\<rparr>)"
  obtain xs where xs: "ring (bcache s) xs" "set xs = {0..<NBUF}" "length xs = NBUF" by (rule cache_okE [OF ok])
  have ixs: "i \<in> set xs" "i \<noteq> HEAD" and dx: "distinct xs" using e(10) [OF i] xs by (auto simp: ring_def)
  have "ring ?c (i # remove1 i xs)"
    using ring_link_front [OF ring_unlink [OF xs(1) ixs(1)] ixs(2)] dx by simp
  then have r: "ring (bcache ?s) (i # remove1 i xs) \<and> set (i # remove1 i xs) = {0..<NBUF}"
    using ring_cong [of "bcache ?s" ?c] xs(2) ixs(1) dx by (auto simp: set_remove1_eq)
  have f: "b_data (bcache ?s j) = b_data (bcache s j)" "buf_key ?s j = buf_key s j" "b_valid (bcache ?s j) = b_valid (bcache s j)"
      "b_dirty (bcache ?s j) = b_dirty (bcache s j)" "b_busy (bcache ?s j) = (j \<noteq> i \<and> b_busy (bcache s j))" for j
    by (auto simp: other_fields buf_key_def)
  have k: "buf_key ?s = buf_key s" using f(2) by (rule ext)
  have dk: "disk_block ?s = disk_block s" by (simp add: disk_block_def fun_eq_iff)
  have "cache_ok ?s (H - {i})"
    using ok d i r unfolding cache_ok_def k dk f by auto
  then show ?thesis
    using e(6) [OF e(10) [OF i]] i dk k by (intro runI [of _ _ "()" ?s]) (auto simp: brelse_def other_fields)
qed

interpretation bio: buffer_cache bread bwrite brelse set_data "\<lambda>s i. b_data (bcache s i)" buf_key disk_block bio.more cache_ok
proof unfold_locales
  fix s :: "'a bio_scheme" and H i f
  assume "cache_ok s H" "i \<in> H"
  from set_data_cache [OF this] show "run (set_data i f) s (\<lambda>_ s'. cache_ok s' H \<and> disk_block s' = disk_block s \<and>
    bio.more s' = bio.more s \<and> b_data (bcache s' i) = f (b_data (bcache s i)) \<and> buf_key s' i = buf_key s i \<and>
    (\<forall>j\<in>H - {i}. buf_key s' j = buf_key s j \<and> b_data (bcache s' j) = b_data (bcache s j)))" .
qed (rule bread_cache bwrite_cache brelse_cache; assumption)+

section \<open>The initial state\<close>

text \<open>The machine at boot: buffers zeroed, no request pending, both drives there.\<close>

definition booted :: "'a bio_scheme \<Rightarrow> bool" where
  "booted s \<longleftrightarrow> idequeue s = [] \<and> havedisk1 s \<and> (\<forall>d n. \<not> bad_sector s d n) \<and>
     (\<forall>i<NBUF. \<not> b_busy (bcache s i) \<and> \<not> b_valid (bcache s i) \<and> \<not> b_dirty (bcache s i))"

lemma binit_fields:
  "b_busy (fold (\<lambda>b c. link_front b (c(b := (c b)\<lparr>b_dev := -1\<rparr>))) xs c i) = b_busy (c i) \<and>
   b_valid (fold (\<lambda>b c. link_front b (c(b := (c b)\<lparr>b_dev := -1\<rparr>))) xs c i) = b_valid (c i) \<and>
   b_dirty (fold (\<lambda>b c. link_front b (c(b := (c b)\<lparr>b_dev := -1\<rparr>))) xs c i) = b_dirty (c i) \<and>
   b_dev (fold (\<lambda>b c. link_front b (c(b := (c b)\<lparr>b_dev := -1\<rparr>))) xs c i) = (if i \<in> set xs then -1 else b_dev (c i))"
  by (induction xs arbitrary: c) (auto simp: other_fields)

lemma binit_cache:
  assumes "booted s"
  shows "run binit s (\<lambda>_ s'. cache_ok s' {} \<and> disk s' = disk s \<and> bio.more s' = bio.more s)"
proof -
  obtain s' where s': "binit s = Ret ((), s')" "ring (bcache s') (rev [0..<NBUF])" using binit_ring [of s] by (auto simp: run_def)
  define c where "c = (bcache s)(HEAD := (bcache s HEAD)\<lparr>b_prev := HEAD, b_next := HEAD\<rparr>)"
  have eq: "s' = s\<lparr>bcache := fold (\<lambda>b c. link_front b (c(b := (c b)\<lparr>b_dev := -1\<rparr>))) [0..<NBUF] c\<rparr>"
    using s'(1) unfolding binit_def Let_def c_def by simp
  have f: "\<not> b_busy (bcache s' i)" "\<not> b_valid (bcache s' i)" "\<not> b_dirty (bcache s' i)" "b_dev (bcache s' i) = -1" if "i < NBUF" for i
    using that assms binit_fields [of "[0..<NBUF]" c i] unfolding eq booted_def by (auto simp: c_def simp del: upt_rec_numeral)
  have na: "\<not> addressable (buf_key s' i)" if "i < NBUF" for i using f(4) [OF that] by (simp add: addressable_def buf_key_def)
  have "cache_ok s' {}" unfolding cache_ok_def
  proof (intro conjI)
    show "\<exists>xs. ring (bcache s') xs \<and> set xs = {0..<NBUF}" using s'(2) by (intro exI [of _ "rev [0..<NBUF]"]) (simp del: upt_rec_numeral)
    show "inj_on (buf_key s') {i. i < NBUF \<and> addressable (buf_key s' i)}" using na by (auto simp: inj_on_def)
  qed (use f assms in \<open>auto simp: eq booted_def\<close>)
  then show ?thesis using s'(1) by (auto simp: run_def eq)
qed

end
