(* ===== verification/Kstring.thy ===== *)
theory Kstring
  imports Xv6_Prelude
begin

text \<open>
  The string functions of \<open>kernel/string.c\<close>. A C string is the list of the bytes its pointer leads to, and the
  byte after the list is the terminating zero; \<open>hd0\<close> is \<open>*p\<close>. The two copying functions give the bytes they
  store. Memory for \<open>memset\<close>, \<open>memcmp\<close> and \<open>memmove\<close> is a byte array with addresses into it, so that source
  and destination may overlap.
\<close>

fun hd0 :: "u8 list \<Rightarrow> u8" where
  "hd0 [] = 0"
| "hd0 (c # _) = c"

definition memset :: "bytes \<Rightarrow> nat \<Rightarrow> u8 \<Rightarrow> nat \<Rightarrow> bytes" where
  "memset mem dst c n = wr mem dst (replicate n c)"

fun memcmp :: "bytes \<Rightarrow> nat \<Rightarrow> nat \<Rightarrow> nat \<Rightarrow> int" where
  "memcmp mem s1 s2 0 = 0"
| "memcmp mem s1 s2 (Suc n) =
     (if mem s1 \<noteq> mem s2 then uint (mem s1) - uint (mem s2) else memcmp mem (Suc s1) (Suc s2) n)"

fun move_up :: "bytes \<Rightarrow> nat \<Rightarrow> nat \<Rightarrow> nat \<Rightarrow> bytes" where
  "move_up mem d s 0 = mem"
| "move_up mem d s (Suc n) = move_up (mem(d := mem s)) (Suc d) (Suc s) n"

fun move_down :: "bytes \<Rightarrow> nat \<Rightarrow> nat \<Rightarrow> nat \<Rightarrow> bytes" where
  "move_down mem d s 0 = mem"
| "move_down mem d s (Suc n) = move_down (mem(d + n := mem (s + n))) d s n"

definition memmove :: "bytes \<Rightarrow> nat \<Rightarrow> nat \<Rightarrow> nat \<Rightarrow> bytes" where
  "memmove mem d s n = (if s < d \<and> s + n > d then move_down mem d s n else move_up mem d s n)"

definition memcpy :: "bytes \<Rightarrow> nat \<Rightarrow> nat \<Rightarrow> nat \<Rightarrow> bytes" where
  "memcpy mem d s n = memmove mem d s n"

fun strncmp :: "u8 list \<Rightarrow> u8 list \<Rightarrow> nat \<Rightarrow> int" where
  "strncmp p q 0 = 0"
| "strncmp p q (Suc n) =
     (if hd0 p \<noteq> 0 \<and> hd0 p = hd0 q then strncmp (tl p) (tl q) n else uint (hd0 p) - uint (hd0 q))"

fun strncpy :: "u8 list \<Rightarrow> nat \<Rightarrow> u8 list" where
  "strncpy t 0 = []"
| "strncpy t (Suc n) = (if hd0 t \<noteq> 0 then hd0 t # strncpy (tl t) n else 0 # replicate n 0)"

fun safestrcpy_loop :: "u8 list \<Rightarrow> nat \<Rightarrow> u8 list" where
  "safestrcpy_loop t 0 = [0]"
| "safestrcpy_loop t (Suc n) = (if hd0 t \<noteq> 0 then hd0 t # safestrcpy_loop (tl t) n else [0, 0])"

definition safestrcpy :: "u8 list \<Rightarrow> int \<Rightarrow> u8 list" where
  "safestrcpy t n = (if n \<le> 0 then [] else safestrcpy_loop t (nat n - 1))"

fun strlen :: "u8 list \<Rightarrow> nat" where
  "strlen [] = 0"
| "strlen (c # s) = (if c \<noteq> 0 then Suc (strlen s) else 0)"

lemma uint_diff_eq_0 [simp]: "uint (a :: u8) - uint b = 0 \<longleftrightarrow> a = b"
  by (simp add: word_uint_eq_iff)

section \<open>Copying memory\<close>

lemma move_up_eq:
  assumes "d \<le> s \<or> s + n \<le> d"
  shows "move_up mem d s n = wr mem d (rd mem s n)"
  using assms
proof (induction n arbitrary: mem d s)
  case (Suc n)
  have IH: "move_up (mem(d := mem s)) (Suc d) (Suc s) n = wr (mem(d := mem s)) (Suc d) (rd (mem(d := mem s)) (Suc s) n)"
    using Suc.prems by (intro Suc.IH) auto
  show ?case
  proof
    fix i
    show "move_up mem d s (Suc n) i = wr mem d (rd mem s (Suc n)) i"
    proof (cases "d < i")
      case True
      then obtain k where "i = Suc (d + k)" using less_iff_Suc_add by auto
      then show ?thesis using Suc.prems by (auto simp: IH wr_def)
    qed (auto simp: IH wr_def)
  qed
qed (simp add: rd_def)

lemma move_down_eq:
  assumes "s < d"
  shows "move_down mem d s n = wr mem d (rd mem s n)"
proof (induction n arbitrary: mem)
  case (Suc n)
  show ?case
  proof
    fix i
    show "move_down mem d s (Suc n) i = wr mem d (rd mem s (Suc n)) i"
    proof (cases "d \<le> i")
      case True
      then obtain k where "i = d + k" using le_iff_add by auto
      then show ?thesis using assms by (auto simp: Suc.IH wr_def less_Suc_eq)
    qed (use assms in \<open>simp add: Suc.IH wr_def\<close>)
  qed
qed (simp add: rd_def)

lemma memmove_eq: "memmove mem d s n = wr mem d (rd mem s n)"
  using move_up_eq [of d s n mem] move_down_eq [of s d mem n] by (auto simp: memmove_def)

lemma memcmp_eq_0: "memcmp mem p q n = 0 \<longleftrightarrow> rd mem p n = rd mem q n"
proof (induction n arbitrary: p q)
  case (Suc n)
  have "rd mem a (Suc n) = mem a # rd mem (Suc a) n" for a
    by (simp add: rd_def upt_conv_Cons del: upt_Suc)
  with Suc show ?case by (simp add: uint_diff_eq_0 del: right_minus_eq)
qed (simp add: rd_def)

section \<open>Comparing and copying strings\<close>

text \<open>The string an array of \<open>n\<close> bytes holds: what comes before a zero byte.\<close>

definition cstr :: "nat \<Rightarrow> u8 list \<Rightarrow> u8 list" where
  "cstr n s = takeWhile (\<lambda>c. c \<noteq> 0) (take n s)"

lemma cstr_0 [simp]: "cstr 0 s = []"
  by (simp add: cstr_def)

lemma cstr_Suc: "cstr (Suc n) s = (if hd0 s \<noteq> 0 then hd0 s # cstr n (tl s) else [])"
  by (cases s) (auto simp: cstr_def)

lemma strncmp_eq_0: "strncmp p q n = 0 \<longleftrightarrow> cstr n p = cstr n q"
proof (induction p q n rule: strncmp.induct)
  case (2 p q n)
  then show ?case
    using uint_diff_eq_0 [of "hd0 p" "hd0 q"] by (auto simp: cstr_Suc simp del: right_minus_eq uint_diff_eq_0)
qed simp

lemma length_strncpy [simp]: "length (strncpy t n) = n"
  by (induction t n rule: strncpy.induct) auto

lemma cstr_strncpy [simp]: "cstr n (strncpy t n) = cstr n t"
  by (induction t n rule: strncpy.induct) (auto simp: cstr_Suc)

lemma cstr_idem [simp]: "cstr n (cstr n s) = cstr n s"
  by (induction n arbitrary: s) (auto simp: cstr_Suc)

lemma safestrcpy_loop_ne [simp]: "safestrcpy_loop t n \<noteq> []"
  by (cases n) auto

lemma safestrcpy_loop_cstr: "cstr (Suc n) (safestrcpy_loop t n) = cstr n t \<and> length (safestrcpy_loop t n) \<le> Suc n \<and> last (safestrcpy_loop t n) = 0"
  by (induction t n rule: safestrcpy_loop.induct) (auto simp: cstr_Suc)

lemma strlen_takeWhile: "strlen s = length (takeWhile (\<lambda>c. c \<noteq> 0) s)"
  by (induction s) auto

end
