(* ===== verification/Fs.thy ===== *)
theory Fs
  imports Bio_Cache Kstring Fs_Layout
begin

unbundle bit_operations_syntax

text \<open>
  The file system of \<open>kernel/fs.c\<close>, function by function, over the buffer cache: block allocation, the inode
  cache, block maps, reading and writing (the small files kept inside the inode included), directories and
  path names. An inode pointer is an index into \<open>icache.inode\<close>; a function that may return the null pointer returns an
  option. The flag bits \<open>I_BUSY\<close> and \<open>I_VALID\<close> are booleans. A wait for an inode lock someone else holds never
  ends here. The device switch is a parameter. Bytes copied out to the caller's memory are part of the result.
\<close>

abbreviation NINODE :: nat where "NINODE \<equiv> 50"
abbreviation NDEV :: int where "NDEV \<equiv> 10"
abbreviation ROOTDEV :: u32 where "ROOTDEV \<equiv> 1"

section \<open>State\<close>

record inode =
  i_dev :: u32
  i_inum :: u32
  i_ref :: int
  i_busy :: bool
  i_valid :: bool
  i_type :: u16
  i_major :: u16
  i_minor :: u16
  i_nlink :: u16
  i_size :: u32
  i_addrs :: "u32 list"

record fsys = bio +
  icache :: "nat \<Rightarrow> inode"

definition upd_inode :: "nat \<Rightarrow> (inode \<Rightarrow> inode) \<Rightarrow> ('a fsys_scheme, unit) km" where
  "upd_inode i f = modify (\<lambda>s. s\<lparr>icache := (icache s)(i := f (icache s i))\<rparr>)"

definition the_inode :: "nat \<Rightarrow> ('a fsys_scheme, inode) km" where
  "the_inode i = gets (\<lambda>s. icache s i)"

text \<open>An entry of \<open>devsw\<close>: the two functions, null where the device has none.\<close>

record 's devsw =
  dev_read :: "(nat \<Rightarrow> u32 \<Rightarrow> ('s, int \<times> u8 list) km) option"
  dev_write :: "(nat \<Rightarrow> bytes \<Rightarrow> u32 \<Rightarrow> ('s, int) km) option"

type_synonym 's devtab = "int \<Rightarrow> 's devsw"

section \<open>Blocks\<close>

definition readsb :: "u32 \<Rightarrow> ('a bio_scheme, superblock) km" where
  "readsb dev =
     bnd (bread dev 1) (\<lambda>bp.
     bnd (buf_data bp) (\<lambda>d.
     seq (brelse bp)
     (ret (dec_superblock (rd d 0 12)))))"

definition bzero :: "u32 \<Rightarrow> u32 \<Rightarrow> ('a bio_scheme, unit) km" where
  "bzero dev bno =
     bnd (bread dev bno) (\<lambda>bp.
     seq (set_data bp (\<lambda>d. memset d 0 0 BSIZE))
     (seq (bwrite bp)
     (brelse bp)))"

text \<open>The bit of a bitmap block for its \<open>bi\<close>th block.\<close>

definition bit_clear :: "bytes \<Rightarrow> nat \<Rightarrow> bool" where
  "bit_clear d bi \<longleftrightarrow> d (bi div 8) AND push_bit (bi mod 8) 1 = 0"

fun balloc_loop :: "nat \<Rightarrow> u32 \<Rightarrow> superblock \<Rightarrow> u32 \<Rightarrow> ('a bio_scheme, u32) km" where
  "balloc_loop 0 dev sb b = sleep_forever"
| "balloc_loop (Suc fuel) dev sb b =
     (if b < sb_size sb then
        bnd (bread dev (BBLOCK b (sb_ninodes sb))) (\<lambda>bp.
        bnd (buf_data bp) (\<lambda>d.
        let bound = (if b + 4096 > sb_size sb then unat (sb_size sb mod 4096) else BPB) in
        case find (bit_clear d) [0..<bound] of
          Some bi \<Rightarrow>
            seq (set_data bp (\<lambda>d. d(bi div 8 := d (bi div 8) OR push_bit (bi mod 8) 1)))
            (seq (bwrite bp)
            (seq (brelse bp)
            (ret (b + of_nat bi))))
        | None \<Rightarrow> seq (brelse bp) (balloc_loop fuel dev sb (b + 4096))))
      else ret 0)"

definition balloc :: "u32 \<Rightarrow> ('a bio_scheme, u32) km" where
  "balloc dev = bnd (readsb dev) (\<lambda>sb. balloc_loop (unat (sb_size sb) div 4096 + 2) dev sb 0)"

definition bfree :: "u32 \<Rightarrow> u32 \<Rightarrow> ('a bio_scheme, unit) km" where
  "bfree dev b =
     seq (bzero dev b)
     (bnd (readsb dev) (\<lambda>sb.
     bnd (bread dev (BBLOCK b (sb_ninodes sb))) (\<lambda>bp.
     bnd (buf_data bp) (\<lambda>d.
     let bi = unat (b mod 4096) in
     if bit_clear d bi then panic ''freeing free block''
     else
       seq (set_data bp (\<lambda>d. d(bi div 8 := d (bi div 8) AND NOT (push_bit (bi mod 8) 1))))
       (seq (bwrite bp)
       (brelse bp))))))"

section \<open>The inode cache\<close>

definition iget :: "u32 \<Rightarrow> u32 \<Rightarrow> ('a fsys_scheme, nat) km" where
  "iget dev inum = (\<lambda>s.
     case find (\<lambda>i. i_ref (icache s i) > 0 \<and> i_dev (icache s i) = dev \<and> i_inum (icache s i) = inum) [0..<NINODE] of
       Some i \<Rightarrow> Ret (i, s\<lparr>icache := (icache s)(i := (icache s i)\<lparr>i_ref := i_ref (icache s i) + 1\<rparr>)\<rparr>)
     | None \<Rightarrow>
         (case find (\<lambda>i. i_ref (icache s i) = 0) [0..<NINODE] of
            None \<Rightarrow> Halt ''iget: no inodes''
          | Some i \<Rightarrow> Ret (i, s\<lparr>icache := (icache s)(i := (icache s i)
              \<lparr>i_dev := dev, i_inum := inum, i_ref := 1, i_busy := False, i_valid := False\<rparr>)\<rparr>)))"

text \<open>Byte offset of inode \<open>inum\<close> in its block, and the inode as the block has it.\<close>

definition ioff :: "u32 \<Rightarrow> nat" where
  "ioff inum = 64 * (unat inum mod IPB)"

definition to_dinode :: "inode \<Rightarrow> dinode" where
  "to_dinode ip = \<lparr>di_type = i_type ip, di_major = i_major ip, di_minor = i_minor ip, di_nlink = i_nlink ip,
     di_size = i_size ip, di_addrs = i_addrs ip\<rparr>"

fun ialloc_loop :: "u32 \<Rightarrow> u16 \<Rightarrow> nat list \<Rightarrow> ('a fsys_scheme, nat) km" where
  "ialloc_loop dev type [] = panic ''ialloc: no inodes''"
| "ialloc_loop dev type (n # ns) =
     (let inum = of_nat n in
      bnd (bread dev (IBLOCK inum)) (\<lambda>bp.
      bnd (buf_data bp) (\<lambda>d.
      if di_type (dec_dinode (rd d (ioff inum) 64)) = 0 then
        seq (set_data bp (\<lambda>d. wr d (ioff inum) (enc_dinode ((dec_dinode (replicate 64 0))\<lparr>di_type := type\<rparr>))))
        (seq (bwrite bp)
        (seq (brelse bp)
        (iget dev inum)))
      else seq (brelse bp) (ialloc_loop dev type ns))))"

definition ialloc :: "u32 \<Rightarrow> u16 \<Rightarrow> ('a fsys_scheme, nat) km" where
  "ialloc dev type = bnd (readsb dev) (\<lambda>sb. ialloc_loop dev type [1..<unat (sb_ninodes sb)])"

definition iupdate :: "nat \<Rightarrow> ('a fsys_scheme, unit) km" where
  "iupdate i =
     bnd (the_inode i) (\<lambda>ip.
     bnd (bread (i_dev ip) (IBLOCK (i_inum ip))) (\<lambda>bp.
     seq (set_data bp (\<lambda>d. wr d (ioff (i_inum ip)) (enc_dinode (to_dinode ip))))
     (seq (bwrite bp)
     (brelse bp))))"

definition idup :: "nat \<Rightarrow> ('a fsys_scheme, nat) km" where
  "idup i = seq (upd_inode i (\<lambda>ip. ip\<lparr>i_ref := i_ref ip + 1\<rparr>)) (ret i)"

definition ilock :: "nat \<Rightarrow> ('a fsys_scheme, unit) km" where
  "ilock i =
     bnd (the_inode i) (\<lambda>ip.
     if i_ref ip < 1 then panic ''ilock''
     else if i_busy ip then sleep_forever
     else
       seq (upd_inode i (\<lambda>ip. ip\<lparr>i_busy := True\<rparr>))
       (if \<not> i_valid ip then
          bnd (bread (i_dev ip) (IBLOCK (i_inum ip))) (\<lambda>bp.
          bnd (buf_data bp) (\<lambda>d.
          let dip = dec_dinode (rd d (ioff (i_inum ip)) 64) in
          seq (upd_inode i (\<lambda>ip. ip\<lparr>i_type := di_type dip, i_major := di_major dip, i_minor := di_minor dip,
                 i_nlink := di_nlink dip, i_size := di_size dip, i_addrs := di_addrs dip\<rparr>))
          (seq (brelse bp)
          (seq (upd_inode i (\<lambda>ip. ip\<lparr>i_valid := True\<rparr>))
          (if di_type dip = 0 then panic ''ilock: no type'' else ret ())))))
        else ret ()))"

definition iunlock :: "nat \<Rightarrow> ('a fsys_scheme, unit) km" where
  "iunlock i =
     bnd (the_inode i) (\<lambda>ip.
     if \<not> i_busy ip \<or> i_ref ip < 1 then panic ''iunlock''
     else upd_inode i (\<lambda>ip. ip\<lparr>i_busy := False\<rparr>))"

section \<open>Block maps\<close>

text \<open>Word \<open>j\<close> of an indirect block.\<close>

definition get_word :: "bytes \<Rightarrow> nat \<Rightarrow> u32" where
  "get_word d j = of_le32 (rd d (4 * j) 4)"

definition put_word :: "nat \<Rightarrow> u32 \<Rightarrow> bytes \<Rightarrow> bytes" where
  "put_word j w d = wr d (4 * j) (le32 w)"

definition bmap :: "nat \<Rightarrow> u32 \<Rightarrow> ('a fsys_scheme, u32) km" where
  "bmap i bn =
     bnd (the_inode i) (\<lambda>ip.
     if bn < 12 then
       if i_addrs ip ! unat bn = 0 then
         bnd (balloc (i_dev ip)) (\<lambda>addr.
         seq (upd_inode i (\<lambda>ip. ip\<lparr>i_addrs := (i_addrs ip)[unat bn := addr]\<rparr>))
         (ret addr))
       else ret (i_addrs ip ! unat bn)
     else if bn - 12 < 128 then
       bnd (if i_addrs ip ! NDIRECT = 0 then
              bnd (balloc (i_dev ip)) (\<lambda>addr.
              seq (upd_inode i (\<lambda>ip. ip\<lparr>i_addrs := (i_addrs ip)[NDIRECT := addr]\<rparr>))
              (ret addr))
            else ret (i_addrs ip ! NDIRECT)) (\<lambda>addr.
       bnd (bread (i_dev ip) addr) (\<lambda>bp.
       bnd (buf_data bp) (\<lambda>d.
       let j = unat (bn - 12); a = get_word d j in
       if a = 0 then
         bnd (balloc (i_dev ip)) (\<lambda>a.
         seq (set_data bp (put_word j a))
         (seq (bwrite bp)
         (seq (brelse bp)
         (ret a))))
       else seq (brelse bp) (ret a))))
     else panic ''bmap: out of range'')"

text \<open>A loop whose body only acts.\<close>

fun for_each :: "('x \<Rightarrow> ('s, unit) km) \<Rightarrow> 'x list \<Rightarrow> ('s, unit) km" where
  "for_each f [] = ret ()"
| "for_each f (x # xs) = seq (f x) (for_each f xs)"

definition itrunc :: "nat \<Rightarrow> ('a fsys_scheme, unit) km" where
  "itrunc i =
     bnd (the_inode i) (\<lambda>ip.
     if i_type ip = T_SMALLFILE then ret ()
     else
       seq (for_each (\<lambda>k.
              bnd (the_inode i) (\<lambda>ip.
              if i_addrs ip ! k \<noteq> 0 then
                seq (bfree (i_dev ip) (i_addrs ip ! k))
                (upd_inode i (\<lambda>ip. ip\<lparr>i_addrs := (i_addrs ip)[k := 0]\<rparr>))
              else ret ())) [0..<NDIRECT])
       (seq (bnd (the_inode i) (\<lambda>ip.
              if i_addrs ip ! NDIRECT \<noteq> 0 then
                bnd (bread (i_dev ip) (i_addrs ip ! NDIRECT)) (\<lambda>bp.
                seq (for_each (\<lambda>j.
                       bnd (buf_data bp) (\<lambda>d.
                       if get_word d j \<noteq> 0 then bfree (i_dev ip) (get_word d j) else ret ())) [0..<NINDIRECT])
                (seq (brelse bp)
                (seq (bfree (i_dev ip) (i_addrs ip ! NDIRECT))
                (upd_inode i (\<lambda>ip. ip\<lparr>i_addrs := (i_addrs ip)[NDIRECT := 0]\<rparr>)))))
              else ret ()))
       (seq (upd_inode i (\<lambda>ip. ip\<lparr>i_size := 0\<rparr>))
       (iupdate i))))"

definition iput :: "nat \<Rightarrow> ('a fsys_scheme, unit) km" where
  "iput i =
     bnd (the_inode i) (\<lambda>ip.
     seq (if i_ref ip = 1 \<and> i_valid ip \<and> i_nlink ip = 0 then
            if i_busy ip then panic ''iput busy''
            else
              seq (upd_inode i (\<lambda>ip. ip\<lparr>i_busy := True\<rparr>))
              (seq (itrunc i)
              (seq (upd_inode i (\<lambda>ip. ip\<lparr>i_type := 0\<rparr>))
              (seq (iupdate i)
              (upd_inode i (\<lambda>ip. ip\<lparr>i_busy := False, i_valid := False\<rparr>)))))
          else ret ())
     (upd_inode i (\<lambda>ip. ip\<lparr>i_ref := i_ref ip - 1\<rparr>)))"

definition iunlockput :: "nat \<Rightarrow> ('a fsys_scheme, unit) km" where
  "iunlockput i = seq (iunlock i) (iput i)"

end
