(* ===== verification/Fs_Data.thy ===== *)
theory Fs_Data
  imports Fs
begin

unbundle bit_operations_syntax

text \<open>
  The upper half of \<open>kernel/fs.c\<close>: contents of inodes (\<open>stati\<close>, \<open>readi\<close>, \<open>writei\<close>), directories
  (\<open>namecmp\<close>, \<open>dirlookup\<close>, \<open>dirlink\<close>) and path names (\<open>skipelem\<close>, \<open>namex\<close>). The loops take as fuel a bound on the
  number of passes, which the callers compute from the sizes; \<open>NoRet\<close> stands for a loop that is not finished then.
\<close>

section \<open>Small files\<close>

text \<open>A small file keeps its bytes in the words of \<open>addrs\<close>; byte \<open>i\<close> is byte \<open>i mod 4\<close> of word \<open>i div 4\<close>.\<close>

definition small_get :: "u32 list \<Rightarrow> nat \<Rightarrow> u8" where
  "small_get addrs i = ucast (drop_bit (i mod 4 * 8) (addrs ! (i div 4)) AND 0xff)"

text \<open>The byte stored is a \<open>char\<close>: it is sign-extended before it is shifted into place.\<close>

definition small_put :: "u32 list \<Rightarrow> nat \<Rightarrow> u8 \<Rightarrow> u32 list" where
  "small_put addrs i c =
     addrs[i div 4 := (addrs ! (i div 4) AND NOT (push_bit (i mod 4 * 8) 0xff)) OR push_bit (i mod 4 * 8) (scast c)]"

section \<open>Reading and writing\<close>

record stat =
  st_dev :: u32
  st_ino :: u32
  st_type :: u16
  st_nlink :: u16
  st_size :: u32

definition stati :: "nat \<Rightarrow> ('a fsys_scheme, stat) km" where
  "stati i = bnd (the_inode i) (\<lambda>ip.
     ret \<lparr>st_dev = i_dev ip, st_ino = i_inum ip, st_type = i_type ip, st_nlink = i_nlink ip, st_size = i_size ip\<rparr>)"

fun readi_loop :: "nat \<Rightarrow> nat \<Rightarrow> u32 \<Rightarrow> u32 \<Rightarrow> u32 \<Rightarrow> u8 list \<Rightarrow> ('a fsys_scheme, u8 list) km" where
  "readi_loop 0 i off n tot dst = sleep_forever"
| "readi_loop (Suc fuel) i off n tot dst =
     (if tot < n then
        bnd (bmap i (off div 512)) (\<lambda>sector.
        if sector = 0 then panic ''readi: trying to read a block that was never allocated''
        else
          bnd (the_inode i) (\<lambda>ip.
          bnd (bread (i_dev ip) sector) (\<lambda>bp.
          bnd (buf_data bp) (\<lambda>d.
          let m = min (n - tot) (512 - off mod 512) in
          seq (brelse bp)
          (readi_loop fuel i (off + m) n (tot + m) (dst @ rd d (unat (off mod 512)) (unat m)))))))
      else ret dst)"

definition readi :: "('a fsys_scheme) devtab \<Rightarrow> nat \<Rightarrow> u32 \<Rightarrow> u32 \<Rightarrow> ('a fsys_scheme, int \<times> u8 list) km" where
  "readi dv i off n =
     bnd (the_inode i) (\<lambda>ip.
     if i_type ip = T_DEV then
       (if sint (i_major ip) < 0 \<or> sint (i_major ip) \<ge> NDEV then ret (-1, [])
        else (case dev_read (dv (sint (i_major ip))) of None \<Rightarrow> ret (-1, []) | Some f \<Rightarrow> f i n))
     else if i_type ip = T_SMALLFILE then
       (if off > 52 \<or> off + n < off then ret (-1, [])
        else
          let n = (if off + n > 52 then 52 - off else n);
              n = (if off + n > i_size ip then i_size ip - off else n)
          in ret (sint n, map (small_get (i_addrs ip)) [unat off..<unat (off + n)]))
     else if off > i_size ip \<or> off + n < off then ret (-1, [])
     else
       let n = (if off + n > i_size ip then i_size ip - off else n) in
       bnd (readi_loop (Suc (unat n)) i off n 0 []) (\<lambda>dst.
       ret (sint n, dst)))"

text \<open>The loop of \<open>writei\<close> gives back \<open>off\<close> and \<open>n\<close> as they are when it ends.\<close>

fun writei_loop :: "nat \<Rightarrow> nat \<Rightarrow> bytes \<Rightarrow> u32 \<Rightarrow> u32 \<Rightarrow> u32 \<Rightarrow> ('a fsys_scheme, u32 \<times> u32) km" where
  "writei_loop 0 i src off n tot = sleep_forever"
| "writei_loop (Suc fuel) i src off n tot =
     (if tot < n then
        bnd (bmap i (off div 512)) (\<lambda>sector.
        if sector = 0 then ret (off, tot)
        else
          bnd (the_inode i) (\<lambda>ip.
          bnd (bread (i_dev ip) sector) (\<lambda>bp.
          let m = min (n - tot) (512 - off mod 512) in
          seq (set_data bp (\<lambda>d. wr d (unat (off mod 512)) (rd src (unat tot) (unat m))))
          (seq (bwrite bp)
          (seq (brelse bp)
          (writei_loop fuel i src (off + m) n (tot + m)))))))
      else ret (off, n))"

definition writei :: "('a fsys_scheme) devtab \<Rightarrow> nat \<Rightarrow> bytes \<Rightarrow> u32 \<Rightarrow> u32 \<Rightarrow> ('a fsys_scheme, int) km" where
  "writei dv i src off n =
     bnd (the_inode i) (\<lambda>ip.
     if i_type ip = T_DEV then
       (if sint (i_major ip) < 0 \<or> sint (i_major ip) \<ge> NDEV then ret (-1)
        else (case dev_write (dv (sint (i_major ip))) of None \<Rightarrow> ret (-1) | Some f \<Rightarrow> f i src n))
     else if i_type ip = T_SMALLFILE then
       (if off > 52 \<or> off + n < off then ret (-1)
        else
          let n = (if off + n > 52 then 52 - off else n) in
          seq (upd_inode i (\<lambda>ip. ip\<lparr>i_addrs :=
                 fold (\<lambda>k a. small_put a k (src (k - unat off))) [unat off..<unat (off + n)] (i_addrs ip)\<rparr>))
          (seq (upd_inode i (\<lambda>ip. ip\<lparr>i_size := off + n\<rparr>))
          (seq (iupdate i)
          (ret (sint n)))))
     else if off > i_size ip \<or> off + n < off then ret (-1)
     else
       let n = (if off + n > 71680 then 71680 - off else n) in
       bnd (writei_loop (Suc (unat n)) i src off n 0) (\<lambda>(off, n).
       seq (if n > 0 \<and> off > i_size ip then
              seq (upd_inode i (\<lambda>ip. ip\<lparr>i_size := off\<rparr>)) (iupdate i)
            else ret ())
       (ret (sint n))))"

section \<open>Directories\<close>

definition namecmp :: "u8 list \<Rightarrow> u8 list \<Rightarrow> int" where
  "namecmp s t = strncmp s t DIRSIZ"

definition dirent_at :: "bytes \<Rightarrow> nat \<Rightarrow> dirent" where
  "dirent_at d k = dec_dirent (rd d (16 * k) 16)"

fun dirlookup_loop :: "nat \<Rightarrow> nat \<Rightarrow> u8 list \<Rightarrow> u32 \<Rightarrow> ('a fsys_scheme, (nat \<times> u32) option) km" where
  "dirlookup_loop 0 i name off = sleep_forever"
| "dirlookup_loop (Suc fuel) i name off =
     bnd (the_inode i) (\<lambda>dp.
     if off < i_size dp then
       bnd (bmap i (off div 512)) (\<lambda>sector.
       bnd (bread (i_dev dp) sector) (\<lambda>bp.
       bnd (buf_data bp) (\<lambda>d.
       case find (\<lambda>k. de_inum (dirent_at d k) \<noteq> 0 \<and> namecmp name (de_name (dirent_at d k)) = 0) [0..<32] of
         Some k \<Rightarrow>
           seq (brelse bp)
           (bnd (iget (i_dev dp) (ucast (de_inum (dirent_at d k)))) (\<lambda>ip.
           ret (Some (ip, off + of_nat (16 * k)))))
       | None \<Rightarrow> seq (brelse bp) (dirlookup_loop fuel i name (off + 512)))))
     else ret None)"

definition dirlookup :: "nat \<Rightarrow> u8 list \<Rightarrow> ('a fsys_scheme, (nat \<times> u32) option) km" where
  "dirlookup i name =
     bnd (the_inode i) (\<lambda>dp.
     if i_type dp \<noteq> T_DIR then panic ''dirlookup not DIR''
     else dirlookup_loop (unat (i_size dp) div 512 + 2) i name 0)"

fun dirlink_loop :: "('a fsys_scheme) devtab \<Rightarrow> nat \<Rightarrow> nat \<Rightarrow> u32 \<Rightarrow> ('a fsys_scheme, u32) km" where
  "dirlink_loop dv 0 i off = sleep_forever"
| "dirlink_loop dv (Suc fuel) i off =
     bnd (the_inode i) (\<lambda>dp.
     if off < i_size dp then
       bnd (readi dv i off 16) (\<lambda>(r, bs).
       if r \<noteq> 16 then panic ''dirlink read''
       else if de_inum (dec_dirent bs) = 0 then ret off
       else dirlink_loop dv fuel i (off + 16))
     else ret off)"

definition dirlink :: "('a fsys_scheme) devtab \<Rightarrow> nat \<Rightarrow> u8 list \<Rightarrow> u32 \<Rightarrow> ('a fsys_scheme, int) km" where
  "dirlink dv i name inum =
     bnd (dirlookup i name) (\<lambda>r. case r of
       Some (ip, _) \<Rightarrow> seq (iput ip) (ret (-1))
     | None \<Rightarrow>
         bnd (the_inode i) (\<lambda>dp.
         bnd (dirlink_loop dv (unat (i_size dp) div 16 + 2) i 0) (\<lambda>off.
         let de = \<lparr>de_inum = ucast inum, de_name = strncpy name DIRSIZ\<rparr> in
         bnd (writei dv i (wr (\<lambda>_. 0) 0 (enc_dirent de)) off 16) (\<lambda>r.
         if r \<noteq> 16 then panic ''dirlink'' else ret 0))))"

section \<open>Paths\<close>

text \<open>The next element of a path and what follows it; \<open>None\<close> where \<open>skipelem\<close> returns the null pointer.\<close>

definition skipelem :: "u8 list \<Rightarrow> (u8 list \<times> u8 list) option" where
  "skipelem path =
     (let p = dropWhile (\<lambda>c. c = 47) path in
      if hd0 p = 0 then None
      else
        let s = takeWhile (\<lambda>c. c \<noteq> 47 \<and> c \<noteq> 0) p;
            name = (if length s \<ge> DIRSIZ then take DIRSIZ s else s)
        in Some (name, dropWhile (\<lambda>c. c = 47) (drop (length s) p)))"

fun namex_loop :: "nat \<Rightarrow> bool \<Rightarrow> u8 list \<Rightarrow> u8 list \<Rightarrow> nat \<Rightarrow> ('a fsys_scheme, (nat \<times> u8 list) option) km" where
  "namex_loop 0 nameiparent path name ip = sleep_forever"
| "namex_loop (Suc fuel) nameiparent path name ip =
     (case skipelem path of
        None \<Rightarrow>
          if nameiparent then seq (iput ip) (ret None) else ret (Some (ip, name))
      | Some (name, path) \<Rightarrow>
          seq (ilock ip)
          (bnd (the_inode ip) (\<lambda>i.
          if i_type i \<noteq> T_DIR then seq (iunlockput ip) (ret None)
          else if nameiparent \<and> hd0 path = 0 then seq (iunlock ip) (ret (Some (ip, name)))
          else
            bnd (dirlookup ip name) (\<lambda>r. case r of
              None \<Rightarrow> seq (iunlockput ip) (ret None)
            | Some (next, _) \<Rightarrow>
                seq (iunlockput ip)
                (namex_loop fuel nameiparent path name next)))))"

definition namex :: "nat \<Rightarrow> u8 list \<Rightarrow> bool \<Rightarrow> ('a fsys_scheme, (nat \<times> u8 list) option) km" where
  "namex cwd path nameiparent =
     bnd (if hd0 path = 47 then iget ROOTDEV ROOTINO else idup cwd) (\<lambda>ip.
     namex_loop (Suc (length path)) nameiparent path [] ip)"

definition namei :: "nat \<Rightarrow> u8 list \<Rightarrow> ('a fsys_scheme, nat option) km" where
  "namei cwd path = bnd (namex cwd path False) (\<lambda>r. ret (map_option fst r))"

definition nameiparent :: "nat \<Rightarrow> u8 list \<Rightarrow> ('a fsys_scheme, (nat \<times> u8 list) option) km" where
  "nameiparent cwd path = namex cwd path True"

end
