(* ===== verification/Kalloc.thy ===== *)
theory Kalloc
  imports Kernel_Monad
begin

text \<open>
  The page allocator \<open>kernel/kalloc.c\<close>. Physical memory is a byte array; the free pages form a list through
  their own first four bytes, as in the code. \<open>kend\<close> is the first address after the kernel, which the linker
  supplies. \<open>free_list\<close> relates the links in memory to the list of free pages.
\<close>

abbreviation PGSIZE :: u32 where "PGSIZE \<equiv> 4096"
abbreviation PHYSTOP :: u32 where "PHYSTOP \<equiv> 0x1000000"

record kmem =
  freelist :: u32
  mem :: bytes

definition kfree :: "u32 \<Rightarrow> u32 \<Rightarrow> (kmem, unit) km" where
  "kfree kend v =
     (if v mod PGSIZE \<noteq> 0 \<or> v < kend \<or> v \<ge> PHYSTOP then panic ''kfree''
      else
        seq (modify (\<lambda>s. s\<lparr>mem := wr (mem s) (unat v) (replicate 4096 1)\<rparr>))
        (modify (\<lambda>s. s\<lparr>mem := wr (mem s) (unat v) (le32 (freelist s)), freelist := v\<rparr>)))"

definition PGROUNDUP :: "u32 \<Rightarrow> u32" where
  "PGROUNDUP sz = (sz + PGSIZE - 1) AND NOT (PGSIZE - 1)"

fun kinit_loop :: "nat \<Rightarrow> u32 \<Rightarrow> u32 \<Rightarrow> (kmem, unit) km" where
  "kinit_loop 0 kend p = sleep_forever"
| "kinit_loop (Suc fuel) kend p =
     (if p + PGSIZE \<le> PHYSTOP then seq (kfree kend p) (kinit_loop fuel kend (p + PGSIZE)) else ret ())"

text \<open>There are 4096 pages below \<open>PHYSTOP\<close>, so the loop makes at most that many passes.\<close>

definition kinit :: "u32 \<Rightarrow> (kmem, unit) km" where
  "kinit kend = kinit_loop 4097 kend (PGROUNDUP kend)"

definition kalloc :: "(kmem, u32) km" where
  "kalloc = (\<lambda>s. let r = freelist s in
     Ret (r, if r \<noteq> 0 then s\<lparr>freelist := of_le32 (rd (mem s) (unat r) 4)\<rparr> else s))"

section \<open>The free list\<close>

fun chain :: "bytes \<Rightarrow> u32 \<Rightarrow> u32 list \<Rightarrow> bool" where
  "chain m p [] \<longleftrightarrow> p = 0"
| "chain m p (x # xs) \<longleftrightarrow> p = x \<and> chain m (of_le32 (rd m (unat x) 4)) xs"

text \<open>A page the allocator may hand out.\<close>

definition page_ok :: "u32 \<Rightarrow> u32 \<Rightarrow> bool" where
  "page_ok kend v \<longleftrightarrow> v mod PGSIZE = 0 \<and> kend \<le> v \<and> v < PHYSTOP \<and> v \<noteq> 0"

definition free_list :: "u32 \<Rightarrow> kmem \<Rightarrow> u32 list \<Rightarrow> bool" where
  "free_list kend s xs \<longleftrightarrow> chain (mem s) (freelist s) xs \<and> distinct xs \<and> (\<forall>x\<in>set xs. page_ok kend x)"

lemma pages_apart:
  assumes "page_ok kend a" and "page_ok kend b" and "a \<noteq> b"
  shows "unat a + 4096 \<le> unat b \<or> unat b + 4096 \<le> unat a"
proof -
  have m: "unat a mod 4096 = 0" "unat b mod 4096 = 0"
    using assms(1,2) by (auto simp: page_ok_def unat_mod simp flip: unat_eq_0)
  then obtain j k where jk: "unat a = 4096 * j" "unat b = 4096 * k" by (auto simp: mod_eq_0_iff_dvd elim!: dvdE)
  with assms(3) have "j \<noteq> k" by (metis word_unat_eq_iff)
  then show ?thesis unfolding jk by linarith
qed

lemma chain_other:
  assumes "\<forall>x\<in>set xs. page_ok kend x" and "page_ok kend v" and "v \<notin> set xs" and "length bs \<le> 4096"
  shows "chain (wr m (unat v) bs) p xs = chain m p xs"
  using assms(1,3)
proof (induction xs arbitrary: p)
  case (Cons x xs)
  have "rd (wr m (unat v) bs) (unat x) 4 = rd m (unat x) 4"
    using pages_apart [of kend x v] Cons.prems assms(2,4) by (intro rd_wr_other) auto
  with Cons show ?case by simp
qed simp

lemma kfree_list:
  assumes "free_list kend s xs" and "page_ok kend v" and "v \<notin> set xs"
  shows "run (kfree kend v) s (\<lambda>_ s'. free_list kend s' (v # xs))"
proof -
  have "chain (wr (wr (mem s) (unat v) (replicate 4096 1)) (unat v) (le32 (freelist s))) (freelist s) xs"
    using assms by (auto simp: free_list_def chain_other)
  then show ?thesis
    using assms by (simp add: kfree_def page_ok_def free_list_def run_bnd_iff rd_wr_same not_less not_le)
qed

lemma kfree_bad: "v mod PGSIZE \<noteq> 0 \<or> v < kend \<or> v \<ge> PHYSTOP \<Longrightarrow> kfree kend v s = Halt ''kfree''"
  unfolding kfree_def by (simp only: if_True panic_def)

lemma kalloc_list:
  assumes "free_list kend s xs"
  shows "run kalloc s (\<lambda>r s'. mem s' = mem s \<and>
    (case xs of [] \<Rightarrow> r = 0 \<and> s' = s | x # ys \<Rightarrow> r = x \<and> free_list kend s' ys))"
  using assms by (cases xs) (auto simp: kalloc_def run_def free_list_def page_ok_def Let_def)

section \<open>Filling the list\<close>

definition page :: "nat \<Rightarrow> u32" where
  "page j = of_nat (4096 * j)"

lemma unat_page: "j \<le> 4097 \<Longrightarrow> unat (page j) = 4096 * j"
  unfolding page_def unat_of_nat by (rule mod_less) simp

lemma page_less: "j < 4096 \<Longrightarrow> page j < PHYSTOP" "j \<le> 4096 \<Longrightarrow> (page j + PGSIZE \<le> PHYSTOP) = (j < 4096)"
  "page j + PGSIZE = page (Suc j)"
proof -
  show s: "page j + PGSIZE = page (Suc j)" by (simp add: page_def)
  show "j < 4096 \<Longrightarrow> page j < PHYSTOP" using unat_page [of j] by (simp add: word_less_nat_alt)
  assume j: "j \<le> 4096"
  have "unat (page (Suc j)) = 4096 * Suc j" using j by (intro unat_page) simp
  then show "(page j + PGSIZE \<le> PHYSTOP) = (j < 4096)" unfolding s word_le_nat_alt by simp arith
qed

lemma page_ok_page:
  assumes "kend \<le> page j" and "0 < j" and "j < 4096"
  shows "page_ok kend (page j)"
proof -
  have "unat (page j mod PGSIZE) = 0" using unat_page [of j] assms by (simp add: unat_mod)
  then have "page j mod PGSIZE = 0" by (simp add: unat_eq_0)
  moreover have "page j \<noteq> 0" using unat_page [of j] assms by auto
  ultimately show ?thesis using assms page_less(1) by (simp add: page_ok_def)
qed

lemma kinit_loop_fills:
  assumes "free_list kend s xs" and "j \<le> 4096" and "4096 - j < fuel" and "0 < j" and "kend \<le> page j"
    and "\<forall>x\<in>set xs. \<exists>i<j. x = page i"
  shows "run (kinit_loop fuel kend (page j)) s (\<lambda>_ s'. free_list kend s' (rev (map page [j..<4096]) @ xs))"
  using assms
proof (induction fuel arbitrary: j s xs)
  case (Suc fuel)
  show ?case
  proof (cases "j < 4096")
    case True
    have u: "unat (page j) = 4096 * j" using True by (simp add: unat_page)
    have new: "page j \<notin> set xs"
    proof
      assume "page j \<in> set xs"
      then obtain i where "i < j" "page j = page i" using Suc.prems(6) by auto
      then show False using True unat_page [of i] unat_page [of j] by auto
    qed
    have k: "run (kfree kend (page j)) s (\<lambda>_ s'. free_list kend s' (page j # xs))"
      by (rule kfree_list [OF Suc.prems(1) page_ok_page [OF Suc.prems(5,4) True] new])
    have le: "kend \<le> page (Suc j)"
      using Suc.prems(5) True unat_page [of j] unat_page [of "Suc j"] by (simp add: word_le_nat_alt)
    have "run (kinit_loop fuel kend (page (Suc j))) s' (\<lambda>_ s''. free_list kend s'' (rev (map page [Suc j..<4096]) @ page j # xs))"
      if "free_list kend s' (page j # xs)" for s'
      using Suc.prems True that le by (intro Suc.IH) (auto simp: less_Suc_eq)
    then have "run (seq (kfree kend (page j)) (kinit_loop fuel kend (page j + PGSIZE))) s
        (\<lambda>_ s''. free_list kend s'' (rev (map page [Suc j..<4096]) @ page j # xs))"
      unfolding page_less(3) by (rule run_bnd [OF k])
    moreover have "rev (map page [j..<4096]) @ xs = rev (map page [Suc j..<4096]) @ page j # xs"
      using True by (simp add: upt_conv_Cons)
    ultimately show ?thesis using page_less(2) [OF Suc.prems(2)] True by simp
  next
    case False
    then show ?thesis using page_less(2) [OF Suc.prems(2)] Suc.prems by (simp add: run_def)
  qed
qed simp

lemma and_not_mask_div: "(x :: u32) AND NOT (mask n) = x div 2 ^ n * 2 ^ n" if "n < 32"
proof -
  have "x AND NOT (mask n) = push_bit n (drop_bit n x)"
    by (rule bit_eqI) (auto simp: bit_simps)
  then show ?thesis by (simp add: push_bit_eq_mult drop_bit_eq_div)
qed

lemma PGROUNDUP_page:
  assumes "kend \<le> PHYSTOP"
  shows "PGROUNDUP kend = page ((unat kend + 4095) div 4096)"
proof -
  have k: "unat kend \<le> 16777216" using assms by (simp add: word_le_nat_alt)
  have u: "unat (kend + 4095) = unat kend + 4095"
    using k by (simp add: unat_word_ariths)
  have "PGROUNDUP kend = (kend + 4095) AND NOT (mask 12)"
    by (simp add: PGROUNDUP_def mask_eq_exp_minus_1 algebra_simps)
  also have "\<dots> = (kend + 4095) div 4096 * 4096" by (simp add: and_not_mask_div)
  also have "(kend + 4095) div 4096 = of_nat ((unat kend + 4095) div 4096)"
    by (simp add: u word_arith_nat_div)
  finally show ?thesis by (simp add: page_def)
qed

lemma kinit_fills:
  assumes "0 < kend" and "kend \<le> PHYSTOP" and "freelist s = 0"
  shows "run (kinit kend) s (\<lambda>_ s'. free_list kend s' (rev (map page [(unat kend + 4095) div 4096..<4096])))"
proof -
  let ?j = "(unat kend + 4095) div 4096"
  have k: "unat kend \<le> 16777216" "0 < unat kend" using assms by (simp_all add: word_le_nat_alt unat_gt_0)
  have j: "?j \<le> 4096" "0 < ?j" using k by linarith+
  have "unat kend \<le> unat (page ?j)" using unat_page [of ?j] j by simp
  then have le: "kend \<le> page ?j" by (simp add: word_le_nat_alt)
  have "free_list kend s []" using assms(3) by (simp add: free_list_def)
  from kinit_loop_fills [OF this j(1) _ j(2) le, of 4097] show ?thesis
    by (simp add: kinit_def PGROUNDUP_page [OF assms(2)] del: kinit_loop.simps)
qed

section \<open>Properties\<close>

text \<open>C0. After \<open>kinit\<close> the free list holds every page between the end of the kernel and \<open>PHYSTOP\<close>, each once,
  highest address first, and nothing else; \<open>kinit\<close> returns.\<close>

theorem kinit_frees_all_pages:
  assumes "0 < kend" and "kend \<le> PHYSTOP" and "freelist s = 0"
  shows "run (kinit kend) s (\<lambda>_ s'. free_list kend s' (rev (map page [(unat kend + 4095) div 4096..<4096])))"
  by (rule kinit_fills [OF assms])

theorem kinit_frees_all_pages_witness:
  "run (kinit 0x108000) \<lparr>freelist = 0, mem = (\<lambda>_. 7)\<rparr>
     (\<lambda>_ s'. free_list 0x108000 s' (rev (map page [(unat (0x108000 :: u32) + 4095) div 4096..<4096])))"
  by (rule kinit_frees_all_pages) simp_all

text \<open>C0. The allocator keeps its free list: \<open>kalloc\<close> takes the first page off it, or returns 0 when it is
  empty; \<open>kfree\<close> of a page that is not on it puts it first, so that the next \<open>kalloc\<close> returns it; and what \<open>kalloc\<close> returns is a
  page of its own, aligned, in range and on the list no longer.\<close>

theorem kalloc_kfree_keep_list:
  assumes "free_list kend s xs" and "page_ok kend v" and "v \<notin> set xs"
  shows "run (kfree kend v) s (\<lambda>_ s'. free_list kend s' (v # xs)) \<and>
    run (seq (kfree kend v) kalloc) s (\<lambda>r s'. r = v \<and> free_list kend s' xs) \<and>
    run kalloc s (\<lambda>r s'. if xs = [] then r = 0 \<and> s' = s
      else r = hd xs \<and> page_ok kend r \<and> r \<notin> set (tl xs) \<and> free_list kend s' (tl xs))"
proof -
  have f: "run (kfree kend v) s (\<lambda>_ s'. free_list kend s' (v # xs))" by (rule kfree_list [OF assms])
  have "run (seq (kfree kend v) kalloc) s (\<lambda>r s'. r = v \<and> free_list kend s' xs)"
    by (rule run_bnd [OF f]) (drule kalloc_list, erule run_weaken, simp)
  moreover have "run kalloc s (\<lambda>r s'. if xs = [] then r = 0 \<and> s' = s
      else r = hd xs \<and> page_ok kend r \<and> r \<notin> set (tl xs) \<and> free_list kend s' (tl xs))"
    using kalloc_list [OF assms(1)] assms(1) by (elim run_weaken) (cases xs, auto simp: free_list_def)
  ultimately show ?thesis using f by blast
qed

theorem kalloc_kfree_keep_list_witness:
  "run (seq (kfree 0x108000 0x200000) kalloc) \<lparr>freelist = 0, mem = (\<lambda>_. 7)\<rparr> (\<lambda>r s'. r = 0x200000 \<and> free_list 0x108000 s' [])"
proof -
  have "free_list 0x108000 \<lparr>freelist = 0, mem = (\<lambda>_. 7)\<rparr> []" by (simp add: free_list_def)
  moreover have "page_ok 0x108000 0x200000" by (simp add: page_ok_def)
  ultimately show ?thesis using kalloc_kfree_keep_list [of "0x108000" _ "[]" "0x200000"] by simp
qed

end
