(* ===== verification/Ring_Buffer.thy ===== *)
theory Ring_Buffer
  imports Kernel_Monad
begin

text \<open>
  Ring buffers with free-running 32-bit indices, as the pipe and the console keep them: the stored bytes are those
  from index \<open>r\<close> to index \<open>w\<close>, each index reduced modulo the size \<open>N\<close>. \<open>seg\<close> is the list of these
  bytes. The locale \<open>bounded_fifo\<close> is the contract of a bounded queue; its lemmas are about bursts of
  insertions and removals.
\<close>

section \<open>Segments\<close>

definition seg :: "nat \<Rightarrow> bytes \<Rightarrow> u32 \<Rightarrow> u32 \<Rightarrow> u8 list" where
  "seg N d r w = map (\<lambda>k. d (unat (r + of_nat k) mod N)) [0..<unat (w - r)]"

definition ring_size :: "nat \<Rightarrow> bool" where
  "ring_size N \<longleftrightarrow> 0 < N \<and> N < 2147483648 \<and> N dvd 4294967296"

lemma length_seg [simp]: "length (seg N d r w) = unat (w - r)"
  by (simp add: seg_def)

lemma seg_eq_Nil [simp]: "seg N d r w = [] \<longleftrightarrow> r = w"
  by (auto simp: seg_def unat_eq_0)

lemma unat_diff_Suc: "unat (w - r) < 4294967295 \<Longrightarrow> unat (w + 1 - r) = Suc (unat (w - r))" for w r :: u32
proof -
  assume "unat (w - r) < 4294967295"
  then have "unat (w - r + 1) = Suc (unat (w - r))" by (simp add: unat_word_ariths)
  moreover have "w + 1 - r = w - r + 1" by (simp add: algebra_simps)
  ultimately show ?thesis by metis
qed

lemma unat_diff_pred: "r \<noteq> w \<Longrightarrow> unat (w - r) = Suc (unat (w - (r + 1)))" for w r :: u32
proof -
  assume "r \<noteq> w"
  then have "w - r \<noteq> 0" by simp
  then have "unat (w - r) = Suc (unat (w - r - 1))" by (simp add: unat_minus_one unat_gt_0 Suc_pred)
  then show ?thesis by (simp add: diff_diff_eq)
qed

text \<open>Reducing an index modulo the size is compatible with the wrap-around of the index.\<close>

lemma index_mod:
  assumes "ring_size N"
  shows "unat (r + of_nat k :: u32) mod N = (unat r + k) mod N"
proof -
  have d: "N dvd 4294967296" using assms by (simp add: ring_size_def)
  have "unat (r + of_nat k :: u32) = (unat r + k) mod 4294967296" by (simp add: unat_word_ariths unat_of_nat mod_simps)
  then show ?thesis using d by (simp add: mod_mod_cancel)
qed

lemma index_inj:
  assumes "ring_size N" and "j < N" and "k < N" and "unat (r + of_nat j :: u32) mod N = unat (r + of_nat k) mod N"
  shows "j = k"
proof -
  have "(unat r + j) mod N = (unat r + k) mod N" using assms(1,4) by (simp add: index_mod)
  then have "int (unat r + j) mod int N = int (unat r + k) mod int N" by (metis of_nat_mod)
  then have "int N dvd int j - int k" by (simp add: mod_eq_dvd_iff)
  moreover have "\<bar>int j - int k\<bar> < int N" using assms(2,3) by linarith
  ultimately show ?thesis using dvd_imp_le_int [of "int j - int k" "int N"] by (cases "int j = int k") auto
qed

lemma seg_put:
  assumes N: "ring_size N" and len: "unat (w - r) < N"
  shows "seg N (d(unat w mod N := c)) r (w + 1) = seg N d r w @ [c]"
proof -
  define n where "n = unat (w - r)"
  have w: "w = r + of_nat n" and nN: "n < N" using len by (simp_all add: n_def)
  have "N < 2147483648" using N unfolding ring_size_def by blast
  then have n: "unat (w + 1 - r) = Suc n" using len unfolding n_def by (intro unat_diff_Suc) linarith
  have ne: "unat (r + of_nat k) mod N \<noteq> unat w mod N" if "k < n" for k
  proof
    assume "unat (r + of_nat k) mod N = unat w mod N"
    then have "unat (r + of_nat k) mod N = unat (r + of_nat n) mod N" by (simp only: w)
    from index_inj [OF N less_trans [OF that nN] nN this] that show False by simp
  qed
  have "seg N (d(unat w mod N := c)) r (w + 1) =
      map (\<lambda>k. (d(unat w mod N := c)) (unat (r + of_nat k) mod N)) [0..<n] @ [(d(unat w mod N := c)) (unat (r + of_nat n) mod N)]"
    by (simp add: seg_def n)
  also have "map (\<lambda>k. (d(unat w mod N := c)) (unat (r + of_nat k) mod N)) [0..<n] = seg N d r w"
    using ne by (auto simp: seg_def simp flip: n_def)
  finally show ?thesis by (simp only: w [symmetric] fun_upd_same)
qed

lemma seg_get: "r \<noteq> w \<Longrightarrow> seg N d r w = d (unat r mod N) # seg N d (r + 1) w"
  unfolding seg_def by (subst unat_diff_pred, assumption) (simp add: upt_conv_Cons map_Suc_upt [symmetric] comp_def algebra_simps del: upt_Suc)

lemma seg_unput: "r \<noteq> e \<Longrightarrow> seg N d r e = seg N d r (e - 1) @ [d (unat (e - 1) mod N)]"
proof -
  assume "r \<noteq> e"
  then have n: "unat (e - r) = Suc (unat (e - 1 - r))"
    using unat_diff_pred [of r e] by (simp add: algebra_simps)
  have "r + of_nat (unat (e - 1 - r)) = e - 1" by simp
  then show ?thesis by (simp add: seg_def n)
qed

lemma seg_split:
  assumes "unat (e - r) = unat (w - r) + unat (e - w)"
  shows "seg N d r e = seg N d r w @ seg N d w e"
proof (rule nth_equalityI)
  fix k
  assume "k < length (seg N d r e)"
  then have k: "k < unat (e - r)" by simp
  show "seg N d r e ! k = (seg N d r w @ seg N d w e) ! k"
  proof (cases "k < unat (w - r)")
    case False
    have "w + of_nat (k - unat (w - r)) = r + of_nat (unat (w - r) + (k - unat (w - r)))" by (simp add: algebra_simps)
    then have "w + of_nat (k - unat (w - r)) = r + of_nat k" using False by (simp del: of_nat_add)
    then show ?thesis using False k assms by (simp add: seg_def nth_append add.commute)
  qed (use k in \<open>simp add: seg_def nth_append\<close>)
qed (simp add: assms)

text \<open>Storing at index \<open>e\<close> does not disturb what lies before it.\<close>

lemma seg_put_other:
  assumes N: "ring_size N" and len: "unat (e - r) < N" and w: "unat (w - r) \<le> unat (e - r)"
  shows "seg N (d(unat e mod N := c)) r w = seg N d r w"
  unfolding seg_def
proof (rule map_cong [OF refl])
  fix k
  assume "k \<in> set [0..<unat (w - r)]"
  then have k: "k < unat (e - r)" using w by simp
  have e: "e = r + of_nat (unat (e - r))" by simp
  have "unat (r + of_nat k) mod N \<noteq> unat e mod N"
  proof
    assume "unat (r + of_nat k) mod N = unat e mod N"
    then have "unat (r + of_nat k) mod N = unat (r + of_nat (unat (e - r))) mod N" by (simp only: e [symmetric])
    from index_inj [OF N less_trans [OF k len] len this] k show False by simp
  qed
  then show "(d(unat e mod N := c)) (unat (r + of_nat k) mod N) = d (unat (r + of_nat k) mod N)" by simp
qed

section \<open>Bounded queues\<close>

text \<open>Take up to \<open>n\<close> elements, stopping when the queue is empty.\<close>

fun drain :: "('s \<Rightarrow> bool) \<Rightarrow> ('s \<Rightarrow> 'a \<times> 's) \<Rightarrow> nat \<Rightarrow> 's \<Rightarrow> 'a list \<times> 's" where
  "drain none get 0 s = ([], s)"
| "drain none get (Suc n) s = (if none s then ([], s)
     else let (x, s) = get s; (xs, s) = drain none get n s in (x # xs, s))"

locale bounded_fifo =
  fixes contents :: "'s \<Rightarrow> 'a list" and cap :: nat and put :: "'a \<Rightarrow> 's \<Rightarrow> 's" and get :: "'s \<Rightarrow> 'a \<times> 's" and ok :: "'s \<Rightarrow> bool"
  assumes bounded: "ok s \<Longrightarrow> length (contents s) \<le> cap"
    and put_law: "ok s \<Longrightarrow> length (contents s) < cap \<Longrightarrow> ok (put x s) \<and> contents (put x s) = contents s @ [x]"
    and get_law: "ok s \<Longrightarrow> contents s = x # xs \<Longrightarrow> fst (get s) = x \<and> ok (snd (get s)) \<and> contents (snd (get s)) = xs"
begin

lemma puts_law:
  "ok s \<Longrightarrow> length (contents s) + length xs \<le> cap \<Longrightarrow> ok (fold put xs s) \<and> contents (fold put xs s) = contents s @ xs"
proof (induction xs arbitrary: s)
  case (Cons x xs)
  then show ?case using put_law [of s x] by simp
qed simp

lemma drain_law:
  assumes "\<And>s. ok s \<Longrightarrow> none s \<longleftrightarrow> contents s = []"
  shows "ok s \<Longrightarrow> fst (drain none get n s) = take n (contents s) \<and> ok (snd (drain none get n s)) \<and>
    contents (snd (drain none get n s)) = drop n (contents s)"
proof (induction n arbitrary: s)
  case (Suc n)
  have e: "none s \<longleftrightarrow> contents s = []" by (rule assms [OF Suc.prems])
  show ?case
  proof (cases "contents s")
    case Nil
    with e have "drain none get (Suc n) s = ([], s)" by simp
    with Nil Suc.prems show ?thesis by simp
  next
    case (Cons x xs)
    note g = get_law [OF Suc.prems Cons]
    have "drain none get (Suc n) s = (x # fst (drain none get n (snd (get s))), snd (drain none get n (snd (get s))))"
      using e Cons g by (simp add: split_beta Let_def)
    with Suc.IH [of "snd (get s)"] g Cons show ?thesis by simp
  qed
qed simp

end

end
