(* ===== verification/Pipe.thy ===== *)
theory Pipe
  imports Ring_Buffer
begin

text \<open>
  Pipes, \<open>kernel/pipe.c\<close>. Between two sleeps a reader or a writer runs with the pipe locked; \<open>pipewrite_from\<close> and
  \<open>piperead_from\<close> are such a run, which ends with a result or with the process asleep. The step
  relation \<open>pipe_step\<close> interleaves runs of any writers and readers and the closing of either end. The pipe refines a
  bounded queue; \<open>pipealloc\<close> and the calls from \<open>kernel/file.c\<close> are in theory \<open>File\<close>.
\<close>

abbreviation PIPESIZE :: nat where "PIPESIZE \<equiv> 512"

record pipe =
  p_data :: bytes
  p_nread :: u32
  p_nwrite :: u32
  p_readopen :: bool
  p_writeopen :: bool

definition pipe_put :: "u8 \<Rightarrow> pipe \<Rightarrow> pipe" where
  "pipe_put c p = p\<lparr>p_data := (p_data p)(unat (p_nwrite p) mod PIPESIZE := c), p_nwrite := p_nwrite p + 1\<rparr>"

definition pipe_get :: "pipe \<Rightarrow> u8 \<times> pipe" where
  "pipe_get p = (p_data p (unat (p_nread p) mod PIPESIZE), p\<lparr>p_nread := p_nread p + 1\<rparr>)"

definition pipe_empty :: "pipe \<Rightarrow> bool" where
  "pipe_empty p \<longleftrightarrow> p_nread p = p_nwrite p"

datatype wres = WDone | WFail | WSleep "u8 list"

text \<open>A writer with the bytes \<open>cs\<close> still to write; \<open>killed\<close> is \<open>proc->killed\<close>.\<close>

fun pipewrite_from :: "bool \<Rightarrow> u8 list \<Rightarrow> pipe \<Rightarrow> wres \<times> pipe" where
  "pipewrite_from killed [] p = (WDone, p)"
| "pipewrite_from killed (c # cs) p =
     (if p_nwrite p = p_nread p + 512 then
        (if \<not> p_readopen p \<or> killed then WFail else WSleep (c # cs), p)
      else pipewrite_from killed cs (pipe_put c p))"

datatype rres = RDone "u8 list" | RFail | RSleep

definition piperead_from :: "bool \<Rightarrow> nat \<Rightarrow> pipe \<Rightarrow> rres \<times> pipe" where
  "piperead_from killed n p =
     (if pipe_empty p \<and> p_writeopen p then (if killed then RFail else RSleep, p)
      else let (bs, p) = drain pipe_empty pipe_get n p in (RDone bs, p))"

text \<open>Closing an end; the flag says that both ends are closed, so that the page goes back to the allocator.\<close>

definition pipeclose_end :: "bool \<Rightarrow> pipe \<Rightarrow> bool \<times> pipe" where
  "pipeclose_end writable p =
     (let p = (if writable then p\<lparr>p_writeopen := False\<rparr> else p\<lparr>p_readopen := False\<rparr>)
      in (\<not> p_readopen p \<and> \<not> p_writeopen p, p))"

definition pipe_init :: "pipe \<Rightarrow> pipe" where
  "pipe_init p = p\<lparr>p_readopen := True, p_writeopen := True, p_nwrite := 0, p_nread := 0\<rparr>"

section \<open>The queue\<close>

definition pipe_contents :: "pipe \<Rightarrow> u8 list" where
  "pipe_contents p = seg PIPESIZE (p_data p) (p_nread p) (p_nwrite p)"

definition pipe_ok :: "pipe \<Rightarrow> bool" where
  "pipe_ok p \<longleftrightarrow> unat (p_nwrite p - p_nread p) \<le> PIPESIZE"

lemma ring_size_512: "ring_size PIPESIZE"
  by (simp add: ring_size_def)

lemma pipe_full_iff: "p_nwrite p = p_nread p + 512 \<longleftrightarrow> length (pipe_contents p) = PIPESIZE"
proof -
  have "p_nwrite p = p_nread p + 512 \<longleftrightarrow> p_nwrite p - p_nread p = 512" by (auto simp: algebra_simps)
  also have "\<dots> \<longleftrightarrow> unat (p_nwrite p - p_nread p) = 512" by (simp add: word_unat_eq_iff)
  finally show ?thesis by (simp add: pipe_contents_def)
qed

lemma pipe_empty_iff: "pipe_empty p \<longleftrightarrow> pipe_contents p = []"
  by (auto simp: pipe_empty_def pipe_contents_def)

interpretation pipe: bounded_fifo pipe_contents PIPESIZE pipe_put pipe_get pipe_ok
proof
  fix p c
  assume "pipe_ok p" and len: "length (pipe_contents p) < PIPESIZE"
  then have n: "unat (p_nwrite p - p_nread p) < PIPESIZE" by (simp add: pipe_contents_def)
  have "pipe_contents (pipe_put c p) = pipe_contents p @ [c]"
    unfolding pipe_contents_def pipe_put_def using seg_put [OF ring_size_512 n, of "p_data p" c] by simp
  moreover have "unat (p_nwrite p + 1 - p_nread p) = Suc (unat (p_nwrite p - p_nread p))"
    using n by (intro unat_diff_Suc) linarith
  ultimately show "pipe_ok (pipe_put c p) \<and> pipe_contents (pipe_put c p) = pipe_contents p @ [c]"
    using n by (simp add: pipe_ok_def pipe_put_def)
next
  fix p x xs
  assume ok: "pipe_ok p" and c: "pipe_contents p = x # xs"
  have ne: "p_nread p \<noteq> p_nwrite p"
  proof
    assume "p_nread p = p_nwrite p"
    then have "pipe_contents p = []" by (simp add: pipe_contents_def)
    with c show False by simp
  qed
  have "unat (p_nwrite p - (p_nread p + 1)) \<le> PIPESIZE"
    using unat_diff_pred [OF ne] ok by (simp add: pipe_ok_def)
  then show "fst (pipe_get p) = x \<and> pipe_ok (snd (pipe_get p)) \<and> pipe_contents (snd (pipe_get p)) = xs"
    using c seg_get [OF ne, of PIPESIZE "p_data p"] by (simp add: pipe_get_def pipe_contents_def pipe_ok_def)
qed (simp add: pipe_contents_def pipe_ok_def)

text \<open>How many of the bytes \<open>cs\<close> a run of the writer puts in, and how it ends.\<close>

definition room :: "pipe \<Rightarrow> nat" where
  "room p = PIPESIZE - length (pipe_contents p)"

lemma pipewrite_from_law:
  assumes "pipe_ok p"
  shows "pipe_ok (snd (pipewrite_from killed cs p)) \<and>
    pipe_contents (snd (pipewrite_from killed cs p)) = pipe_contents p @ take (room p) cs \<and>
    fst (pipewrite_from killed cs p) = (if length cs \<le> room p then WDone
      else if \<not> p_readopen p \<or> killed then WFail else WSleep (drop (room p) cs))"
  using assms
proof (induction cs arbitrary: p)
  case (Cons c cs)
  show ?case
  proof (cases "length (pipe_contents p) = PIPESIZE")
    case True
    then show ?thesis using Cons.prems pipe_full_iff [of p] by (simp add: room_def)
  next
    case False
    then have "length (pipe_contents p) < PIPESIZE" using pipe.bounded [OF Cons.prems] by simp
    note put = pipe.put_law [OF Cons.prems this, of c]
    have r: "room p = Suc (room (pipe_put c p))" and o: "p_readopen (pipe_put c p) = p_readopen p"
      using put \<open>length (pipe_contents p) < PIPESIZE\<close> by (simp_all add: room_def pipe_put_def)
    show ?thesis using Cons.IH [OF conjunct1 [OF put]] put False pipe_full_iff [of p] by (simp add: r o)
  qed
qed simp

lemma piperead_from_law:
  assumes "pipe_ok p"
  shows "piperead_from killed n p = (if pipe_contents p = [] \<and> p_writeopen p then (if killed then RFail else RSleep, p)
      else (RDone (take n (pipe_contents p)), snd (drain pipe_empty pipe_get n p)))" (is ?A)
    and "pipe_ok (snd (drain pipe_empty pipe_get n p))"
    and "pipe_contents (snd (drain pipe_empty pipe_get n p)) = drop n (pipe_contents p)"
  using pipe.drain_law [of pipe_empty p n] assms by (simp_all add: pipe_empty_iff piperead_from_def split_beta Let_def)

section \<open>Interleavings\<close>

text \<open>
  The state of a pipe in use: the pipe, the bytes writers have put in so far and the bytes readers have taken out so
  far. A step is one run of a writer, which advances the write counter by the number of bytes it puts in, one run of a reader, or the closing of an end.
\<close>

type_synonym pipe_state = "pipe \<times> u8 list \<times> u8 list"

inductive pipe_step :: "pipe_state \<Rightarrow> pipe_state \<Rightarrow> bool" where
  writer: "pipewrite_from killed cs p = (r, p') \<Longrightarrow>
    pipe_step (p, sent, got) (p', sent @ take (unat (p_nwrite p' - p_nwrite p)) cs, got)"
| reader: "piperead_from killed n p = (RDone bs, p') \<Longrightarrow> pipe_step (p, sent, got) (p', sent, got @ bs)"
| closer: "pipeclose_end writable p = (f, p') \<Longrightarrow> pipe_step (p, sent, got) (p', sent, got)"

inductive_cases pipe_stepE: "pipe_step st st'"

definition fifo_inv :: "pipe_state \<Rightarrow> bool" where
  "fifo_inv st \<longleftrightarrow> (case st of (p, sent, got) \<Rightarrow> pipe_ok p \<and> sent = got @ pipe_contents p)"

lemma pipeclose_end_same:
  "pipeclose_end writable p = (f, p') \<Longrightarrow> pipe_contents p' = pipe_contents p \<and> pipe_ok p' = pipe_ok p"
  by (auto simp: pipeclose_end_def pipe_contents_def pipe_ok_def Let_def split: if_splits)

lemma pipewrite_from_nread: "p_nread (snd (pipewrite_from killed cs p)) = p_nread p"
  by (induction killed cs p rule: pipewrite_from.induct) (simp_all add: pipe_put_def)

lemma pipewrite_from_count:
  assumes ok: "pipe_ok p" and r: "pipewrite_from killed cs p = (r, p')"
  shows "take (unat (p_nwrite p' - p_nwrite p)) cs = take (room p) cs"
proof -
  note w = pipewrite_from_law [OF ok, of killed cs, unfolded r fst_conv snd_conv]
  have "p_nread p' = p_nread p" using pipewrite_from_nread [of killed cs p] by (simp add: r)
  then have l: "unat (p_nwrite p' - p_nread p) = unat (p_nwrite p - p_nread p) + length (take (room p) cs)"
    using arg_cong [OF conjunct1 [OF conjunct2 [OF w]], of length] by (simp add: pipe_contents_def)
  have "p_nwrite p' - p_nwrite p = (p_nwrite p' - p_nread p) - (p_nwrite p - p_nread p)" by simp
  then have "unat (p_nwrite p' - p_nwrite p) = unat (p_nwrite p' - p_nread p) - unat (p_nwrite p - p_nread p)"
    using l unat_sub [of "p_nwrite p - p_nread p" "p_nwrite p' - p_nread p"] by (simp add: word_le_nat_alt)
  then show ?thesis using l by (simp add: min_def)
qed

lemma fifo_inv_step:
  assumes "pipe_step st st'" and "fifo_inv st"
  shows "fifo_inv st'"
  using assms
proof cases
  case (writer killed cs p r p' sent got)
  have ok: "pipe_ok p" and s: "sent = got @ pipe_contents p" using assms(2) writer by (auto simp: fifo_inv_def)
  show ?thesis using pipewrite_from_law [OF ok, of killed cs] pipewrite_from_count [OF ok writer(3)] s
    by (simp add: writer fifo_inv_def)
next
  case (reader killed n p bs p' sent got)
  then show ?thesis using assms(2) piperead_from_law [of p]
    by (auto simp: fifo_inv_def split: if_splits)
next
  case (closer writable p f p' sent got)
  then show ?thesis using assms(2) pipeclose_end_same [of writable p f p'] by (auto simp: fifo_inv_def)
qed

lemma fifo_inv_reach: "pipe_step\<^sup>*\<^sup>* st st' \<Longrightarrow> fifo_inv st \<Longrightarrow> fifo_inv st'"
  by (induction rule: rtranclp_induct) (auto intro: fifo_inv_step)

lemma pipe_init_inv: "fifo_inv (pipe_init p, [], [])"
  by (simp add: fifo_inv_def pipe_init_def pipe_ok_def pipe_contents_def seg_def)

section \<open>Sleeping and waking\<close>

text \<open>
  Who sleeps where: a reader sleeps on \<open>&p->nread\<close>, a writer on \<open>&p->nwrite\<close>. A turn is a run of a process together with the
  \<open>wakeup\<close> calls it makes and the \<open>sleep\<close> it ends in: a writer that finds the pipe full wakes the readers and sleeps, one that is done wakes
  them and returns, one that fails returns at once; a reader wakes the writers when it has read; closing an end wakes the other side.
\<close>

datatype pchan = Nread | Nwrite

type_synonym sleepers = "nat \<Rightarrow> pchan option"

definition pipe_wakeup :: "pchan \<Rightarrow> sleepers \<Rightarrow> sleepers" where
  "pipe_wakeup ch sl = (\<lambda>i. if sl i = Some ch then None else sl i)"

definition write_turn :: "nat \<Rightarrow> bool \<Rightarrow> u8 list \<Rightarrow> pipe \<times> sleepers \<Rightarrow> pipe \<times> sleepers" where
  "write_turn i killed cs st =
     (case pipewrite_from killed cs (fst st) of
        (WDone, p) \<Rightarrow> (p, pipe_wakeup Nread (snd st))
      | (WSleep rest, p) \<Rightarrow> (p, (pipe_wakeup Nread (snd st))(i \<mapsto> Nwrite))
      | (WFail, p) \<Rightarrow> (p, snd st))"

definition read_turn :: "nat \<Rightarrow> bool \<Rightarrow> nat \<Rightarrow> pipe \<times> sleepers \<Rightarrow> pipe \<times> sleepers" where
  "read_turn i killed n st =
     (case piperead_from killed n (fst st) of
        (RDone bs, p) \<Rightarrow> (p, pipe_wakeup Nwrite (snd st))
      | (RSleep, p) \<Rightarrow> (p, (snd st)(i \<mapsto> Nread))
      | (RFail, p) \<Rightarrow> (p, snd st))"

definition close_turn :: "bool \<Rightarrow> pipe \<times> sleepers \<Rightarrow> pipe \<times> sleepers" where
  "close_turn writable st =
     (snd (pipeclose_end writable (fst st)), pipe_wakeup (if writable then Nread else Nwrite) (snd st))"

text \<open>
  Turns of processes that are not asleep, in any order, and \<open>kill\<close>, which makes a sleeping process runnable. A process
  in \<open>piperead\<close> holds the read end open, so that the end is open when it reads and is closed only while nobody sleeps there; and a writer that is killed is not cut short by a full pipe, for
  it would return without waking the readers of the bytes it has put in.
\<close>

inductive pipe_turn :: "pipe \<times> sleepers \<Rightarrow> pipe \<times> sleepers \<Rightarrow> bool" where
  writer: "snd st i = None \<Longrightarrow> \<not> killed \<or> length cs \<le> room (fst st) \<Longrightarrow> pipe_turn st (write_turn i killed cs st)"
| reader: "snd st i = None \<Longrightarrow> p_readopen (fst st) \<Longrightarrow> pipe_turn st (read_turn i killed n st)"
| closer: "writable \<or> (\<forall>i. snd st i \<noteq> Some Nread) \<Longrightarrow> pipe_turn st (close_turn writable st)"
| kill: "pipe_turn st (fst st, (snd st)(i := None))"

text \<open>Whoever sleeps has to wait: a reader for bytes, with a writer left to put them in, a writer for room, with a reader left to make it.\<close>

definition wait_inv :: "pipe \<times> sleepers \<Rightarrow> bool" where
  "wait_inv st \<longleftrightarrow> pipe_ok (fst st) \<and>
     (\<forall>i. snd st i = Some Nread \<longrightarrow> pipe_contents (fst st) = [] \<and> p_writeopen (fst st) \<and> p_readopen (fst st)) \<and>
     (\<forall>i. snd st i = Some Nwrite \<longrightarrow> room (fst st) = 0 \<and> p_readopen (fst st))"

lemma pipe_wakeup_iff [simp]: "pipe_wakeup ch sl i = Some c \<longleftrightarrow> sl i = Some c \<and> c \<noteq> ch"
  by (auto simp: pipe_wakeup_def)

lemma pipewrite_from_open [simp]:
  "p_readopen (snd (pipewrite_from killed cs p)) = p_readopen p" "p_writeopen (snd (pipewrite_from killed cs p)) = p_writeopen p"
  by (induction killed cs p rule: pipewrite_from.induct) (simp_all add: pipe_put_def)

lemma wait_inv_write:
  assumes "wait_inv st" and "\<not> killed \<or> length cs \<le> room (fst st)"
  shows "wait_inv (write_turn i killed cs st)"
proof -
  obtain p sl where st: "st = (p, sl)" by (cases st)
  obtain r p' where w: "pipewrite_from killed cs p = (r, p')" by (cases "pipewrite_from killed cs p")
  have ok: "pipe_ok p" using assms(1) by (simp add: st wait_inv_def)
  note l = pipewrite_from_law [OF ok, of killed cs, unfolded w fst_conv snd_conv] and o = pipewrite_from_open [of killed cs p, unfolded w snd_conv]
  have t: "write_turn i killed cs st = (p', case r of WDone \<Rightarrow> pipe_wakeup Nread sl | WSleep rest \<Rightarrow> (pipe_wakeup Nread sl)(i \<mapsto> Nwrite) | WFail \<Rightarrow> sl)"
    by (simp add: write_turn_def st w split: wres.splits)
  have full: "room p' = 0" if "room p \<le> length cs"
    using l that pipe.bounded [OF ok] by (simp add: room_def)
  show ?thesis
  proof (cases "length cs \<le> room p")
    case True
    then show ?thesis unfolding t using l o assms by (auto simp: st wait_inv_def room_def)
  next
    case False
    then show ?thesis unfolding t using l o full assms by (auto simp: st wait_inv_def)
  qed
qed

lemma wait_inv_read: "wait_inv st \<Longrightarrow> p_readopen (fst st) \<Longrightarrow> wait_inv (read_turn i killed n st)"
  by (cases st) (auto simp: wait_inv_def read_turn_def piperead_from_law)

lemma wait_inv_close: "wait_inv st \<Longrightarrow> writable \<or> (\<forall>i. snd st i \<noteq> Some Nread) \<Longrightarrow> wait_inv (close_turn writable st)"
  by (auto simp: wait_inv_def close_turn_def pipeclose_end_def Let_def pipe_ok_def pipe_contents_def room_def)

lemma wait_inv_step: "pipe_turn st st' \<Longrightarrow> wait_inv st \<Longrightarrow> wait_inv st'"
  by (induction rule: pipe_turn.induct) (simp_all add: wait_inv_write wait_inv_read wait_inv_close, auto simp: wait_inv_def split: if_splits)

lemma wait_inv_reach: "pipe_turn\<^sup>*\<^sup>* st st' \<Longrightarrow> wait_inv st \<Longrightarrow> wait_inv st'"
  by (induction rule: rtranclp_induct) (auto intro: wait_inv_step)

lemma wait_inv_init: "wait_inv (pipe_init p, \<lambda>_. None)"
  by (simp add: wait_inv_def pipe_init_def pipe_ok_def)

section \<open>Properties\<close>

text \<open>C3. Pipes are first in, first out under every interleaving of writers, readers and closes, through any number of
  wrap-arounds of the counters: what has been read is a prefix of what has been written, what lies between is in the
  buffer, and the buffer never holds more than its size.\<close>

theorem pipe_fifo:
  assumes "pipe_step\<^sup>*\<^sup>* (pipe_init p\<^sub>0, [], []) (p, sent, got)"
  shows "sent = got @ pipe_contents p \<and> length (pipe_contents p) \<le> PIPESIZE"
  using fifo_inv_reach [OF assms pipe_init_inv] pipe.bounded by (auto simp: fifo_inv_def)

theorem pipe_fifo_witness:
  "\<exists>p. pipe_step\<^sup>*\<^sup>* (pipe_init \<lparr>p_data = (\<lambda>_. 0), p_nread = 9, p_nwrite = 4, p_readopen = False, p_writeopen = False\<rparr>, [], [])
         (p, [7, 8], [7]) \<and> pipe_contents p = [8]"
proof -
  let ?i = "pipe_init \<lparr>p_data = (\<lambda>_. 0), p_nread = 9, p_nwrite = 4, p_readopen = False, p_writeopen = False\<rparr>"
  have i: "pipe_ok ?i" "pipe_contents ?i = []" "room ?i = 512" by (simp_all add: pipe_init_def pipe_ok_def pipe_contents_def seg_def room_def)
  obtain p1 where w: "pipewrite_from False [7, 8] ?i = (WDone, p1)" "pipe_ok p1" "pipe_contents p1 = [7, 8]"
    using pipewrite_from_law [OF i(1), of False "[7, 8]"] i by (cases "pipewrite_from False [7, 8] ?i") auto
  have 1: "pipe_step (?i, [], []) (p1, [7, 8], [])"
    using pipe_step.writer [OF w(1), of "[]" "[]"] pipewrite_from_count [OF i(1) w(1)] i(3) by simp
  obtain p2 where r: "piperead_from False 1 p1 = (RDone [7], p2)"
    using piperead_from_law(1) [OF w(2), of False 1] w(3) by auto
  have 2: "pipe_step (p1, [7, 8], []) (p2, [7, 8], [7])"
    using pipe_step.reader [OF r, of "[7, 8]" "[]"] by simp
  have reach: "pipe_step\<^sup>*\<^sup>* (?i, [], []) (p2, [7, 8], [7])" using 1 2 by auto
  from pipe_fifo [OF reach] reach show ?thesis by auto
qed



text \<open>C0. No wakeup is lost: in every state that turns of writers and readers, closes and kills can lead to, a process sleeps in \<open>piperead\<close> only while the pipe
  is empty with both ends open, and in \<open>pipewrite\<close> only while the pipe is full with the read end open. So readers and writers never sleep at the same
  time, and nobody sleeps through the bytes, the room or the close that it waits for. (Turns in which a killed writer is cut short by a full pipe are left out; they
  can leave a reader asleep.)\<close>

theorem pipe_no_lost_wakeup:
  assumes "pipe_turn\<^sup>*\<^sup>* (pipe_init p\<^sub>0, \<lambda>_. None) (p, sl)"
  shows "(sl i = Some Nread \<longrightarrow> pipe_contents p = [] \<and> p_writeopen p \<and> p_readopen p) \<and>
    (sl j = Some Nwrite \<longrightarrow> length (pipe_contents p) = PIPESIZE \<and> p_readopen p) \<and>
    \<not> (sl i = Some Nread \<and> sl j = Some Nwrite)"
proof -
  have w: "wait_inv (p, sl)" by (rule wait_inv_reach [OF assms wait_inv_init])
  then have "length (pipe_contents p) \<le> PIPESIZE" using pipe.bounded by (auto simp: wait_inv_def)
  with w show ?thesis by (force simp: wait_inv_def room_def)
qed

theorem pipe_no_lost_wakeup_witness:
  "\<exists>p sl. pipe_turn\<^sup>*\<^sup>* (pipe_init \<lparr>p_data = (\<lambda>_. 0), p_nread = 9, p_nwrite = 4, p_readopen = False, p_writeopen = False\<rparr>, \<lambda>_. None) (p, sl) \<and>
     sl 3 = Some Nread \<and> pipe_contents p = []"
proof -
  let ?i = "pipe_init \<lparr>p_data = (\<lambda>_. 0), p_nread = 9, p_nwrite = 4, p_readopen = False, p_writeopen = False\<rparr>"
  have "read_turn 3 False 1 (?i, \<lambda>_. None) = (?i, (\<lambda>_. None)(3 \<mapsto> Nread))"
    by (simp add: read_turn_def piperead_from_def pipe_empty_def pipe_init_def)
  then have t: "pipe_turn\<^sup>*\<^sup>* (?i, \<lambda>_. None) (?i, (\<lambda>_. None)(3 \<mapsto> Nread))"
    using pipe_turn.reader [of "(?i, \<lambda>_. None)" 3 False 1] by (simp add: pipe_init_def r_into_rtranclp)
  from pipe_no_lost_wakeup [OF t, of 3 3] t show ?thesis by (intro exI conjI) (assumption, simp_all)
qed

end
