(* ===== verification/File.thy ===== *)
theory File
  imports Fs_Data Kalloc Pipe
begin

text \<open>
  Open files, \<open>kernel/file.c\<close>, and what \<open>kernel/pipe.c\<close> does with them. The state of the kernel here is that of the
  file system, with the page allocator, the pipes by the address of their page, the table of open files and the
  process that runs. A pointer to a \<open>struct file\<close> is an index into \<open>ftable.file\<close>. A read or write
  that would sleep on a pipe does not return here, for nobody else runs; theory \<open>Pipe\<close> has the interleavings.
\<close>

abbreviation NFILE :: nat where "NFILE \<equiv> 100"
abbreviation NOFILE :: nat where "NOFILE \<equiv> 16"

section \<open>State\<close>

datatype ftype = FD_NONE | FD_PIPE | FD_INODE

record kfile =
  f_type :: ftype
  f_ref :: int
  f_readable :: bool
  f_writable :: bool
  f_pipe :: u32
  f_ip :: nat
  f_off :: u32

text \<open>What the file system calls use of \<open>struct proc\<close> and of its trap frame; \<open>u_mem\<close> is the memory of the process.\<close>

record uproc =
  u_sz :: u32
  u_mem :: bytes
  u_esp :: u32
  u_eax :: u32
  u_ofile :: "nat \<Rightarrow> nat option"
  u_cwd :: nat
  u_killed :: bool
  u_pid :: int

text \<open>\<open>k_end\<close> is the address of the linker symbol \<open>end\<close>, where the kernel ends.\<close>

record kstate = fsys +
  k_end :: u32
  k_mem :: kmem
  k_pipes :: "u32 \<Rightarrow> pipe"
  k_files :: "nat \<Rightarrow> kfile"
  k_proc :: uproc

definition with_mem :: "(kmem, 'b) km \<Rightarrow> ('a kstate_scheme, 'b) km" where
  "with_mem m = (\<lambda>s. rbind (m (k_mem s)) (\<lambda>(a, k). Ret (a, s\<lparr>k_mem := k\<rparr>)))"

definition the_file :: "nat \<Rightarrow> ('a kstate_scheme, kfile) km" where
  "the_file f = gets (\<lambda>s. k_files s f)"

definition upd_file :: "nat \<Rightarrow> (kfile \<Rightarrow> kfile) \<Rightarrow> ('a kstate_scheme, unit) km" where
  "upd_file f g = modify (\<lambda>s. s\<lparr>k_files := (k_files s)(f := g (k_files s f))\<rparr>)"

definition upd_pipe :: "u32 \<Rightarrow> pipe \<Rightarrow> ('a kstate_scheme, unit) km" where
  "upd_pipe p q = modify (\<lambda>s. s\<lparr>k_pipes := (k_pipes s)(p := q)\<rparr>)"

section \<open>Pipes\<close>

definition pipeclose :: "u32 \<Rightarrow> bool \<Rightarrow> ('a kstate_scheme, unit) km" where
  "pipeclose p writable =
     bnd (gets (\<lambda>s. (k_end s, pipeclose_end writable (k_pipes s p)))) (\<lambda>(kend, closed, q).
     seq (upd_pipe p q)
     (if closed then with_mem (kfree kend p) else ret ()))"

definition pipewrite :: "u32 \<Rightarrow> bytes \<Rightarrow> int \<Rightarrow> ('a kstate_scheme, int) km" where
  "pipewrite p addr n =
     bnd (gets (\<lambda>s. pipewrite_from (u_killed (k_proc s)) (rd addr 0 (nat n)) (k_pipes s p))) (\<lambda>(r, q).
     seq (upd_pipe p q)
     (case r of WDone \<Rightarrow> ret n | WFail \<Rightarrow> ret (-1) | WSleep _ \<Rightarrow> sleep_forever))"

definition piperead :: "u32 \<Rightarrow> int \<Rightarrow> ('a kstate_scheme, int \<times> u8 list) km" where
  "piperead p n =
     bnd (gets (\<lambda>s. piperead_from (u_killed (k_proc s)) (nat n) (k_pipes s p))) (\<lambda>(r, q).
     seq (upd_pipe p q)
     (case r of RDone bs \<Rightarrow> ret (int (length bs), bs) | RFail \<Rightarrow> ret (-1, []) | RSleep \<Rightarrow> sleep_forever))"

section \<open>Files\<close>

definition filealloc :: "('a kstate_scheme, nat option) km" where
  "filealloc =
     bnd (gets (\<lambda>s. find (\<lambda>f. f_ref (k_files s f) = 0) [0..<NFILE])) (\<lambda>r. case r of
       Some f \<Rightarrow> seq (upd_file f (\<lambda>x. x\<lparr>f_ref := 1\<rparr>)) (ret (Some f))
     | None \<Rightarrow> ret None)"

definition filedup :: "nat \<Rightarrow> ('a kstate_scheme, nat) km" where
  "filedup f =
     bnd (the_file f) (\<lambda>x.
     if f_ref x < 1 then panic ''filedup''
     else seq (upd_file f (\<lambda>x. x\<lparr>f_ref := f_ref x + 1\<rparr>)) (ret f))"

definition fileclose :: "nat \<Rightarrow> ('a kstate_scheme, unit) km" where
  "fileclose f =
     bnd (the_file f) (\<lambda>x.
     if f_ref x < 1 then panic ''fileclose''
     else if f_ref x - 1 > 0 then upd_file f (\<lambda>x. x\<lparr>f_ref := f_ref x - 1\<rparr>)
     else
       seq (upd_file f (\<lambda>x. x\<lparr>f_ref := 0, f_type := FD_NONE\<rparr>))
       (case f_type x of
          FD_PIPE \<Rightarrow> pipeclose (f_pipe x) (f_writable x)
        | FD_INODE \<Rightarrow> iput (f_ip x)
        | FD_NONE \<Rightarrow> ret ()))"

definition filestat :: "nat \<Rightarrow> ('a kstate_scheme, stat option) km" where
  "filestat f =
     bnd (the_file f) (\<lambda>x.
     if f_type x = FD_INODE then
       seq (ilock (f_ip x))
       (bnd (stati (f_ip x)) (\<lambda>st.
       seq (iunlock (f_ip x))
       (ret (Some st))))
     else ret None)"

definition fileread :: "('a kstate_scheme) devtab \<Rightarrow> nat \<Rightarrow> int \<Rightarrow> ('a kstate_scheme, int \<times> u8 list) km" where
  "fileread dv f n =
     bnd (the_file f) (\<lambda>x.
     if \<not> f_readable x then ret (-1, [])
     else case f_type x of
       FD_PIPE \<Rightarrow> piperead (f_pipe x) n
     | FD_INODE \<Rightarrow>
         seq (ilock (f_ip x))
         (bnd (readi dv (f_ip x) (f_off x) (of_int n)) (\<lambda>(r, bs).
         seq (if r > 0 then upd_file f (\<lambda>x. x\<lparr>f_off := f_off x + of_int r\<rparr>) else ret ())
         (seq (iunlock (f_ip x))
         (ret (r, bs)))))
     | FD_NONE \<Rightarrow> panic ''fileread'')"

definition filewrite :: "('a kstate_scheme) devtab \<Rightarrow> nat \<Rightarrow> bytes \<Rightarrow> int \<Rightarrow> ('a kstate_scheme, int) km" where
  "filewrite dv f addr n =
     bnd (the_file f) (\<lambda>x.
     if \<not> f_writable x then ret (-1)
     else case f_type x of
       FD_PIPE \<Rightarrow> pipewrite (f_pipe x) addr n
     | FD_INODE \<Rightarrow>
         seq (ilock (f_ip x))
         (bnd (writei dv (f_ip x) addr (f_off x) (of_int n)) (\<lambda>r.
         seq (if r > 0 then upd_file f (\<lambda>x. x\<lparr>f_off := f_off x + of_int r\<rparr>) else ret ())
         (seq (iunlock (f_ip x))
         (ret r))))
     | FD_NONE \<Rightarrow> panic ''filewrite'')"

text \<open>The error exit of \<open>pipealloc\<close>, which gives back what was allocated.\<close>

definition pipealloc_bad :: "nat option \<Rightarrow> nat option \<Rightarrow> ('a kstate_scheme, (nat \<times> nat) option) km" where
  "pipealloc_bad f0 f1 =
     seq (case f0 of Some f \<Rightarrow> fileclose f | None \<Rightarrow> ret ())
     (seq (case f1 of Some f \<Rightarrow> fileclose f | None \<Rightarrow> ret ())
     (ret None))"

definition pipealloc :: "('a kstate_scheme, (nat \<times> nat) option) km" where
  "pipealloc =
     bnd filealloc (\<lambda>r0. case r0 of
       None \<Rightarrow> pipealloc_bad None None
     | Some f0 \<Rightarrow>
         bnd filealloc (\<lambda>r1. case r1 of
           None \<Rightarrow> pipealloc_bad (Some f0) None
         | Some f1 \<Rightarrow>
             bnd (with_mem kalloc) (\<lambda>p.
             if p = 0 then pipealloc_bad (Some f0) (Some f1)
             else
               seq (modify (\<lambda>s. s\<lparr>k_pipes := (k_pipes s)(p := pipe_init (k_pipes s p))\<rparr>))
               (seq (upd_file f0 (\<lambda>x. x\<lparr>f_type := FD_PIPE, f_readable := True, f_writable := False, f_pipe := p\<rparr>))
               (seq (upd_file f1 (\<lambda>x. x\<lparr>f_type := FD_PIPE, f_readable := False, f_writable := True, f_pipe := p\<rparr>))
               (ret (Some (f0, f1))))))))"

end
