(* ===== verification/Sysfile.thy ===== *)
theory Sysfile
  imports File
begin

text \<open>
  The system calls of \<open>kernel/sysfile.c\<close>, with the fetching of their arguments in \<open>kernel/syscall.c\<close>. A fetch
  gives an option, \<open>None\<close> where the C function returns \<open>-1\<close>; what a call copies to the memory of the process is
  written to \<open>u_mem\<close>. The device switch and \<open>exec\<close> are parameters.
\<close>

abbreviation MAXARG :: nat where "MAXARG \<equiv> 32"

section \<open>Arguments\<close>

definition fetchint :: "uproc \<Rightarrow> u32 \<Rightarrow> u32 option" where
  "fetchint p addr =
     (if addr \<ge> u_sz p \<or> addr + 4 > u_sz p then None else Some (of_le32 (rd (u_mem p) (unat addr) 4)))"

text \<open>The address and the characters of the string.\<close>

definition fetchstr :: "uproc \<Rightarrow> u32 \<Rightarrow> (u32 \<times> u8 list) option" where
  "fetchstr p addr =
     (if addr \<ge> u_sz p then None
      else case find (\<lambda>k. u_mem p k = 0) [unat addr..<unat (u_sz p)] of
        Some e \<Rightarrow> Some (addr, rd (u_mem p) (unat addr) (e - unat addr))
      | None \<Rightarrow> None)"

definition argint :: "uproc \<Rightarrow> u32 \<Rightarrow> u32 option" where
  "argint p n = fetchint p (u_esp p + 4 + 4 * n)"

definition argptr :: "uproc \<Rightarrow> u32 \<Rightarrow> int \<Rightarrow> u32 option" where
  "argptr p n sz =
     (case argint p n of
        None \<Rightarrow> None
      | Some i \<Rightarrow> if i \<ge> u_sz p \<or> i + of_int sz > u_sz p then None else Some i)"

definition argstr :: "uproc \<Rightarrow> u32 \<Rightarrow> (u32 \<times> u8 list) option" where
  "argstr p n = (case argint p n of None \<Rightarrow> None | Some addr \<Rightarrow> fetchstr p addr)"

definition argfd :: "uproc \<Rightarrow> u32 \<Rightarrow> (nat \<times> nat) option" where
  "argfd p n =
     (case argint p n of
        None \<Rightarrow> None
      | Some w \<Rightarrow>
          let fd = sint w in
          if fd < 0 \<or> fd \<ge> int NOFILE then None
          else case u_ofile p (nat fd) of None \<Rightarrow> None | Some f \<Rightarrow> Some (nat fd, f))"

text \<open>\<open>if(... < 0) return -1;\<close>\<close>

definition need :: "(uproc \<Rightarrow> 'b option) \<Rightarrow> ('b \<Rightarrow> ('a kstate_scheme, int) km) \<Rightarrow> ('a kstate_scheme, int) km" where
  "need g k = bnd (gets (\<lambda>s. g (k_proc s))) (\<lambda>r. case r of None \<Rightarrow> ret (-1) | Some x \<Rightarrow> k x)"

definition upd_proc :: "(uproc \<Rightarrow> uproc) \<Rightarrow> ('a kstate_scheme, unit) km" where
  "upd_proc g = modify (\<lambda>s. s\<lparr>k_proc := g (k_proc s)\<rparr>)"

definition copy_to_user :: "u32 \<Rightarrow> u8 list \<Rightarrow> ('a kstate_scheme, unit) km" where
  "copy_to_user p bs = upd_proc (\<lambda>u. u\<lparr>u_mem := wr (u_mem u) (unat p) bs\<rparr>)"

section \<open>Descriptors\<close>

definition fdalloc :: "nat \<Rightarrow> ('a kstate_scheme, nat option) km" where
  "fdalloc f =
     bnd (gets (\<lambda>s. find (\<lambda>fd. u_ofile (k_proc s) fd = None) [0..<NOFILE])) (\<lambda>r. case r of
       Some fd \<Rightarrow> seq (upd_proc (\<lambda>u. u\<lparr>u_ofile := (u_ofile u)(fd := Some f)\<rparr>)) (ret (Some fd))
     | None \<Rightarrow> ret None)"

definition sys_dup :: "('a kstate_scheme, int) km" where
  "sys_dup =
     need (\<lambda>p. argfd p 0) (\<lambda>(_, f).
     bnd (fdalloc f) (\<lambda>r. case r of
       None \<Rightarrow> ret (-1)
     | Some fd \<Rightarrow> seq (filedup f) (ret (int fd))))"

definition sys_read :: "('a kstate_scheme) devtab \<Rightarrow> ('a kstate_scheme, int) km" where
  "sys_read dv =
     need (\<lambda>p. argfd p 0) (\<lambda>(_, f).
     need (\<lambda>p. argint p 2) (\<lambda>n.
     need (\<lambda>p. argptr p 1 (sint n)) (\<lambda>addr.
     bnd (fileread dv f (sint n)) (\<lambda>(r, bs).
     seq (copy_to_user addr bs)
     (ret r)))))"

definition sys_write :: "('a kstate_scheme) devtab \<Rightarrow> ('a kstate_scheme, int) km" where
  "sys_write dv =
     need (\<lambda>p. argfd p 0) (\<lambda>(_, f).
     need (\<lambda>p. argint p 2) (\<lambda>n.
     need (\<lambda>p. argptr p 1 (sint n)) (\<lambda>addr.
     bnd (gets (\<lambda>s. u_mem (k_proc s))) (\<lambda>m.
     filewrite dv f (\<lambda>i. m (unat addr + i)) (sint n)))))"

definition sys_close :: "('a kstate_scheme, int) km" where
  "sys_close =
     need (\<lambda>p. argfd p 0) (\<lambda>(fd, f).
     seq (upd_proc (\<lambda>u. u\<lparr>u_ofile := (u_ofile u)(fd := None)\<rparr>))
     (seq (fileclose f)
     (ret 0)))"

text \<open>The fields of \<open>struct stat\<close> at their offsets; two short fields are followed by two bytes of padding.\<close>

definition put_stat :: "stat \<Rightarrow> nat \<Rightarrow> bytes \<Rightarrow> bytes" where
  "put_stat st a m =
     wr (wr (wr (wr (wr m a (le16 (st_type st))) (a + 4) (le32 (st_dev st))) (a + 8) (le32 (st_ino st)))
       (a + 12) (le16 (st_nlink st))) (a + 16) (le32 (st_size st))"

definition sys_fstat :: "('a kstate_scheme, int) km" where
  "sys_fstat =
     need (\<lambda>p. argfd p 0) (\<lambda>(_, f).
     need (\<lambda>p. argptr p 1 20) (\<lambda>addr.
     bnd (filestat f) (\<lambda>r. case r of
       None \<Rightarrow> ret (-1)
     | Some st \<Rightarrow> seq (upd_proc (\<lambda>u. u\<lparr>u_mem := put_stat st (unat addr) (u_mem u)\<rparr>)) (ret 0))))"

section \<open>Names\<close>

text \<open>Path names start at the current directory of the process.\<close>

definition namei_cwd :: "u8 list \<Rightarrow> ('a kstate_scheme, nat option) km" where
  "namei_cwd path = bnd (gets (\<lambda>s. u_cwd (k_proc s))) (\<lambda>cwd. namei cwd path)"

definition nameiparent_cwd :: "u8 list \<Rightarrow> ('a kstate_scheme, (nat \<times> u8 list) option) km" where
  "nameiparent_cwd path = bnd (gets (\<lambda>s. u_cwd (k_proc s))) (\<lambda>cwd. nameiparent cwd path)"

definition link_bad :: "nat \<Rightarrow> ('a kstate_scheme, int) km" where
  "link_bad ip =
     seq (ilock ip)
     (seq (upd_inode ip (\<lambda>i. i\<lparr>i_nlink := i_nlink i - 1\<rparr>))
     (seq (iupdate ip)
     (seq (iunlockput ip)
     (ret (-1)))))"

definition sys_link :: "('a kstate_scheme) devtab \<Rightarrow> ('a kstate_scheme, int) km" where
  "sys_link dv =
     need (\<lambda>p. argstr p 0) (\<lambda>(_, old).
     need (\<lambda>p. argstr p 1) (\<lambda>(_, new).
     bnd (namei_cwd old) (\<lambda>r. case r of
       None \<Rightarrow> ret (-1)
     | Some ip \<Rightarrow>
         seq (ilock ip)
         (bnd (the_inode ip) (\<lambda>i.
         if i_type i = T_DIR then seq (iunlockput ip) (ret (-1))
         else
           seq (upd_inode ip (\<lambda>i. i\<lparr>i_nlink := i_nlink i + 1\<rparr>))
           (seq (iupdate ip)
           (seq (iunlock ip)
           (bnd (nameiparent_cwd new) (\<lambda>r. case r of
             None \<Rightarrow> link_bad ip
           | Some (dp, name) \<Rightarrow>
               seq (ilock dp)
               (bnd (the_inode dp) (\<lambda>d.
               bnd (the_inode ip) (\<lambda>i.
               bnd (if i_dev d \<noteq> i_dev i then ret (-1) else dirlink dv dp name (i_inum i)) (\<lambda>r.
               if r < 0 then seq (iunlockput dp) (link_bad ip)
               else
                 seq (iunlockput dp)
                 (seq (iput ip)
                 (ret 0)))))))))))))))"

fun isdirempty_loop :: "('a kstate_scheme) devtab \<Rightarrow> nat \<Rightarrow> nat \<Rightarrow> u32 \<Rightarrow> ('a kstate_scheme, bool) km" where
  "isdirempty_loop dv 0 dp off = sleep_forever"
| "isdirempty_loop dv (Suc fuel) dp off =
     bnd (the_inode dp) (\<lambda>d.
     if off < i_size d then
       bnd (readi dv dp off 16) (\<lambda>(r, bs).
       if r \<noteq> 16 then panic ''isdirempty: readi''
       else if de_inum (dec_dirent bs) \<noteq> 0 then ret False
       else isdirempty_loop dv fuel dp (off + 16))
     else ret True)"

definition isdirempty :: "('a kstate_scheme) devtab \<Rightarrow> nat \<Rightarrow> ('a kstate_scheme, bool) km" where
  "isdirempty dv dp =
     bnd (the_inode dp) (\<lambda>d. isdirempty_loop dv (unat (i_size d) div 16 + 2) dp 32)"

definition sys_unlink :: "('a kstate_scheme) devtab \<Rightarrow> ('a kstate_scheme, int) km" where
  "sys_unlink dv =
     need (\<lambda>p. argstr p 0) (\<lambda>(_, path).
     bnd (nameiparent_cwd path) (\<lambda>r. case r of
       None \<Rightarrow> ret (-1)
     | Some (dp, name) \<Rightarrow>
         seq (ilock dp)
         (if namecmp name [46] = 0 \<or> namecmp name [46, 46] = 0 then seq (iunlockput dp) (ret (-1))
          else
            bnd (dirlookup dp name) (\<lambda>r. case r of
              None \<Rightarrow> seq (iunlockput dp) (ret (-1))
            | Some (ip, off) \<Rightarrow>
                seq (ilock ip)
                (bnd (the_inode ip) (\<lambda>i.
                if sint (i_nlink i) < 1 then panic ''unlink: nlink < 1''
                else
                  bnd (if i_type i = T_DIR then isdirempty dv ip else ret True) (\<lambda>removable.
                  if \<not> removable then seq (iunlockput ip) (seq (iunlockput dp) (ret (-1)))
                  else
                    bnd (writei dv dp (\<lambda>_. 0) off 16) (\<lambda>r.
                    if r \<noteq> 16 then panic ''unlink: writei''
                    else
                      seq (if i_type i = T_DIR then
                             seq (upd_inode dp (\<lambda>d. d\<lparr>i_nlink := i_nlink d - 1\<rparr>)) (iupdate dp)
                           else ret ())
                      (seq (iunlockput dp)
                      (seq (upd_inode ip (\<lambda>i. i\<lparr>i_nlink := i_nlink i - 1\<rparr>))
                      (seq (iupdate ip)
                      (seq (iunlockput ip)
                      (ret 0)))))))))))))"

section \<open>Creating and opening\<close>

definition create :: "('a kstate_scheme) devtab \<Rightarrow> u8 list \<Rightarrow> u16 \<Rightarrow> u16 \<Rightarrow> u16 \<Rightarrow> ('a kstate_scheme, nat option) km" where
  "create dv path type major minor =
     bnd (nameiparent_cwd path) (\<lambda>r. case r of
       None \<Rightarrow> ret None
     | Some (dp, name) \<Rightarrow>
         seq (ilock dp)
         (bnd (dirlookup dp name) (\<lambda>r. case r of
           Some (ip, off) \<Rightarrow>
             seq (iunlockput dp)
             (seq (ilock ip)
             (bnd (the_inode ip) (\<lambda>i.
             if type = T_FILE \<and> i_type i = T_FILE then ret (Some ip)
             else if type = T_SMALLFILE \<and> i_type i = T_SMALLFILE then ret (Some ip)
             else seq (iunlockput ip) (ret None))))
         | None \<Rightarrow>
             bnd (the_inode dp) (\<lambda>d.
             bnd (ialloc (i_dev d) type) (\<lambda>ip.
             seq (ilock ip)
             (seq (upd_inode ip (\<lambda>i. i\<lparr>i_major := major, i_minor := minor, i_nlink := 1\<rparr>))
             (seq (iupdate ip)
             (bnd (the_inode ip) (\<lambda>i.
             seq (if type = T_DIR then
                    seq (upd_inode dp (\<lambda>d. d\<lparr>i_nlink := i_nlink d + 1\<rparr>))
                    (seq (iupdate dp)
                    (bnd (dirlink dv ip [46] (i_inum i)) (\<lambda>r.
                    if r < 0 then panic ''create dots''
                    else
                      bnd (dirlink dv ip [46, 46] (i_inum d)) (\<lambda>r.
                      if r < 0 then panic ''create dots'' else ret ()))))
                  else ret ())
             (bnd (dirlink dv dp name (i_inum i)) (\<lambda>r.
             if r < 0 then panic ''create: dirlink''
             else
               seq (iunlockput dp)
               (ret (Some ip)))))))))))))"

definition sys_open :: "('a kstate_scheme) devtab \<Rightarrow> ('a kstate_scheme, int) km" where
  "sys_open dv =
     need (\<lambda>p. argstr p 0) (\<lambda>(_, path).
     need (\<lambda>p. argint p 1) (\<lambda>omode.
     bnd (if omode AND 0x200 \<noteq> 0 then
            if omode AND 0x400 \<noteq> 0 then create dv path T_SMALLFILE 0 0 else create dv path T_FILE 0 0
          else
            bnd (namei_cwd path) (\<lambda>r. case r of
              None \<Rightarrow> ret None
            | Some ip \<Rightarrow>
                seq (ilock ip)
                (bnd (the_inode ip) (\<lambda>i.
                if i_type i = T_DIR \<and> omode \<noteq> 0 then seq (iunlockput ip) (ret None)
                else ret (Some ip))))) (\<lambda>r. case r of
       None \<Rightarrow> ret (-1)
     | Some ip \<Rightarrow>
         bnd filealloc (\<lambda>r. case r of
           None \<Rightarrow> seq (iunlockput ip) (ret (-1))
         | Some f \<Rightarrow>
             bnd (fdalloc f) (\<lambda>r. case r of
               None \<Rightarrow> seq (fileclose f) (seq (iunlockput ip) (ret (-1)))
             | Some fd \<Rightarrow>
                 seq (iunlock ip)
                 (seq (upd_file f (\<lambda>x. x\<lparr>f_type := FD_INODE, f_ip := ip, f_off := 0,
                    f_readable := (omode AND 1 = 0), f_writable := (omode AND 1 \<noteq> 0 \<or> omode AND 2 \<noteq> 0)\<rparr>))
                 (ret (int fd))))))))"

definition sys_mkdir :: "('a kstate_scheme) devtab \<Rightarrow> ('a kstate_scheme, int) km" where
  "sys_mkdir dv =
     need (\<lambda>p. argstr p 0) (\<lambda>(_, path).
     bnd (create dv path T_DIR 0 0) (\<lambda>r. case r of
       None \<Rightarrow> ret (-1)
     | Some ip \<Rightarrow> seq (iunlockput ip) (ret 0)))"

definition sys_mknod :: "('a kstate_scheme) devtab \<Rightarrow> ('a kstate_scheme, int) km" where
  "sys_mknod dv =
     need (\<lambda>p. argstr p 0) (\<lambda>(_, path).
     need (\<lambda>p. argint p 1) (\<lambda>major.
     need (\<lambda>p. argint p 2) (\<lambda>minor.
     bnd (create dv path T_DEV (ucast major) (ucast minor)) (\<lambda>r. case r of
       None \<Rightarrow> ret (-1)
     | Some ip \<Rightarrow> seq (iunlockput ip) (ret 0)))))"

definition sys_chdir :: "('a kstate_scheme, int) km" where
  "sys_chdir =
     need (\<lambda>p. argstr p 0) (\<lambda>(_, path).
     bnd (namei_cwd path) (\<lambda>r. case r of
       None \<Rightarrow> ret (-1)
     | Some ip \<Rightarrow>
         seq (ilock ip)
         (bnd (the_inode ip) (\<lambda>i.
         if i_type i \<noteq> T_DIR then seq (iunlockput ip) (ret (-1))
         else
           seq (iunlock ip)
           (bnd (gets (\<lambda>s. u_cwd (k_proc s))) (\<lambda>cwd.
           seq (iput cwd)
           (seq (upd_proc (\<lambda>u. u\<lparr>u_cwd := ip\<rparr>))
           (ret 0))))))))"

text \<open>The arguments \<open>i\<close>, \<open>i + 1\<close>, \<open>\<dots>\<close> of \<open>exec\<close>, up to the null pointer.\<close>

fun exec_args :: "nat \<Rightarrow> uproc \<Rightarrow> u32 \<Rightarrow> nat \<Rightarrow> u8 list list option" where
  "exec_args 0 p uargv i = None"
| "exec_args (Suc left) p uargv i =
     (case fetchint p (uargv + 4 * of_nat i) of
        None \<Rightarrow> None
      | Some uarg \<Rightarrow>
          if uarg = 0 then Some []
          else case fetchstr p uarg of
            None \<Rightarrow> None
          | Some (_, a) \<Rightarrow> map_option (\<lambda>as. a # as) (exec_args left p uargv (Suc i)))"

definition sys_exec :: "(u8 list \<Rightarrow> u8 list list \<Rightarrow> ('a kstate_scheme, int) km) \<Rightarrow> ('a kstate_scheme, int) km" where
  "sys_exec exec =
     need (\<lambda>p. argstr p 0) (\<lambda>(_, path).
     need (\<lambda>p. argint p 1) (\<lambda>uargv.
     need (\<lambda>p. exec_args MAXARG p uargv 0) (\<lambda>argv.
     exec path argv)))"

definition sys_pipe :: "('a kstate_scheme, int) km" where
  "sys_pipe =
     need (\<lambda>p. argptr p 0 8) (\<lambda>fd.
     bnd pipealloc (\<lambda>r. case r of
       None \<Rightarrow> ret (-1)
     | Some (rfl, wfl) \<Rightarrow>
         bnd (fdalloc rfl) (\<lambda>r0. case r0 of
           None \<Rightarrow> seq (fileclose rfl) (seq (fileclose wfl) (ret (-1)))
         | Some fd0 \<Rightarrow>
             bnd (fdalloc wfl) (\<lambda>r1. case r1 of
               None \<Rightarrow>
                 seq (upd_proc (\<lambda>u. u\<lparr>u_ofile := (u_ofile u)(fd0 := None)\<rparr>))
                 (seq (fileclose rfl) (seq (fileclose wfl) (ret (-1))))
             | Some fd1 \<Rightarrow>
                 seq (copy_to_user fd (le32 (of_nat fd0)))
                 (seq (copy_to_user (fd + 4) (le32 (of_nat fd1)))
                 (ret 0))))))"

section \<open>The system call table\<close>

text \<open>
  The calls about processes are the parameter \<open>sysproc\<close>, by their numbers; \<open>syscalls\<close> is the table and \<open>syscall\<close>
  looks up the number the process left in \<open>eax\<close>.
\<close>

definition syscalls :: "('a kstate_scheme) devtab \<Rightarrow> (u8 list \<Rightarrow> u8 list list \<Rightarrow> ('a kstate_scheme, int) km) \<Rightarrow>
    (int \<Rightarrow> ('a kstate_scheme, int) km option) \<Rightarrow> int \<Rightarrow> ('a kstate_scheme, int) km option" where
  "syscalls dv exec sysproc num =
     (if num = 4 then Some sys_pipe
      else if num = 5 then Some (sys_write dv)
      else if num = 6 then Some (sys_read dv)
      else if num = 7 then Some sys_close
      else if num = 9 then Some (sys_exec exec)
      else if num = 10 then Some (sys_open dv)
      else if num = 11 then Some (sys_mknod dv)
      else if num = 12 then Some (sys_unlink dv)
      else if num = 13 then Some sys_fstat
      else if num = 14 then Some (sys_link dv)
      else if num = 15 then Some (sys_mkdir dv)
      else if num = 16 then Some sys_chdir
      else if num = 17 then Some sys_dup
      else sysproc num)"

definition syscall :: "(int \<Rightarrow> ('a kstate_scheme, int) km option) \<Rightarrow> ('a kstate_scheme, unit) km" where
  "syscall table =
     bnd (gets (\<lambda>s. sint (u_eax (k_proc s)))) (\<lambda>num.
     case (if 0 < num \<and> num < 22 then table num else None) of
       Some f \<Rightarrow> bnd f (\<lambda>r. upd_proc (\<lambda>u. u\<lparr>u_eax := of_int r\<rparr>))
     | None \<Rightarrow> upd_proc (\<lambda>u. u\<lparr>u_eax := -1\<rparr>))"

end
