(* ===== verification/User_Lib.thy ===== *)
theory User_Lib
  imports Kstring
begin

text \<open>
  The C library of the user programs, \<open>user/ulib.c\<close> and \<open>user/printf.c\<close>. Strings are lists of bytes as in theory
  \<open>Kstring\<close>. System calls are not part of it: \<open>gets\<close> and \<open>stat\<close> take what \<open>read\<close>, \<open>open\<close> and \<open>fstat\<close> give as
  arguments, and printing gives the bytes written.
\<close>

section \<open>Strings\<close>

fun strcpy :: "u8 list \<Rightarrow> u8 list" where
  "strcpy [] = [0]"
| "strcpy (c # t) = (if c \<noteq> 0 then c # strcpy t else [0])"

fun strcmp :: "u8 list \<Rightarrow> u8 list \<Rightarrow> int" where
  "strcmp [] q = uint (0 :: u8) - uint (hd0 q)"
| "strcmp (c # p) q = (if c \<noteq> 0 \<and> c = hd0 q then strcmp p (tl q) else uint c - uint (hd0 q))"

fun ulib_strlen :: "u8 list \<Rightarrow> nat" where
  "ulib_strlen [] = 0"
| "ulib_strlen (c # s) = (if c \<noteq> 0 then Suc (ulib_strlen s) else 0)"

definition ulib_memset :: "bytes \<Rightarrow> nat \<Rightarrow> u8 \<Rightarrow> nat \<Rightarrow> bytes" where
  "ulib_memset mem dst c n = wr mem dst (replicate n c)"

text \<open>The distance from \<open>s\<close> to the pointer returned.\<close>

fun strchr :: "u8 list \<Rightarrow> u8 \<Rightarrow> nat option" where
  "strchr [] c = None"
| "strchr (x # s) c = (if x = 0 then None else if x = c then Some 0 else map_option Suc (strchr s c))"

text \<open>The bytes \<open>gets\<close> stores; \<open>input\<close> is what one-byte reads of descriptor 0 deliver until one fails.\<close>

fun gets_loop :: "nat \<Rightarrow> u8 list \<Rightarrow> u8 list" where
  "gets_loop (Suc (Suc room)) (c # input) = c # (if c = 10 \<or> c = 13 then [] else gets_loop (Suc room) input)"
| "gets_loop _ _ = []"

definition ulib_gets :: "int \<Rightarrow> u8 list \<Rightarrow> u8 list" where
  "ulib_gets m input = gets_loop (nat m) input @ [0]"

text \<open>\<open>fd\<close> is what \<open>open\<close> returned, \<open>r\<close> what \<open>fstat\<close> on it returned; the flag says that the descriptor was closed.\<close>

definition ulib_stat :: "int \<Rightarrow> int \<Rightarrow> int \<times> bool" where
  "ulib_stat fd r = (if fd < 0 then (-1, False) else (r, True))"

fun atoi_loop :: "int \<Rightarrow> u8 list \<Rightarrow> int" where
  "atoi_loop n [] = n"
| "atoi_loop n (c # s) = (if 48 \<le> c \<and> c \<le> 57 then atoi_loop (i32 (n * 10 + uint c - 48)) s else n)"

definition atoi :: "u8 list \<Rightarrow> int" where
  "atoi s = atoi_loop 0 s"

text \<open>This \<open>memmove\<close> copies upwards in every case.\<close>

definition ulib_memmove :: "bytes \<Rightarrow> nat \<Rightarrow> nat \<Rightarrow> int \<Rightarrow> bytes" where
  "ulib_memmove mem dst src n = move_up mem dst src (nat n)"

section \<open>Printing\<close>

definition print_digits :: "u8 list" where
  "print_digits = [48, 49, 50, 51, 52, 53, 54, 55, 56, 57, 65, 66, 67, 68, 69, 70, 0]"

text \<open>Filling \<open>buf\<close> with digits, lowest first; \<open>room\<close> is what is left of its 16 bytes.\<close>

fun printint_loop :: "nat \<Rightarrow> u32 \<Rightarrow> u32 \<Rightarrow> u8 list res" where
  "printint_loop 0 x base = Fault"
| "printint_loop (Suc room) x base =
     (if base = 0 then Fault
      else
        rbind (arr_get print_digits (uint (x mod base))) (\<lambda>d.
        rbind (if x div base \<noteq> 0 then printint_loop room (x div base) base else Ret []) (\<lambda>ds.
        Ret (d # ds))))"

definition printint :: "u32 \<Rightarrow> u32 \<Rightarrow> bool \<Rightarrow> u8 list res" where
  "printint xx base sg =
     (let neg = (sg \<and> sint xx < 0); x = (if neg then - xx else xx) in
      rbind (printint_loop 16 x base) (\<lambda>buf.
      if neg then (if length buf < 16 then Ret (rev (buf @ [45])) else Fault)
      else Ret (rev buf)))"

text \<open>
  \<open>args\<close> are the words after \<open>fmt\<close> on the stack, \<open>ap\<close> the index of the next one, and \<open>mem p\<close> the string at
  address \<open>p\<close>. The flag is \<open>state == '%'\<close>.
\<close>

fun printf_loop :: "(u32 \<Rightarrow> u8 list) \<Rightarrow> (nat \<Rightarrow> u32) \<Rightarrow> u8 list \<Rightarrow> bool \<Rightarrow> nat \<Rightarrow> u8 list res" where
  "printf_loop mem args [] state ap = Ret []"
| "printf_loop mem args (c # fmt) state ap =
     (if c = 0 then Ret []
      else if \<not> state then
        if c = 37 then printf_loop mem args fmt True ap
        else rbind (printf_loop mem args fmt False ap) (\<lambda>out. Ret (c # out))
      else if c = 100 then
        rbind (printint (args ap) 10 True) (\<lambda>s.
        rbind (printf_loop mem args fmt False (Suc ap)) (\<lambda>out. Ret (s @ out)))
      else if c = 120 \<or> c = 112 then
        rbind (printint (args ap) 16 False) (\<lambda>s.
        rbind (printf_loop mem args fmt False (Suc ap)) (\<lambda>out. Ret (s @ out)))
      else if c = 115 then
        let s = (if args ap = 0 then [40, 110, 117, 108, 108, 41] else takeWhile (\<lambda>c. c \<noteq> 0) (mem (args ap))) in
        rbind (printf_loop mem args fmt False (Suc ap)) (\<lambda>out. Ret (s @ out))
      else if c = 99 then
        rbind (printf_loop mem args fmt False (Suc ap)) (\<lambda>out. Ret (ucast (args ap) # out))
      else if c = 37 then
        rbind (printf_loop mem args fmt False ap) (\<lambda>out. Ret (c # out))
      else
        rbind (printf_loop mem args fmt False ap) (\<lambda>out. Ret (37 # c # out)))"

definition printf :: "(u32 \<Rightarrow> u8 list) \<Rightarrow> u8 list \<Rightarrow> (nat \<Rightarrow> u32) \<Rightarrow> u8 list res" where
  "printf mem fmt args = printf_loop mem args fmt False 0"

section \<open>Strings, specification\<close>

definition str_of :: "u8 list \<Rightarrow> u8 list" where
  "str_of s = takeWhile (\<lambda>c. c \<noteq> 0) s"

lemma str_of_simps [simp]: "str_of [] = []" "str_of (c # s) = (if c = 0 then [] else c # str_of s)"
  by (simp_all add: str_of_def)

lemma str_of_append_zero: "0 \<notin> set s \<Longrightarrow> str_of (s @ 0 # t) = s"
  by (induction s) auto

lemma hd0_eq_str_of: "hd0 s \<noteq> 0 \<Longrightarrow> str_of s = hd0 s # str_of (tl s)" "hd0 s = 0 \<longleftrightarrow> str_of s = []"
  by (cases s; simp)+

lemma strcmp_eq_0: "strcmp p q = 0 \<longleftrightarrow> str_of p = str_of q"
proof (induction p q rule: strcmp.induct)
  case (1 q)
  show ?case using uint_diff_eq_0 [of 0 "hd0 q"] hd0_eq_str_of(2) [of q] by (auto simp del: uint_diff_eq_0)
next
  case (2 c p q)
  show ?case
  proof (cases "c \<noteq> 0 \<and> c = hd0 q")
    case True
    then show ?thesis using 2 hd0_eq_str_of(1) [of q] by auto
  next
    case False
    then show ?thesis using uint_diff_eq_0 [of c "hd0 q"] hd0_eq_str_of [of q]
      by (cases q) (auto simp del: uint_diff_eq_0 right_minus_eq)
  qed
qed

lemma strchr_eq:
  "strchr s c = (if c \<noteq> 0 \<and> c \<in> set (str_of s) then Some (length (takeWhile (\<lambda>x. x \<noteq> c) (str_of s))) else None)"
  by (induction s c rule: strchr.induct) auto

section \<open>Numbers, specification\<close>

text \<open>The number a sequence of digits stands for, lowest digit first and highest digit first.\<close>

fun low_value :: "nat \<Rightarrow> nat list \<Rightarrow> nat" where
  "low_value b [] = 0"
| "low_value b (d # ds) = d + b * low_value b ds"

definition digits_value :: "nat \<Rightarrow> nat list \<Rightarrow> nat" where
  "digits_value b ds = foldl (\<lambda>v d. v * b + d) 0 ds"

lemma digits_value_rev: "digits_value b (rev ds) = low_value b ds"
  by (induction ds) (simp_all add: digits_value_def)

text \<open>The character of a digit: \<open>0\<close> to \<open>9\<close>, then \<open>A\<close> to \<open>F\<close>.\<close>

definition digit_char :: "nat \<Rightarrow> u8" where
  "digit_char d = (if d < 10 then 48 + of_nat d else 65 + of_nat (d - 10))"

lemma print_digits_char: "d < 16 \<Longrightarrow> print_digits ! d = digit_char d"
proof -
  assume "d < 16"
  moreover have "\<forall>d\<in>set [0..<16]. print_digits ! d = digit_char d" by code_simp
  ultimately show ?thesis by simp
qed

lemma arr_get_digits: "d < 16 \<Longrightarrow> arr_get print_digits (int d) = Ret (digit_char d)"
  using print_digits_char [of d] by (simp add: arr_get_def print_digits_def)

lemma printint_loop_law:
  assumes b: "1 < unat base" "unat base \<le> 16" and x: "unat x < unat base ^ k" and k: "0 < k" "k \<le> room"
  shows "\<exists>ds. printint_loop room x base = Ret (map digit_char ds) \<and> ds \<noteq> [] \<and> length ds \<le> k \<and>
    (\<forall>d\<in>set ds. d < unat base) \<and> low_value (unat base) ds = unat x \<and> (last ds = 0 \<longrightarrow> ds = [0])"
  using x k
proof (induction k arbitrary: x room)
  case (Suc k)
  obtain room' where room: "room = Suc room'" using Suc.prems by (cases room) auto
  have base: "base \<noteq> 0" using b by auto
  have um: "uint (x mod base) = int (unat x mod unat base)" and ud: "unat (x div base) = unat x div unat base"
    by (simp_all add: unat_div uint_mod zmod_int)
  have lt: "unat x mod unat base < unat base" using b by simp
  have dig: "arr_get print_digits (uint (x mod base)) = Ret (digit_char (unat x mod unat base))"
    unfolding um using lt b by (intro arr_get_digits) linarith
  show ?case
  proof (cases "x div base = 0")
    case True
    then have "unat x div unat base = 0" using ud by simp
    then have "unat x mod unat base = unat x" using b by (simp add: div_eq_0_iff)
    then show ?thesis using lt base True dig
      by (intro exI [of _ "[unat x mod unat base]"]) (simp add: room)
  next
    case False
    have ne: "unat (x div base) \<noteq> 0" using False by (simp add: unat_eq_0)
    have q: "unat (x div base) < unat base ^ k" using Suc.prems(1) b by (simp add: ud div_less_iff_less_mult mult.commute)
    then have k: "0 < k" using ne by (cases k) auto
    obtain ds where ds: "printint_loop room' (x div base) base = Ret (map digit_char ds)" "ds \<noteq> []" "length ds \<le> k"
      "\<forall>d\<in>set ds. d < unat base" "low_value (unat base) ds = unat (x div base)" "last ds = 0 \<longrightarrow> ds = [0]"
      using Suc.IH [OF q k, of room'] Suc.prems(3) room by auto
    then have "last ds \<noteq> 0" using ne by auto
    moreover have "unat x mod unat base + unat base * unat (x div base) = unat x" by (simp add: ud)
    ultimately show ?thesis using ds lt base False dig
      by (intro exI [of _ "(unat x mod unat base) # ds"]) (auto simp: room)
  qed
qed simp

text \<open>What a number prints as: its digits, without leading zeros, behind a minus sign where one is called for.\<close>

definition prints :: "u8 list \<Rightarrow> bool \<Rightarrow> nat \<Rightarrow> nat \<Rightarrow> bool" where
  "prints s neg b n \<longleftrightarrow> (\<exists>ds. s = (if neg then [45] else []) @ map digit_char ds \<and> ds \<noteq> [] \<and>
     (\<forall>d\<in>set ds. d < b) \<and> digits_value b ds = n \<and> (hd ds = 0 \<longrightarrow> ds = [0]))"

lemma uint_of_sint: "uint x = sint x mod 4294967296" for x :: u32
proof -
  have "uint (word_of_int (sint x) :: u32) = sint x mod 4294967296" by (simp only: uint_word_of_int) simp
  then show ?thesis by simp
qed

lemma printint_law:
  assumes "base = 10 \<or> base = 16"
  shows "\<exists>s. printint xx base sg = Ret s \<and>
    prints s (sg \<and> sint xx < 0) (unat base) (if sg \<and> sint xx < 0 then nat (- sint xx) else unat xx)"
proof -
  define neg where "neg \<longleftrightarrow> sg \<and> sint xx < 0"
  define x where "x = (if neg then - xx else xx)"
  have "unat x < 4294967296" using unsigned_less [of x] by simp
  then have "unat x < unat base ^ 10" using assms by auto
  moreover have "1 < unat base" "unat base \<le> 16" using assms by auto
  ultimately obtain ds where ds: "printint_loop 16 x base = Ret (map digit_char ds)" "ds \<noteq> []" "length ds \<le> 10"
      "\<forall>d\<in>set ds. d < unat base" "low_value (unat base) ds = unat x" "last ds = 0 \<longrightarrow> ds = [0]"
    using printint_loop_law [of base x 10 16] by auto
  have ux: "unat x = (if neg then nat (- sint xx) else unat xx)"
  proof (cases neg)
    case True
    then have "sint xx < 0" by (simp add: neg_def)
    moreover have "- sint xx \<le> 2147483648" using sint_greater_eq [of xx] by simp
    moreover have "uint (word_of_int (- sint xx) :: u32) = - sint xx mod 4294967296" by (simp only: uint_word_of_int) simp
    ultimately have "uint (- xx) = - sint xx" by simp
    then show ?thesis using True by (simp add: x_def flip: nat_uint_eq)
  qed (simp add: x_def)
  have "printint xx base sg = Ret ((if neg then [45] else []) @ map digit_char (rev ds))"
    using ds(1,3) by (simp add: printint_def Let_def rev_map flip: neg_def x_def)
  moreover have "hd (rev ds) = 0 \<longrightarrow> rev ds = [0]" using ds(2,6) by (auto simp: hd_rev)
  ultimately have "prints ((if neg then [45] else []) @ map digit_char (rev ds)) neg (unat base) (unat x)"
    unfolding prints_def using ds by (intro exI [of _ "rev ds"]) (auto simp: digits_value_rev hd_rev)
  then show ?thesis using \<open>printint xx base sg = _\<close> unfolding neg_def [symmetric] ux [symmetric] by blast
qed

lemma digit_char_uint: "d < 10 \<Longrightarrow> uint (digit_char d) = 48 + int d \<and> 48 \<le> digit_char d \<and> digit_char d \<le> 57"
  by (auto simp: digit_char_def word_le_nat_alt unat_add_lem [THEN iffD1] uint_nat unat_of_nat unat_word_ariths)

lemma foldl_digits_mono: "v \<le> foldl (\<lambda>v d. v * 10 + d) v (ds :: nat list)"
proof (induction ds arbitrary: v)
  case (Cons d ds)
  have "v \<le> v * 10 + d" by simp
  also note Cons.IH [of "v * 10 + d"]
  finally show ?case by simp
qed simp

lemma atoi_loop_digits:
  assumes "\<forall>d\<in>set ds. d < 10" and "foldl (\<lambda>v d. v * 10 + d) v ds < 2147483648"
    and "rest = [] \<or> \<not> (48 \<le> hd rest \<and> hd rest \<le> 57)"
  shows "atoi_loop (int v) (map digit_char ds @ rest) = int (foldl (\<lambda>v d. v * 10 + d) v ds)"
  using assms(1,2)
proof (induction ds arbitrary: v)
  case Nil
  then show ?case using assms(3) by (cases rest) auto
next
  case (Cons d ds)
  have "v * 10 + d < 2147483648" using foldl_digits_mono [of "v * 10 + d" ds] Cons.prems(2) by simp
  then have "i32 (int v * 10 + uint (digit_char d) - 48) = int (v * 10 + d)"
    using digit_char_uint [of d] Cons.prems(1) by simp
  then show ?case using Cons.IH [of "v * 10 + d"] Cons.prems digit_char_uint [of d] by simp
qed

section \<open>Formats, specification\<close>

text \<open>A format as a sequence of pieces, each of which takes its argument from the list where it has one.\<close>

datatype piece = Lit u8 | Num | Hex | Str | Chr | Percent | Other u8

fun pieces :: "u8 list \<Rightarrow> piece list" where
  "pieces [] = []"
| "pieces [c] = (if c = 0 \<or> c = 37 then [] else [Lit c])"
| "pieces (c # d # fmt) =
     (if c = 0 then []
      else if c \<noteq> 37 then Lit c # pieces (d # fmt)
      else if d = 0 then []
      else (if d = 100 then Num else if d = 120 \<or> d = 112 then Hex else if d = 115 then Str
            else if d = 99 then Chr else if d = 37 then Percent else Other d) # pieces fmt)"

fun takes_arg :: "piece \<Rightarrow> bool" where
  "takes_arg Num = True"
| "takes_arg Hex = True"
| "takes_arg Str = True"
| "takes_arg Chr = True"
| "takes_arg _ = False"

fun piece_out :: "(u32 \<Rightarrow> u8 list) \<Rightarrow> piece \<Rightarrow> u32 \<Rightarrow> u8 list \<Rightarrow> bool" where
  "piece_out mem (Lit c) a s \<longleftrightarrow> s = [c]"
| "piece_out mem Num a s \<longleftrightarrow> prints s (sint a < 0) 10 (nat \<bar>sint a\<bar>)"
| "piece_out mem Hex a s \<longleftrightarrow> prints s False 16 (unat a)"
| "piece_out mem Str a s \<longleftrightarrow> s = (if a = 0 then [40, 110, 117, 108, 108, 41] else str_of (mem a))"
| "piece_out mem Chr a s \<longleftrightarrow> s = [ucast a]"
| "piece_out mem Percent a s \<longleftrightarrow> s = [37]"
| "piece_out mem (Other c) a s \<longleftrightarrow> s = [37, c]"

fun pieces_out :: "(u32 \<Rightarrow> u8 list) \<Rightarrow> (nat \<Rightarrow> u32) \<Rightarrow> nat \<Rightarrow> piece list \<Rightarrow> u8 list \<Rightarrow> bool" where
  "pieces_out mem args ap [] out \<longleftrightarrow> out = []"
| "pieces_out mem args ap (p # ps) out \<longleftrightarrow>
     (\<exists>s rest. out = s @ rest \<and> piece_out mem p (args ap) s \<and>
        pieces_out mem args (if takes_arg p then Suc ap else ap) ps rest)"

lemma printint_pieces:
  "\<exists>s. printint a 10 True = Ret s \<and> piece_out mem Num a s"
  "\<exists>s. printint a 16 False = Ret s \<and> piece_out mem Hex a s"
proof -
  have "(if sint a < 0 then nat (- sint a) else unat a) = nat \<bar>sint a\<bar>"
  proof (cases "sint a < 0")
    case False
    then have "uint a = sint a" using uint_of_sint [of a] sint_less [of a] by simp
    then show ?thesis using False by (simp flip: nat_uint_eq)
  qed simp
  then show "\<exists>s. printint a 10 True = Ret s \<and> piece_out mem Num a s" using printint_law [of 10 a True] by simp
  show "\<exists>s. printint a 16 False = Ret s \<and> piece_out mem Hex a s" using printint_law [of 16 a False] by simp
qed

lemma printf_loop_law: "\<exists>out. printf_loop mem args fmt False ap = Ret out \<and> pieces_out mem args ap (pieces fmt) out"
proof (induction fmt arbitrary: ap rule: pieces.induct)
  case (3 c d fmt)
  consider "c = 0" | "c \<noteq> 0" "c \<noteq> 37" | "c = 37" "d = 0" | "c = 37" "d \<noteq> 0" by blast
  then show ?case
  proof cases
    case 2
    with 3(1) [of ap] obtain out where "printf_loop mem args (d # fmt) False ap = Ret out"
      "pieces_out mem args ap (pieces (d # fmt)) out" by auto
    with 2 show ?thesis by (simp del: printf_loop.simps(2) pieces.simps add: printf_loop.simps(2) [of _ _ c] pieces.simps(3) [of c])
  next
    case 4
    obtain o1 where o1: "printf_loop mem args fmt False ap = Ret o1" "pieces_out mem args ap (pieces fmt) o1"
      using 3(2) [of ap] 4 by auto
    obtain o2 where o2: "printf_loop mem args fmt False (Suc ap) = Ret o2" "pieces_out mem args (Suc ap) (pieces fmt) o2"
      using 3(2) [of "Suc ap"] 4 by auto
    obtain s10 s16 where "printint (args ap) 10 True = Ret s10" "piece_out mem Num (args ap) s10"
        "printint (args ap) 16 False = Ret s16" "piece_out mem Hex (args ap) s16"
      using printint_pieces by metis
    with 4 o1 o2 show ?thesis by (auto simp: str_of_def Let_def simp del: piece_out.simps(2,3); blast)
  qed auto
qed auto

lemma atoi_printint_eq:
  assumes "0 \<le> sint x"
  shows "map_res atoi (printint x 10 True) = Ret (sint x)"
proof -
  have "\<not> sint x < 0" using assms by simp
  then obtain s where s: "printint x 10 True = Ret s" "prints s False 10 (unat x)" using printint_law [of 10 x True] by auto
  then obtain ds where ds: "s = map digit_char ds" "\<forall>d\<in>set ds. d < 10" "digits_value 10 ds = unat x" by (auto simp: prints_def)
  have lt: "sint x < 2147483648" using sint_less [of x] by simp
  with assms have u: "int (unat x) = sint x" using uint_of_sint [of x] by simp
  moreover have "unat x < 2147483648" using u lt by linarith
  ultimately have "atoi s = sint x" using atoi_loop_digits [of ds 0 "[]"] ds by (simp add: atoi_def digits_value_def)
  with s show ?thesis by simp
qed

section \<open>Properties\<close>

text \<open>C0. \<open>printf\<close> returns on every format and every sequence of arguments, never running out of its digit buffer, and
  writes the rendering of each piece of the format in order: decimal numbers with their sign and hexadecimal
  numbers without leading zeros, strings up to their zero byte, \<open>(null)\<close> for the null pointer, and unknown
  directives as they stand.\<close>

theorem printf_correct: "\<exists>out. printf mem fmt args = Ret out \<and> pieces_out mem args 0 (pieces fmt) out"
  unfolding printf_def by (rule printf_loop_law)

text \<open>C0. Reading back a printed number: \<open>atoi\<close> of what \<open>%d\<close> prints for a number that is not negative is the number.\<close>

theorem atoi_printint: "0 \<le> sint x \<Longrightarrow> map_res atoi (printint x 10 True) = Ret (sint x)"
  by (rule atoi_printint_eq)

theorem atoi_printint_witness: "0 \<le> sint (2147483647 :: u32) \<and> map_res atoi (printint 2147483647 10 True) = Ret 2147483647"
  using atoi_printint [of 2147483647] by simp

end
