(* ===== verification/Grep.thy ===== *)
theory Grep
  imports User_Lib
begin

text \<open>
  \<open>user/grep.c\<close>: the regular expression matcher, proved to implement the languages of its patterns, and the loop that
  reads a file into a buffer of 1024 bytes and prints the matching lines.
\<close>

section \<open>The matcher\<close>

lemma hd0_length: "hd0 s \<noteq> 0 \<Longrightarrow> length (tl s) < length s" "s \<noteq> [] \<Longrightarrow> length (tl s) < length s"
  by (cases s; simp)+

function (sequential) matchhere :: "u8 list \<Rightarrow> u8 list \<Rightarrow> bool"
  and matchstar :: "u8 \<Rightarrow> u8 list \<Rightarrow> u8 list \<Rightarrow> bool" where
  "matchhere re text =
     (if hd0 re = 0 then True
      else if hd0 (tl re) = 42 then matchstar (hd0 re) (tl (tl re)) text
      else if hd0 re = 36 \<and> hd0 (tl re) = 0 then hd0 text = 0
      else if hd0 text \<noteq> 0 \<and> (hd0 re = 46 \<or> hd0 re = hd0 text) then matchhere (tl re) (tl text)
      else False)"
| "matchstar c re text =
     (if matchhere re text then True
      else if hd0 text \<noteq> 0 \<and> (hd0 text = c \<or> c = 46) then matchstar c re (tl text)
      else False)"
  by pat_completeness auto

termination
  by (relation "measures [\<lambda>x. case x of Inl (re, text) \<Rightarrow> length re | Inr (c, re, text) \<Rightarrow> length re,
      \<lambda>x. case x of Inl (re, text) \<Rightarrow> length text | Inr (c, re, text) \<Rightarrow> length text,
      \<lambda>x. case x of Inl _ \<Rightarrow> 0 | Inr _ \<Rightarrow> 1]") (auto dest!: hd0_length(1) simp: less_diff_conv)

declare matchhere.simps [simp del] matchstar.simps [simp del]

fun match_from :: "u8 list \<Rightarrow> u8 list \<Rightarrow> bool" where
  "match_from re [] = matchhere re []"
| "match_from re (c # text) = (if matchhere re (c # text) then True else if c \<noteq> 0 then match_from re text else False)"

definition match :: "u8 list \<Rightarrow> u8 list \<Rightarrow> bool" where
  "match re text = (if hd0 re = 94 then matchhere (tl re) text else match_from re text)"

section \<open>Reading lines\<close>

text \<open>
  What the successive calls of \<open>read\<close> deliver is a list of chunks; a chunk longer than what was asked for is
  delivered in several parts, and no chunk or an empty one is the end of the file.
\<close>

fun read_chunk :: "u8 list list \<Rightarrow> nat \<Rightarrow> u8 list \<times> u8 list list" where
  "read_chunk [] n = ([], [])"
| "read_chunk (c # cs) n = (take n c, if length c \<le> n then cs else drop n c # cs)"

text \<open>\<open>strchr (p, c)\<close> inside the buffer; it must find \<open>c\<close> or a zero byte before the end.\<close>

definition strchr_in :: "u8 list \<Rightarrow> nat \<Rightarrow> u8 \<Rightarrow> nat option res" where
  "strchr_in buf p c =
     (if 0 \<in> set (drop p buf) \<or> c \<in> set (drop p buf) then Ret (map_option (\<lambda>k. p + k) (strchr (drop p buf) c)) else Fault)"

lemma strchr_bound: "strchr s c = Some k \<Longrightarrow> k < length s"
  by (induction s c arbitrary: k rule: strchr.induct) (auto split: if_splits)

lemma strchr_in_bound: "strchr_in buf p c = Ret (Some q) \<Longrightarrow> p \<le> q \<and> q < length buf"
  by (auto simp: strchr_in_def split: if_splits dest!: strchr_bound)

text \<open>The inner loop: the buffer, where \<open>p\<close> is at the end and what was printed.\<close>

function grep_lines :: "u8 list \<Rightarrow> u8 list \<Rightarrow> nat \<Rightarrow> (u8 list \<times> nat \<times> u8 list) res" where
  "grep_lines pattern buf p =
     rbind (strchr_in buf p 10) (\<lambda>r. case r of
       None \<Rightarrow> Ret (buf, p, [])
     | Some q \<Rightarrow>
         (if match pattern (drop p (buf[q := 0])) then
            rbind (grep_lines pattern (buf[q := 10]) (Suc q)) (\<lambda>(buf', p', out).
            Ret (buf', p', drop p (take (Suc q) (buf[q := 10])) @ out))
          else grep_lines pattern (buf[q := 0]) (Suc q)))"
  by pat_completeness auto
termination
  by (relation "measure (\<lambda>(pattern, buf, p). length buf - p)") (auto dest!: strchr_in_bound)

declare grep_lines.simps [simp del]

lemma read_chunk_shrinks: "read_chunk cs n = (bs, cs') \<Longrightarrow> bs \<noteq> [] \<Longrightarrow> length (concat cs') < length (concat cs)"
  by (cases cs) (auto split: if_splits)

text \<open>The buffer is global: the loop gives it back, with what was printed.\<close>

function grep_loop :: "u8 list \<Rightarrow> u8 list \<Rightarrow> int \<Rightarrow> u8 list list \<Rightarrow> (u8 list \<times> u8 list) res" where
  "grep_loop pattern buf m input =
     (if m < 0 \<or> m > 1024 then Fault
      else let (bs, input') = read_chunk input (1024 - nat m) in
        if bs = [] then Ret (buf, [])
        else
          let buf = take (nat m) buf @ bs @ drop (nat m + length bs) buf; m = m + int (length bs) in
          rbind (grep_lines pattern buf 0) (\<lambda>(buf, p, out).
          let m = (if p = 0 then 0 else m) in
          let (m, buf) = (if m > 0 then
              let m = m - int p in (m, take (nat m) (drop p buf) @ drop (nat m) buf) else (m, buf)) in
          rbind (grep_loop pattern buf m input') (\<lambda>(buf, rest). Ret (buf, out @ rest))))"
  by pat_completeness auto
termination
  by (relation "measure (\<lambda>(pattern, buf, m, input). length (concat input))") (auto dest!: sym [of _ "read_chunk _ _"] read_chunk_shrinks)

declare grep_loop.simps [simp del]

definition grep :: "u8 list \<Rightarrow> u8 list \<Rightarrow> u8 list list \<Rightarrow> (u8 list \<times> u8 list) res" where
  "grep pattern buf input = grep_loop pattern buf 0 input"

text \<open>
  \<open>main\<close>: \<open>files\<close> gives what a file delivers, or that it cannot be opened; the result is what goes to descriptor 1.
\<close>

definition text_bytes :: "string \<Rightarrow> u8 list" where
  "text_bytes s = map of_char s"

fun grep_files :: "(u8 list \<Rightarrow> u8 list list option) \<Rightarrow> u8 list \<Rightarrow> u8 list \<Rightarrow> u8 list list \<Rightarrow> u8 list res" where
  "grep_files files pattern buf [] = Ret []"
| "grep_files files pattern buf (name # names) =
     (case files name of
        None \<Rightarrow> Ret (text_bytes ''grep: cannot open '' @ str_of name @ [10])
      | Some input \<Rightarrow>
          rbind (grep pattern buf input) (\<lambda>(buf, out).
          rbind (grep_files files pattern buf names) (\<lambda>rest. Ret (out @ rest))))"

definition grep_main :: "(u8 list \<Rightarrow> u8 list list option) \<Rightarrow> u8 list list \<Rightarrow> u8 list list \<Rightarrow> u8 list res" where
  "grep_main files stdin argv =
     (let buf = replicate 1024 0 in
      case argv of
        _ # pattern # [] \<Rightarrow> rbind (grep pattern buf stdin) (\<lambda>(buf, out). Ret out)
      | _ # pattern # names \<Rightarrow> grep_files files pattern buf names
      | _ \<Rightarrow> Ret [])"

section \<open>The language of a pattern\<close>

datatype item = One u8 | Star u8

text \<open>The items of a pattern without its \<open>^\<close>, and whether it ends in \<open>$\<close>.\<close>

function items :: "u8 list \<Rightarrow> item list \<times> bool" where
  "items re =
     (if hd0 re = 0 then ([], False)
      else if hd0 (tl re) = 42 then (let (is, e) = items (tl (tl re)) in (Star (hd0 re) # is, e))
      else if hd0 re = 36 \<and> hd0 (tl re) = 0 then ([], True)
      else (let (is, e) = items (tl re) in (One (hd0 re) # is, e)))"
  by pat_completeness auto
termination
  by (relation "measure length") (auto dest!: hd0_length(1) simp: less_diff_conv)

declare items.simps [simp del]

text \<open>A dot stands for any character.\<close>

definition accepts :: "u8 \<Rightarrow> u8 \<Rightarrow> bool" where
  "accepts a c \<longleftrightarrow> c \<noteq> 0 \<and> (a = 46 \<or> a = c)"

fun lang :: "item list \<Rightarrow> u8 list set" where
  "lang [] = {[]}"
| "lang (One a # is) = {c # w | c w. accepts a c \<and> w \<in> lang is}"
| "lang (Star a # is) = {u @ w | u w. (\<forall>c\<in>set u. accepts a c) \<and> w \<in> lang is}"

text \<open>A word of the language at the beginning of a string, and at its end too where that is asked for.\<close>

definition here :: "item list \<times> bool \<Rightarrow> u8 list \<Rightarrow> bool" where
  "here ie s \<longleftrightarrow> (\<exists>w post. s = w @ post \<and> w \<in> lang (fst ie) \<and> (snd ie \<longrightarrow> post = []))"

lemma hereI: "w \<in> lang is \<Longrightarrow> (e \<Longrightarrow> post = []) \<Longrightarrow> here (is, e) (w @ post)"
  by (auto simp: here_def)

lemma hereE:
  assumes "here (is, e) s"
  obtains w post where "s = w @ post" "w \<in> lang is" "e \<longrightarrow> post = []"
  using assms unfolding here_def fst_conv snd_conv by blast

lemma here_Nil: "here ([], e) s \<longleftrightarrow> \<not> e \<or> s = []"
  by (auto simp: here_def)

lemma here_One: "here (One a # is, e) s \<longleftrightarrow> (\<exists>c s'. s = c # s' \<and> accepts a c \<and> here (is, e) s')"
proof
  assume "here (One a # is, e) s"
  then obtain v post where v: "s = v @ post" "v \<in> lang (One a # is)" "e \<longrightarrow> post = []" by (rule hereE)
  then obtain c w where "v = c # w" "accepts a c" "w \<in> lang is" by auto
  then show "\<exists>c s'. s = c # s' \<and> accepts a c \<and> here (is, e) s'" using v hereI [of w "is" e post] by simp
next
  assume "\<exists>c s'. s = c # s' \<and> accepts a c \<and> here (is, e) s'"
  then obtain c s' where c: "s = c # s'" "accepts a c" "here (is, e) s'" by blast
  from c(3) obtain w post where "s' = w @ post" "w \<in> lang is" "e \<longrightarrow> post = []" by (rule hereE)
  then show "here (One a # is, e) s" using c hereI [of "c # w" "One a # is" e post] by simp
qed

lemma lang_StarI: "\<forall>c\<in>set u. accepts a c \<Longrightarrow> w \<in> lang is \<Longrightarrow> u @ w \<in> lang (Star a # is)"
  by auto

lemma here_StarI: "\<forall>c\<in>set u. accepts a c \<Longrightarrow> here (is, e) s \<Longrightarrow> here (Star a # is, e) (u @ s)"
  by (erule hereE) (use hereI [OF lang_StarI [of u a]] in simp)

lemma here_StarE:
  assumes "here (Star a # is, e) s"
  obtains u s' where "s = u @ s'" "\<forall>c\<in>set u. accepts a c" "here (is, e) s'"
proof -
  obtain v post where v: "s = v @ post" "v \<in> lang (Star a # is)" "e \<longrightarrow> post = []" using assms by (rule hereE)
  then obtain u w where "v = u @ w" "\<forall>c\<in>set u. accepts a c" "w \<in> lang is" by auto
  with v hereI [of w "is" e post] that [of u "w @ post"] show thesis by simp
qed

lemma here_Star: "here (Star a # is, e) s \<longleftrightarrow> here (is, e) s \<or> (\<exists>c s'. s = c # s' \<and> accepts a c \<and> here (Star a # is, e) s')"
  (is "?L \<longleftrightarrow> ?R")
proof
  assume ?L
  then obtain u s' where s: "s = u @ s'" "\<forall>c\<in>set u. accepts a c" "here (is, e) s'" by (rule here_StarE)
  then show ?R using here_StarI [of "tl u" a "is" e s'] by (cases u) auto
next
  assume ?R
  then show ?L
  proof
    assume "here (is, e) s"
    then show ?L using here_StarI [of "[]" a] by simp
  next
    assume "\<exists>c s'. s = c # s' \<and> accepts a c \<and> here (Star a # is, e) s'"
    then obtain c s' where c: "s = c # s'" "accepts a c" "here (Star a # is, e) s'" by blast
    from c(3) obtain u t where "s' = u @ t" "\<forall>c\<in>set u. accepts a c" "here (is, e) t" by (rule here_StarE)
    with c show ?L using here_StarI [of "c # u" a "is" e t] by simp
  qed
qed

lemma matcher_law:
  "matchhere re text \<longleftrightarrow> here (items re) (str_of text)"
  "matchstar c re' text' \<longleftrightarrow> here (Star c # fst (items re'), snd (items re')) (str_of text')"
proof (induction re "text" and c re' text' rule: matchhere_matchstar.induct)
  case (1 re t)
  show ?case
  proof (cases "hd0 re = 0")
    case False
    note re = this
    show ?thesis
    proof (cases "hd0 (tl re) = 42")
      case True
      then show ?thesis using 1(1) re by (simp add: matchhere.simps [of re] items.simps [of re] split_beta Let_def)
    next
      case False
      then show ?thesis using 1(2) re hd0_eq_str_of [of t]
        by (cases "items (tl re)") (auto simp: matchhere.simps [of re] items.simps [of re] here_Nil here_One accepts_def)
    qed
  qed (simp add: matchhere.simps [of re] items.simps [of re] here_Nil)
next
  case (2 c re t)
  then show ?case using hd0_eq_str_of [of t]
    by (auto simp: matchstar.simps [of c re t] here_Star [of c _ _ "str_of t"] accepts_def)
qed

text \<open>A pattern matches a line when a word of its language is somewhere in it, at the anchors where it has them.\<close>

definition pattern_in :: "u8 list \<Rightarrow> u8 list \<Rightarrow> bool" where
  "pattern_in re s \<longleftrightarrow>
     (let bol = (hd0 re = 94); ie = items (if bol then tl re else re) in
      \<exists>pre w post. s = pre @ w @ post \<and> w \<in> lang (fst ie) \<and> (bol \<longrightarrow> pre = []) \<and> (snd ie \<longrightarrow> post = []))"

lemma match_from_law: "match_from re text \<longleftrightarrow> (\<exists>pre s. str_of text = pre @ s \<and> here (items re) s)"
proof (induction re "text" rule: match_from.induct)
  case (2 re c t)
  have "(\<exists>pre s. str_of (c # t) = pre @ s \<and> here (items re) s) \<longleftrightarrow>
      here (items re) (str_of (c # t)) \<or> (c \<noteq> 0 \<and> (\<exists>pre s. str_of t = pre @ s \<and> here (items re) s))"
    by (auto simp: Cons_eq_append_conv)
  then show ?case using 2 by (auto simp: matcher_law)
qed (simp add: matcher_law)

lemma match_law: "match re text \<longleftrightarrow> pattern_in re (str_of text)"
proof (cases "hd0 re = 94")
  case True
  then show ?thesis by (simp add: match_def pattern_in_def matcher_law here_def Let_def)
next
  case False
  then show ?thesis by (simp add: match_def pattern_in_def match_from_law here_def Let_def) blast
qed

section \<open>The lines printed\<close>

text \<open>The complete lines of a text, without their newlines.\<close>

function lines :: "u8 list \<Rightarrow> u8 list list" where
  "lines s = (if 10 \<in> set s then takeWhile (\<lambda>c. c \<noteq> 10) s # lines (tl (dropWhile (\<lambda>c. c \<noteq> 10) s)) else [])"
  by pat_completeness auto
termination
  by (relation "measure length")
    (auto intro!: le_less_trans [OF diff_le_mono [OF length_dropWhile_le]] simp: length_greater_0_conv [symmetric] simp del: length_greater_0_conv dest: length_pos_if_in_set)

declare lines.simps [simp del]

lemma at_newline:
  "10 \<notin> set l \<Longrightarrow> takeWhile (\<lambda>c. c \<noteq> 10) (l @ 10 # r) = l" "10 \<notin> set l \<Longrightarrow> dropWhile (\<lambda>c. c \<noteq> 10) (l @ 10 # r) = 10 # r"
  for l :: "u8 list"
  by (induction l) auto

lemma lines_split: "10 \<notin> set l \<Longrightarrow> lines (l @ 10 # r) = l # lines r"
  by (subst lines.simps) (simp add: at_newline)

definition print_lines :: "u8 list list \<Rightarrow> u8 list" where
  "print_lines ls = concat (map (\<lambda>l. l @ [10]) ls)"

lemma str_of_append: "0 \<notin> set s \<Longrightarrow> str_of (s @ t) = s @ str_of t"
  by (induction s) auto

lemma strchr_in_law:
  assumes "0 \<notin> set s"
  shows "strchr_in (pre @ s @ 0 # z) (length pre) 10 =
    Ret (if 10 \<in> set s then Some (length pre + length (takeWhile (\<lambda>c. c \<noteq> 10) s)) else None)"
  using assms by (simp add: strchr_in_def strchr_eq str_of_append)

lemma grep_lines_law:
  assumes "0 \<notin> set s"
  shows "\<exists>buf p. grep_lines re (pre @ s @ 0 # z) (length pre) = Ret (buf, p, print_lines (filter (pattern_in re) (lines s))) \<and>
    p \<le> length pre + length s"
  using assms
proof (induction s arbitrary: pre rule: length_induct)
  case (1 s)
  show ?case
  proof (cases "10 \<in> set s")
    case False
    then show ?thesis using 1(2) by (simp add: grep_lines.simps strchr_in_law lines.simps print_lines_def)
  next
    case True
    then obtain l r where s: "s = l @ 10 # r" and l: "10 \<notin> set l" by (meson split_list_first)
    have z: "0 \<notin> set l" "0 \<notin> set r" using 1(2) by (auto simp: s)
    have q: "strchr_in (pre @ s @ 0 # z) (length pre) 10 = Ret (Some (length pre + length l))"
      using strchr_in_law [OF 1(2), of pre z] l by (simp add: s at_newline)
    have upd: "(pre @ s @ 0 # z)[length pre + length l := c] = (pre @ l @ [c]) @ r @ 0 # z" for c
      by (simp add: s list_update_append)
    have m: "match re (drop (length pre) ((pre @ l @ [0]) @ r @ 0 # z)) \<longleftrightarrow> pattern_in re l"
      using z by (simp add: match_law str_of_append)
    have IH: "\<exists>buf p. grep_lines re ((pre @ l @ [c]) @ r @ 0 # z) (Suc (length pre + length l)) =
        Ret (buf, p, print_lines (filter (pattern_in re) (lines r))) \<and> p \<le> length pre + length s" for c
      using 1(1) [rule_format, of r "pre @ l @ [c]"] z by (simp add: s add.assoc)
    have step: "grep_lines re (pre @ s @ 0 # z) (length pre) =
        (if pattern_in re l then
           rbind (grep_lines re ((pre @ l @ [10]) @ r @ 0 # z) (Suc (length pre + length l))) (\<lambda>(buf, p, out). Ret (buf, p, l @ 10 # out))
         else grep_lines re ((pre @ l @ [0]) @ r @ 0 # z) (Suc (length pre + length l)))"
      unfolding grep_lines.simps [of re "pre @ s @ 0 # z"] q rbind.simps option.case upd m by simp
    show ?thesis using IH [of 0] IH [of 10] unfolding step by (auto simp: s lines_split [OF l] print_lines_def)
  qed
qed

lemma grep_loop_end: "0 \<le> m \<Longrightarrow> m \<le> 1024 \<Longrightarrow> grep_loop re buf m [] = Ret (buf, [])"
  by (simp add: grep_loop.simps)

section \<open>Properties\<close>

text \<open>C0. The matcher decides the language of its pattern: \<open>match\<close> is true exactly when the line has a part that
  belongs to the language denoted by the pattern, at the beginning of the line for a pattern that starts
  with \<open>^\<close> and at the end for one that ends in \<open>$\<close>.\<close>

theorem match_correct: "match re line \<longleftrightarrow> pattern_in re (str_of line)"
  by (rule match_law)



end
