(* ===== verification/Sh.thy ===== *)
theory Sh
  imports User_Lib
begin

text \<open>
  The shell, \<open>user/sh.c\<close>: its command parser and the system calls with which it runs a command. The line to be parsed is a
  list of bytes without zeros; a pointer into it is an index, and \<open>es\<close> is its length, where the terminating zero
  is. A word is kept as the pair of its first position and the position after its last, as \<open>argv\<close> and \<open>eargv\<close>
  (\<open>file\<close> and \<open>efile\<close>) keep it. The recursion of the parser is bounded by a fuel argument; \<open>NoRet\<close> is a parser
  that has used it up.
\<close>

section \<open>Commands\<close>

abbreviation MAXARGS :: nat where "MAXARGS \<equiv> 10"
abbreviation O_RDONLY :: int where "O_RDONLY \<equiv> 0"
abbreviation O_WRONLY :: int where "O_WRONLY \<equiv> 1"
abbreviation O_RDWR :: int where "O_RDWR \<equiv> 2"
abbreviation O_CREATE :: int where "O_CREATE \<equiv> 512"

type_synonym token = "nat \<times> nat"

datatype cmd =
    EXEC "token list"
  | REDIR cmd token int int
  | PIPE cmd cmd
  | LIST cmd cmd
  | BACK cmd

definition execcmd :: cmd where
  "execcmd = EXEC []"

definition redircmd :: "cmd \<Rightarrow> token \<Rightarrow> int \<Rightarrow> int \<Rightarrow> cmd" where
  "redircmd subcmd file mode fd = REDIR subcmd file mode fd"

definition pipecmd :: "cmd \<Rightarrow> cmd \<Rightarrow> cmd" where
  "pipecmd left right = PIPE left right"

definition listcmd :: "cmd \<Rightarrow> cmd \<Rightarrow> cmd" where
  "listcmd left right = LIST left right"

definition backcmd :: "cmd \<Rightarrow> cmd" where
  "backcmd subcmd = BACK subcmd"

section \<open>Tokens\<close>

definition whitespace :: "u8 list" where
  "whitespace = [32, 9, 13, 10, 11]"

definition symbols :: "u8 list" where
  "symbols = [60, 124, 62, 38, 59, 40, 41]"

definition at :: "u8 list \<Rightarrow> nat \<Rightarrow> u8" where
  "at buf s = (if s < length buf then buf ! s else 0)"

definition is_white :: "u8 \<Rightarrow> bool" where
  "is_white c \<longleftrightarrow> strchr whitespace c \<noteq> None"

definition is_symbol :: "u8 \<Rightarrow> bool" where
  "is_symbol c \<longleftrightarrow> strchr symbols c \<noteq> None"

text \<open>\<open>while(s < es && P(*s)) s++\<close>\<close>

function skip :: "(u8 \<Rightarrow> bool) \<Rightarrow> u8 list \<Rightarrow> nat \<Rightarrow> nat" where
  "skip P buf s = (if s < length buf \<and> P (at buf s) then skip P buf (Suc s) else s)"
  by pat_completeness auto
termination
  by (relation "measure (\<lambda>(P, buf, s). length buf - s)") auto

declare skip.simps [simp del]

text \<open>The token, its positions \<open>*q\<close> and \<open>*eq\<close>, and the new \<open>*ps\<close>.\<close>

definition gettoken :: "u8 list \<Rightarrow> nat \<Rightarrow> u8 \<times> nat \<times> nat \<times> nat" where
  "gettoken buf ps =
     (let q = skip is_white buf ps;
          c = at buf q;
          (r, s) =
            (if c = 0 then (c, q)
             else if c \<in> {124, 40, 41, 59, 38, 60} then (c, Suc q)
             else if c = 62 then (if at buf (Suc q) = 62 then (43, Suc (Suc q)) else (c, Suc q))
             else (97, skip (\<lambda>c. \<not> is_white c \<and> \<not> is_symbol c) buf q))
      in (r, q, s, skip is_white buf s))"

definition peek :: "u8 list \<Rightarrow> nat \<Rightarrow> u8 list \<Rightarrow> bool \<times> nat" where
  "peek buf ps toks =
     (let s = skip is_white buf ps in (at buf s \<noteq> 0 \<and> strchr toks (at buf s) \<noteq> None, s))"

section \<open>The parser\<close>

text \<open>
  \<open>parseexec\<close> goes on adding words to its \<open>execcmd\<close> through a second pointer after redirections have been put
  around it; \<open>upd_exec\<close> is such an update.
\<close>

fun upd_exec :: "(token list \<Rightarrow> token list) \<Rightarrow> cmd \<Rightarrow> cmd" where
  "upd_exec f (EXEC args) = EXEC (f args)"
| "upd_exec f (REDIR c t m fd) = REDIR (upd_exec f c) t m fd"
| "upd_exec f c = c"

fun parseredirs :: "nat \<Rightarrow> u8 list \<Rightarrow> cmd \<Rightarrow> nat \<Rightarrow> (cmd \<times> nat) res" where
  "parseredirs 0 buf cmd ps = NoRet"
| "parseredirs (Suc fuel) buf cmd ps =
     (let (b, ps) = peek buf ps [60, 62] in
      if b then
        let (tok, _, _, ps) = gettoken buf ps; (w, q, eq, ps) = gettoken buf ps in
        if w \<noteq> 97 then Halt ''missing file for redirection''
        else
          parseredirs fuel buf
            (if tok = 60 then redircmd cmd (q, eq) O_RDONLY 0
             else if tok = 62 then redircmd cmd (q, eq) (O_WRONLY + O_CREATE) 1
             else if tok = 43 then redircmd cmd (q, eq) (O_WRONLY + O_CREATE) 1
             else cmd) ps
      else Ret (cmd, ps))"

text \<open>The loop of \<open>parseexec\<close> over the words of a simple command; \<open>argc\<close> of them have been read.\<close>

fun parseargs :: "nat \<Rightarrow> u8 list \<Rightarrow> cmd \<Rightarrow> nat \<Rightarrow> nat \<Rightarrow> (cmd \<times> nat) res" where
  "parseargs 0 buf r argc ps = NoRet"
| "parseargs (Suc fuel) buf r argc ps =
     (let (b, ps) = peek buf ps [124, 41, 38, 59] in
      if b then (if argc < MAXARGS then Ret (r, ps) else Fault)
      else
        let (tok, q, eq, ps) = gettoken buf ps in
        if tok = 0 then (if argc < MAXARGS then Ret (r, ps) else Fault)
        else if tok \<noteq> 97 then Halt ''syntax''
        else if argc \<ge> MAXARGS then Fault
        else
          let r = upd_exec (\<lambda>args. args @ [(q, eq)]) r; argc = Suc argc in
          if argc \<ge> MAXARGS then Halt ''too many args''
          else
            rbind (parseredirs (Suc (length buf)) buf r ps) (\<lambda>(r, ps).
            parseargs fuel buf r argc ps))"

text \<open>\<open>while(peek(ps, es, "&"))\<close> of \<open>parseline\<close>.\<close>

fun parsebacks :: "nat \<Rightarrow> u8 list \<Rightarrow> cmd \<Rightarrow> nat \<Rightarrow> (cmd \<times> nat) res" where
  "parsebacks 0 buf cmd ps = NoRet"
| "parsebacks (Suc fuel) buf cmd ps =
     (let (b, ps) = peek buf ps [38] in
      if b then let (_, _, _, ps) = gettoken buf ps in parsebacks fuel buf (backcmd cmd) ps
      else Ret (cmd, ps))"

fun parseline :: "nat \<Rightarrow> u8 list \<Rightarrow> nat \<Rightarrow> (cmd \<times> nat) res"
  and parsepipe :: "nat \<Rightarrow> u8 list \<Rightarrow> nat \<Rightarrow> (cmd \<times> nat) res"
  and parseexec :: "nat \<Rightarrow> u8 list \<Rightarrow> nat \<Rightarrow> (cmd \<times> nat) res"
  and parseblock :: "nat \<Rightarrow> u8 list \<Rightarrow> nat \<Rightarrow> (cmd \<times> nat) res" where
  "parseline 0 buf ps = NoRet"
| "parseline (Suc fuel) buf ps =
     rbind (parsepipe fuel buf ps) (\<lambda>(cmd, ps).
     rbind (parsebacks (Suc (length buf)) buf cmd ps) (\<lambda>(cmd, ps).
     let (b, ps) = peek buf ps [59] in
     if b then
       let (_, _, _, ps) = gettoken buf ps in
       rbind (parseline fuel buf ps) (\<lambda>(rest, ps). Ret (listcmd cmd rest, ps))
     else Ret (cmd, ps)))"
| "parsepipe 0 buf ps = NoRet"
| "parsepipe (Suc fuel) buf ps =
     rbind (parseexec fuel buf ps) (\<lambda>(cmd, ps).
     let (b, ps) = peek buf ps [124] in
     if b then
       let (_, _, _, ps) = gettoken buf ps in
       rbind (parsepipe fuel buf ps) (\<lambda>(rest, ps). Ret (pipecmd cmd rest, ps))
     else Ret (cmd, ps))"
| "parseexec 0 buf ps = NoRet"
| "parseexec (Suc fuel) buf ps =
     (let (b, ps) = peek buf ps [40] in
      if b then parseblock fuel buf ps
      else
        rbind (parseredirs (Suc (length buf)) buf execcmd ps) (\<lambda>(r, ps).
        parseargs (Suc (length buf)) buf r 0 ps))"
| "parseblock 0 buf ps = NoRet"
| "parseblock (Suc fuel) buf ps =
     (let (b, ps) = peek buf ps [40] in
      if \<not> b then Halt ''parseblock''
      else
        let (_, _, _, ps) = gettoken buf ps in
        rbind (parseline fuel buf ps) (\<lambda>(cmd, ps).
        let (b, ps) = peek buf ps [41] in
        if \<not> b then Halt ''syntax - missing )''
        else let (_, _, _, ps) = gettoken buf ps in parseredirs (Suc (length buf)) buf cmd ps))"

declare parseredirs.simps(2) [simp del] parseargs.simps(2) [simp del] parsebacks.simps(2) [simp del]

text \<open>The zero bytes that end the words of a command: the buffer, one byte longer than the string, after them.\<close>

fun nulterminate :: "cmd \<Rightarrow> u8 list \<Rightarrow> u8 list" where
  "nulterminate (EXEC args) buf = fold (\<lambda>(q, eq) buf. buf[eq := 0]) args buf"
| "nulterminate (REDIR c (q, eq) m fd) buf = (nulterminate c buf)[eq := 0]"
| "nulterminate (PIPE l r) buf = nulterminate r (nulterminate l buf)"
| "nulterminate (LIST l r) buf = nulterminate r (nulterminate l buf)"
| "nulterminate (BACK c) buf = nulterminate c buf"

definition parsecmd :: "u8 list \<Rightarrow> (cmd \<times> u8 list) res" where
  "parsecmd s =
     (let buf = str_of s in
      rbind (parseline (4 * length buf + 4) buf 0) (\<lambda>(cmd, ps).
      let (_, ps) = peek buf ps [] in
      if ps \<noteq> length buf then Halt ''syntax''
      else Ret (cmd, nulterminate cmd (buf @ [0]))))"

section \<open>Running a command\<close>

text \<open>
  What a process does, as the list of its system calls; the one that forks carries what the child does. The two ends
  of the pipe a process makes are \<open>P0\<close> and \<open>P1\<close>. What the kernel answers is a parameter: which calls of \<open>open\<close>, \<open>exec\<close>,
  \<open>pipe\<close> and \<open>fork\<close> succeed, the last two by the command they are made for.
\<close>

datatype fdesc = Fd int | P0 | P1

datatype act =
    Close fdesc
  | Open token int
  | Dup fdesc
  | MakePipe
  | Fork "act list"
  | Wait
  | Print string
  | ExecProg "token list"
  | Exit

record kernel_answers =
  open_ok :: "token \<Rightarrow> int \<Rightarrow> bool"
  exec_ok :: "token list \<Rightarrow> bool"
  pipe_ok :: "cmd \<Rightarrow> bool"
  fork_ok :: "cmd \<Rightarrow> bool"

text \<open>\<open>if(fork1() == 0) child\<close>, and what the parent does after it.\<close>

definition fork1 :: "bool \<Rightarrow> act list \<Rightarrow> act list \<Rightarrow> act list" where
  "fork1 ok child parent = (if ok then Fork child # parent else [Print ''fork'', Exit])"

fun runcmd :: "kernel_answers \<Rightarrow> cmd \<Rightarrow> act list" where
  "runcmd k (EXEC args) =
     (if args = [] then [Exit]
      else ExecProg args # (if exec_ok k args then [] else [Print ''exec failed'', Exit]))"
| "runcmd k (REDIR c file mode fd) =
     Close (Fd fd) # Open file mode #
     (if \<not> open_ok k file mode then [Print ''open failed'', Exit] else runcmd k c)"
| "runcmd k (LIST left right) = fork1 (fork_ok k left) (runcmd k left) (Wait # runcmd k right)"
| "runcmd k (PIPE left right) =
     (if \<not> pipe_ok k (PIPE left right) then [MakePipe, Print ''pipe'', Exit]
      else
        MakePipe #
        fork1 (fork_ok k left) ([Close (Fd 1), Dup P1, Close P0, Close P1] @ runcmd k left)
        (fork1 (fork_ok k right) ([Close (Fd 0), Dup P0, Close P0, Close P1] @ runcmd k right)
        [Close P0, Close P1, Wait, Wait, Exit]))"
| "runcmd k (BACK c) = fork1 (fork_ok k c) (runcmd k c) [Exit]"

text \<open>
  The loop of \<open>main\<close> over what is typed: a change of directory is done by the shell itself, every other line is
  parsed and run by a child.
\<close>

datatype shell_act = Chdir "u8 list" | RunLine "(cmd \<times> u8 list) res"

definition getcmd :: "u8 list \<Rightarrow> (u8 list \<times> u8 list) option" where
  "getcmd input =
     (let l = gets_loop 100 input in if hd0 l = 0 then None else Some (l, drop (length l) input))"

lemma getcmd_shrinks: "getcmd input = Some (l, rest) \<Longrightarrow> length rest < length input"
  by (cases input) (auto simp: getcmd_def Let_def split: if_splits intro: diff_less, cases "gets_loop 100 input", auto)

function sh_main :: "u8 list \<Rightarrow> shell_act list" where
  "sh_main input =
     (case getcmd input of
        None \<Rightarrow> []
      | Some (buf, rest) \<Rightarrow>
          (if take 3 buf = [99, 100, 32] then Chdir (drop 3 (butlast (str_of buf))) else RunLine (parsecmd buf)) # sh_main rest)"
  by pat_completeness auto
termination
  by (relation "measure length") (auto dest: getcmd_shrinks)

section \<open>Tokens, specification\<close>

lemma skip_law:
  assumes "s \<le> length buf"
  shows "s \<le> skip P buf s \<and> skip P buf s \<le> length buf \<and> (\<forall>i. s \<le> i \<longrightarrow> i < skip P buf s \<longrightarrow> P (buf ! i)) \<and>
    (skip P buf s < length buf \<longrightarrow> \<not> P (buf ! skip P buf s))"
  using assms
proof (induction P buf s rule: skip.induct)
  case (1 P buf s)
  show ?case
  proof (cases "s < length buf \<and> P (buf ! s)")
    case True
    then have u: "skip P buf s = skip P buf (Suc s)" by (simp add: skip.simps [of P buf s] at_def)
    have IH: "Suc s \<le> skip P buf (Suc s)" "skip P buf (Suc s) \<le> length buf"
      "\<And>i. Suc s \<le> i \<Longrightarrow> i < skip P buf (Suc s) \<Longrightarrow> P (buf ! i)"
      "skip P buf (Suc s) < length buf \<Longrightarrow> \<not> P (buf ! skip P buf (Suc s))"
      using 1(1) True by (auto simp: at_def)
    have "P (buf ! i)" if "s \<le> i" "i < skip P buf (Suc s)" for i
      using IH(3) [of i] that True by (cases "i = s") auto
    with IH show ?thesis unfolding u by auto
  next
    case False
    then show ?thesis using 1(2) by (auto simp: skip.simps [of P buf s] at_def)
  qed
qed

text \<open>A word: as long as it can be, of characters that are neither white space nor symbols.\<close>

definition word_char :: "u8 \<Rightarrow> bool" where
  "word_char c \<longleftrightarrow> c \<notin> {32, 9, 13, 10, 11} \<and> c \<notin> {60, 124, 62, 38, 59, 40, 41}"

definition token_ok :: "u8 list \<Rightarrow> token \<Rightarrow> bool" where
  "token_ok buf t \<longleftrightarrow> (case t of (q, eq) \<Rightarrow> q < eq \<and> eq \<le> length buf \<and>
     (\<forall>i. q \<le> i \<longrightarrow> i < eq \<longrightarrow> word_char (buf ! i)) \<and> (eq < length buf \<longrightarrow> \<not> word_char (buf ! eq)))"

lemma is_symbol_iff: "is_symbol c \<longleftrightarrow> c \<in> {60, 124, 62, 38, 59, 40, 41}"
  by (auto simp: is_symbol_def symbols_def)

lemma is_white_iff: "is_white c \<longleftrightarrow> c \<in> {32, 9, 13, 10, 11}"
  by (auto simp: is_white_def whitespace_def)

lemma word_char_iff: "word_char c \<longleftrightarrow> \<not> is_white c \<and> \<not> is_symbol c"
  by (simp only: word_char_def is_white_iff is_symbol_iff)

lemma peek_law:
  assumes "ps \<le> length buf" and "peek buf ps toks = (b, s)"
  shows "ps \<le> s \<and> s \<le> length buf \<and> (b \<longrightarrow> s < length buf \<and> \<not> is_white (buf ! s) \<and> strchr toks (buf ! s) \<noteq> None)"
  using skip_law [OF assms(1), of is_white] assms(2) by (auto simp: peek_def Let_def at_def split: if_splits)

lemma gettoken_law:
  assumes "ps \<le> length buf" and "gettoken buf ps = (r, q, s, ps')"
  shows "ps \<le> q" "q \<le> s" "s \<le> ps'" "ps' \<le> length buf" "r \<noteq> 0 \<longrightarrow> q < s" "r = 97 \<longrightarrow> token_ok buf (q, s)"
proof -
  define w where "w = skip is_white buf ps"
  have w: "ps \<le> w" "w \<le> length buf" "w < length buf \<Longrightarrow> \<not> is_white (buf ! w)"
    using skip_law [OF assms(1), of is_white] by (auto simp: w_def)
  have q: "q = w" and ps': "ps' = skip is_white buf s" using assms(2) by (auto simp: gettoken_def Let_def w_def split_beta split: if_splits)
  have "w \<le> s \<and> s \<le> length buf \<and> (r \<noteq> 0 \<longrightarrow> w < s) \<and> (r = 97 \<longrightarrow> token_ok buf (w, s))"
  proof (cases "at buf w = 0 \<or> is_symbol (at buf w)")
    case True
    then show ?thesis using assms(2) w(2)
      by (auto simp: gettoken_def Let_def is_symbol_iff at_def simp flip: w_def split: if_splits)
  next
    case False
    then have lt: "w < length buf" by (auto simp: at_def split: if_splits)
    then have wc: "word_char (buf ! w)" using False w(3) by (simp add: word_char_iff at_def)
    have s: "r = 97" "s = skip (\<lambda>c. \<not> is_white c \<and> \<not> is_symbol c) buf w" using False assms(2)
      by (auto simp: gettoken_def Let_def is_symbol_iff simp flip: w_def split: if_splits)
    have k: "skip (\<lambda>c. \<not> is_white c \<and> \<not> is_symbol c) buf w = skip (\<lambda>c. \<not> is_white c \<and> \<not> is_symbol c) buf (Suc w)"
      using lt wc by (subst skip.simps) (simp add: at_def word_char_iff)
    show ?thesis using skip_law [of w buf "\<lambda>c. \<not> is_white c \<and> \<not> is_symbol c"] skip_law [of "Suc w" buf "\<lambda>c. \<not> is_white c \<and> \<not> is_symbol c"] lt
      unfolding s(2) token_ok_def word_char_iff by (simp add: k)
  qed
  then show "ps \<le> q" "q \<le> s" "s \<le> ps'" "ps' \<le> length buf" "r \<noteq> 0 \<longrightarrow> q < s" "r = 97 \<longrightarrow> token_ok buf (q, s)"
    using w skip_law [of s buf is_white] by (simp_all add: q ps')
qed

section \<open>The parser returns good commands\<close>

fun tokens :: "cmd \<Rightarrow> token list" where
  "tokens (EXEC args) = args"
| "tokens (REDIR c t m fd) = tokens c @ [t]"
| "tokens (PIPE l r) = tokens l @ tokens r"
| "tokens (LIST l r) = tokens l @ tokens r"
| "tokens (BACK c) = tokens c"

text \<open>\<open>argv\<close> has room for the words and the null pointer after them.\<close>

fun args_fit :: "cmd \<Rightarrow> bool" where
  "args_fit (EXEC args) \<longleftrightarrow> length args < MAXARGS"
| "args_fit (REDIR c t m fd) \<longleftrightarrow> args_fit c"
| "args_fit (PIPE l r) \<longleftrightarrow> args_fit l \<and> args_fit r"
| "args_fit (LIST l r) \<longleftrightarrow> args_fit l \<and> args_fit r"
| "args_fit (BACK c) \<longleftrightarrow> args_fit c"

definition cmd_ok :: "u8 list \<Rightarrow> cmd \<Rightarrow> bool" where
  "cmd_ok buf c \<longleftrightarrow> args_fit c \<and> (\<forall>t\<in>set (tokens c). token_ok buf t)"

lemma cmd_ok_simps [simp]:
  "cmd_ok buf (EXEC args) \<longleftrightarrow> length args < MAXARGS \<and> (\<forall>t\<in>set args. token_ok buf t)"
  "cmd_ok buf (REDIR c t m fd) \<longleftrightarrow> cmd_ok buf c \<and> token_ok buf t"
  "cmd_ok buf (PIPE l r) \<longleftrightarrow> cmd_ok buf l \<and> cmd_ok buf r"
  "cmd_ok buf (LIST l r) \<longleftrightarrow> cmd_ok buf l \<and> cmd_ok buf r"
  "cmd_ok buf (BACK c) \<longleftrightarrow> cmd_ok buf c"
  by (auto simp: cmd_ok_def)

lemmas cmd_defs = execcmd_def redircmd_def pipecmd_def listcmd_def backcmd_def

text \<open>The number of words of a simple command under its redirections.\<close>

fun argc_is :: "nat \<Rightarrow> cmd \<Rightarrow> bool" where
  "argc_is n (EXEC args) \<longleftrightarrow> length args = n"
| "argc_is n (REDIR c t m fd) \<longleftrightarrow> argc_is n c"
| "argc_is n c \<longleftrightarrow> False"

lemma upd_exec_ok:
  "argc_is n c \<Longrightarrow> cmd_ok buf c \<Longrightarrow> token_ok buf t \<Longrightarrow> Suc n < MAXARGS \<Longrightarrow>
    argc_is (Suc n) (upd_exec (\<lambda>args. args @ [t]) c) \<and> cmd_ok buf (upd_exec (\<lambda>args. args @ [t]) c)"
  by (induction c) auto

text \<open>A parser that starts at \<open>ps\<close> ends with an error message, or with a command and a position not before \<open>ps\<close>.\<close>

definition parsed :: "u8 list \<Rightarrow> nat \<Rightarrow> (cmd \<Rightarrow> bool) \<Rightarrow> (cmd \<times> nat) res \<Rightarrow> bool" where
  "parsed buf ps Q r \<longleftrightarrow> (case r of Ret (c, ps') \<Rightarrow> ps \<le> ps' \<and> ps' \<le> length buf \<and> cmd_ok buf c \<and> Q c | Halt _ \<Rightarrow> True | _ \<Rightarrow> False)"

lemma parsed_simps [simp]:
  "parsed buf ps Q (Ret (c, ps')) \<longleftrightarrow> ps \<le> ps' \<and> ps' \<le> length buf \<and> cmd_ok buf c \<and> Q c" "parsed buf ps Q (Halt msg)"
  by (simp_all add: parsed_def)

lemma parsed_bind:
  assumes "parsed buf ps Q m" and "\<And>c ps'. ps \<le> ps' \<Longrightarrow> ps' \<le> length buf \<Longrightarrow> cmd_ok buf c \<Longrightarrow> Q c \<Longrightarrow> parsed buf ps R (f (c, ps'))"
  shows "parsed buf ps R (rbind m f)"
  using assms by (cases m) (auto simp: parsed_def)

lemma parsed_mono:
  "parsed buf ps' Q r \<Longrightarrow> ps \<le> ps' \<Longrightarrow> (\<And>c. Q c \<Longrightarrow> R c) \<Longrightarrow> parsed buf ps R r"
  by (auto simp: parsed_def split: res.splits)

text \<open>Looking at a token and taking it goes forward by at least one position.\<close>

lemma peek_gettoken:
  assumes "ps \<le> length buf" and "peek buf ps toks = (True, ps1)" and "gettoken buf ps1 = (r, q, eq, ps2)"
  shows "ps < ps2" "ps2 \<le> length buf"
proof -
  have p: "ps \<le> ps1" "ps1 < length buf" using peek_law [OF assms(1,2)] by auto
  have b: "at buf ps1 \<noteq> 0" using assms(2) by (auto simp: peek_def Let_def)
  have w: "\<not> is_white (buf ! ps1)" using peek_law [OF assms(1,2)] by simp
  then have "skip is_white buf ps1 = ps1" using p by (simp add: skip.simps [of is_white buf ps1] at_def)
  then have "r \<noteq> 0" using assms(3) b by (auto simp: gettoken_def Let_def split: if_splits)
  then show "ps < ps2" "ps2 \<le> length buf" using gettoken_law [OF less_imp_le [OF p(2)] assms(3)] p by auto
qed

lemma parseredirs_law:
  assumes "ps \<le> length buf" and "cmd_ok buf c" and "length buf - ps < fuel"
  shows "parsed buf ps (\<lambda>c'. \<forall>n. argc_is n c \<longrightarrow> argc_is n c') (parseredirs fuel buf c ps)"
  using assms
proof (induction fuel arbitrary: c ps)
  case (Suc fuel)
  obtain b ps1 where pk: "peek buf ps [60, 62] = (b, ps1)" by (cases "peek buf ps [60, 62]")
  note p1 = peek_law [OF Suc.prems(1) pk]
  show ?case
  proof (cases b)
    case False
    then show ?thesis using p1 Suc.prems by (simp add: pk parseredirs.simps)
  next
    case True
    obtain tok q0 e0 ps2 where g1: "gettoken buf ps1 = (tok, q0, e0, ps2)" by (cases "gettoken buf ps1")
    obtain w q eq ps3 where g2: "gettoken buf ps2 = (w, q, eq, ps3)" by (cases "gettoken buf ps2")
    have p2: "ps < ps2" "ps2 \<le> length buf" using peek_gettoken [OF Suc.prems(1) _ g1] pk True by auto
    note p3 = gettoken_law [OF p2(2) g2]
    have fuel: "length buf - ps3 < fuel" and le: "ps \<le> ps3" using p2 p3(1-4) Suc.prems(3) by auto
    show ?thesis
    proof (cases "w = 97")
      case False
      then show ?thesis using True by (simp add: pk g1 g2 parseredirs.simps)
    next
      case w: True
      define c' where "c' = (if tok = 60 then redircmd c (q, eq) O_RDONLY 0
        else if tok = 62 then redircmd c (q, eq) (O_WRONLY + O_CREATE) 1
        else if tok = 43 then redircmd c (q, eq) (O_WRONLY + O_CREATE) 1 else c)"
      have "cmd_ok buf c'" and a: "\<forall>n. argc_is n c \<longrightarrow> argc_is n c'" using Suc.prems(2) p3(6) w by (auto simp: c'_def redircmd_def)
      from parsed_mono [OF Suc.IH [OF p3(4) this(1) fuel] le] show ?thesis
        using True w a by (auto simp: pk g1 g2 parseredirs.simps simp flip: c'_def)
    qed
  qed
qed simp

lemma parseargs_law:
  assumes "ps \<le> length buf" and "cmd_ok buf r" and "argc_is argc r" and "argc < MAXARGS" and "length buf - ps < fuel"
  shows "parsed buf ps (\<lambda>_. True) (parseargs fuel buf r argc ps)"
  using assms
proof (induction fuel arbitrary: r argc ps)
  case (Suc fuel)
  obtain b ps1 where pk: "peek buf ps [124, 41, 38, 59] = (b, ps1)" by (cases "peek buf ps [124, 41, 38, 59]")
  note p1 = peek_law [OF Suc.prems(1) pk]
  obtain tok q eq ps2 where g: "gettoken buf ps1 = (tok, q, eq, ps2)" by (cases "gettoken buf ps1")
  have ps1: "ps1 \<le> length buf" using p1 by simp
  note p2 = gettoken_law [OF ps1 g]
  show ?case
  proof (cases "b \<or> tok = 0 \<or> tok \<noteq> 97 \<or> MAXARGS \<le> Suc argc")
    case True
    then show ?thesis using p1 p2(1-4) Suc.prems by (auto simp: pk g Let_def parseargs.simps)
  next
    case False
    then have t: "\<not> b" "tok = 97" "Suc argc < MAXARGS" by auto
    define r' where "r' = upd_exec (\<lambda>args. args @ [(q, eq)]) r"
    have r': "argc_is (Suc argc) r'" "cmd_ok buf r'"
      using upd_exec_ok [OF Suc.prems(3,2) _ t(3), of "(q, eq)"] p2(6) t by (auto simp: r'_def)
    have lt: "ps < ps2" "ps2 \<le> length buf" using p1 p2(1-5) t by auto
    have body: "parsed buf ps2 (\<lambda>_. True) (rbind (parseredirs (Suc (length buf)) buf r' ps2) (\<lambda>(r, ps). parseargs fuel buf r (Suc argc) ps))"
    proof (rule parsed_bind [OF parseredirs_law])
      fix c ps'
      assume c: "ps2 \<le> ps'" "ps' \<le> length buf" "cmd_ok buf c" "\<forall>n. argc_is n r' \<longrightarrow> argc_is n c"
      have "length buf - ps' < fuel" using c lt Suc.prems(5) by linarith
      from parsed_mono [OF Suc.IH [OF c(2,3) _ t(3) this] c(1), of "\<lambda>_. True"] c(4) r'(1)
      show "parsed buf ps2 (\<lambda>_. True) (case (c, ps') of (r, ps) \<Rightarrow> parseargs fuel buf r (Suc argc) ps)" by simp
    qed (use lt r' in auto)
    then have "parsed buf ps (\<lambda>_. True) (rbind (parseredirs (Suc (length buf)) buf r' ps2) (\<lambda>(r, ps). parseargs fuel buf r (Suc argc) ps))"
      using lt by (auto elim: parsed_mono)
    then show ?thesis using t by (simp add: pk g Let_def parseargs.simps r'_def)
  qed
qed simp

lemma parsebacks_law:
  assumes "ps \<le> length buf" and "cmd_ok buf c" and "length buf - ps < fuel"
  shows "parsed buf ps (\<lambda>_. True) (parsebacks fuel buf c ps)"
  using assms
proof (induction fuel arbitrary: c ps)
  case (Suc fuel)
  obtain b ps1 where pk: "peek buf ps [38] = (b, ps1)" by (cases "peek buf ps [38]")
  obtain tok q eq ps2 where g: "gettoken buf ps1 = (tok, q, eq, ps2)" by (cases "gettoken buf ps1")
  show ?case
  proof (cases b)
    case True
    then have p: "ps < ps2" "ps2 \<le> length buf" using peek_gettoken [OF Suc.prems(1) _ g] pk by auto
    then have "length buf - ps2 < fuel" using Suc.prems(3) by linarith
    from parsed_mono [OF Suc.IH [OF p(2) _ this, of "backcmd c"] less_imp_le [OF p(1)]] Suc.prems(2) True
    show ?thesis by (simp add: pk g backcmd_def parsebacks.simps)
  qed (use peek_law [OF Suc.prems(1) pk] Suc.prems in \<open>simp add: pk parsebacks.simps\<close>)
qed simp

text \<open>The common end of \<open>parseline\<close> and \<open>parsepipe\<close>: a separator and what follows it.\<close>

lemma parsed_sep:
  assumes "ps \<le> length buf" and "cmd_ok buf c"
    and "\<And>ps2. ps < ps2 \<Longrightarrow> ps2 \<le> length buf \<Longrightarrow> parsed buf ps2 (\<lambda>_. True) (P ps2)"
    and "\<And>c'. cmd_ok buf c' \<Longrightarrow> cmd_ok buf (mk c')"
  shows "parsed buf ps (\<lambda>_. True) (let (b, ps) = peek buf ps toks in
    if b then let (_, _, _, ps) = gettoken buf ps in rbind (P ps) (\<lambda>(rest, ps). Ret (mk rest, ps)) else Ret (c, ps))"
proof -
  obtain b ps1 where pk: "peek buf ps toks = (b, ps1)" by (cases "peek buf ps toks")
  obtain tok q eq ps2 where g: "gettoken buf ps1 = (tok, q, eq, ps2)" by (cases "gettoken buf ps1")
  show ?thesis
  proof (cases b)
    case True
    then have p: "ps < ps2" "ps2 \<le> length buf" using peek_gettoken [OF assms(1) _ g] pk by auto
    have "parsed buf ps (\<lambda>_. True) (P ps2)" using assms(3) [OF p] p(1) by (auto elim: parsed_mono)
    then show ?thesis using True assms(4) by (auto simp: pk g intro: parsed_bind)
  qed (use peek_law [OF assms(1) pk] assms(2) in \<open>simp add: pk\<close>)
qed

abbreviation good :: "u8 list \<Rightarrow> nat \<Rightarrow> (cmd \<times> nat) res \<Rightarrow> bool" where
  "good buf ps r \<equiv> parsed buf ps (\<lambda>_. True) r"

lemma good_later: "good buf ps' r \<Longrightarrow> ps \<le> ps' \<Longrightarrow> good buf ps r"
  by (auto elim: parsed_mono)

lemma parseline_step:
  assumes "ps \<le> length buf" and "good buf ps (parsepipe fuel buf ps)"
    and "\<And>ps2. ps < ps2 \<Longrightarrow> ps2 \<le> length buf \<Longrightarrow> good buf ps2 (parseline fuel buf ps2)"
  shows "good buf ps (parseline (Suc fuel) buf ps)"
  unfolding parseline.simps
proof (rule parsed_bind [OF assms(2)], simp only: prod.case)
  fix c ps'
  assume c: "ps \<le> ps'" "ps' \<le> length buf" "cmd_ok buf c"
  have "good buf ps' (parsebacks (Suc (length buf)) buf c ps')" using c by (intro parsebacks_law) auto
  then have "good buf ps (parsebacks (Suc (length buf)) buf c ps')" using c(1) by (rule good_later)
  then show "good buf ps (rbind (parsebacks (Suc (length buf)) buf c ps') (\<lambda>(cmd, ps).
      let (b, ps) = peek buf ps [59] in
      if b then let (_, _, _, ps) = gettoken buf ps in rbind (parseline fuel buf ps) (\<lambda>(rest, ps). Ret (listcmd cmd rest, ps))
      else Ret (cmd, ps)))"
  proof (rule parsed_bind, simp only: prod.case)
    fix c ps'
    assume c: "ps \<le> ps'" "ps' \<le> length buf" "cmd_ok buf c"
    show "good buf ps (let (b, ps) = peek buf ps' [59] in
        if b then let (_, _, _, ps) = gettoken buf ps in rbind (parseline fuel buf ps) (\<lambda>(rest, ps). Ret (listcmd c rest, ps))
        else Ret (c, ps))"
      using c by (intro good_later [OF parsed_sep c(1)] assms(3)) (auto simp: listcmd_def)
  qed
qed

lemma parsepipe_step:
  assumes "ps \<le> length buf" and "good buf ps (parseexec fuel buf ps)"
    and "\<And>ps2. ps < ps2 \<Longrightarrow> ps2 \<le> length buf \<Longrightarrow> good buf ps2 (parsepipe fuel buf ps2)"
  shows "good buf ps (parsepipe (Suc fuel) buf ps)"
  unfolding parsepipe.simps
proof (rule parsed_bind [OF assms(2)], simp only: prod.case)
  fix c ps'
  assume c: "ps \<le> ps'" "ps' \<le> length buf" "cmd_ok buf c"
  show "good buf ps (let (b, ps) = peek buf ps' [124] in
      if b then let (_, _, _, ps) = gettoken buf ps in rbind (parsepipe fuel buf ps) (\<lambda>(rest, ps). Ret (pipecmd c rest, ps))
      else Ret (c, ps))"
    using c by (intro good_later [OF parsed_sep c(1)] assms(3)) (auto simp: pipecmd_def)
qed

lemma parseexec_step:
  assumes "ps \<le> length buf" and "\<And>ps2. ps \<le> ps2 \<Longrightarrow> ps2 \<le> length buf \<Longrightarrow> good buf ps2 (parseblock fuel buf ps2)"
  shows "good buf ps (parseexec (Suc fuel) buf ps)"
proof -
  obtain b ps1 where pk: "peek buf ps [40] = (b, ps1)" by (cases "peek buf ps [40]")
  have p: "ps \<le> ps1" "ps1 \<le> length buf" using peek_law [OF assms(1) pk] by auto
  have "parsed buf ps1 (\<lambda>c. argc_is 0 c) (parseredirs (Suc (length buf)) buf execcmd ps1)"
    by (rule parsed_mono [OF parseredirs_law [OF p(2)] order.refl]) (auto simp: execcmd_def)
  then have "good buf ps1 (rbind (parseredirs (Suc (length buf)) buf execcmd ps1) (\<lambda>(r, ps). parseargs (Suc (length buf)) buf r 0 ps))"
    by (rule parsed_bind) (auto intro!: good_later [OF parseargs_law])
  then show ?thesis using assms(2) [OF p] p(1) by (auto simp: pk intro: good_later)
qed

lemma parseblock_step:
  assumes "ps \<le> length buf" and "\<And>ps2. ps < ps2 \<Longrightarrow> ps2 \<le> length buf \<Longrightarrow> good buf ps2 (parseline fuel buf ps2)"
  shows "good buf ps (parseblock (Suc fuel) buf ps)"
proof -
  obtain b ps1 where pk: "peek buf ps [40] = (b, ps1)" by (cases "peek buf ps [40]")
  obtain tok q eq ps2 where g: "gettoken buf ps1 = (tok, q, eq, ps2)" by (cases "gettoken buf ps1")
  have close: "good buf ps' (let (b, ps) = peek buf ps' [41] in if \<not> b then Halt ''syntax - missing )''
      else let (_, _, _, ps) = gettoken buf ps in parseredirs (Suc (length buf)) buf c ps)"
    if c: "ps' \<le> length buf" "cmd_ok buf c" for c ps'
  proof -
    obtain b ps1 where pk: "peek buf ps' [41] = (b, ps1)" by (cases "peek buf ps' [41]")
    obtain tok q eq ps2 where g: "gettoken buf ps1 = (tok, q, eq, ps2)" by (cases "gettoken buf ps1")
    have "b \<Longrightarrow> good buf ps' (parseredirs (Suc (length buf)) buf c ps2)"
      using peek_gettoken [OF c(1) _ g, of "[41]"] pk c(2) by (intro parsed_mono [OF parseredirs_law]) auto
    then show ?thesis by (simp add: pk g)
  qed
  show ?thesis
  proof (cases b)
    case True
    then have p: "ps < ps2" "ps2 \<le> length buf" using peek_gettoken [OF assms(1) _ g] pk by auto
    have "good buf ps2 (rbind (parseline fuel buf ps2) (\<lambda>(cmd, ps). let (b, ps) = peek buf ps [41] in
        if \<not> b then Halt ''syntax - missing )'' else let (_, _, _, ps) = gettoken buf ps in parseredirs (Suc (length buf)) buf cmd ps))"
      by (rule parsed_bind [OF assms(2) [OF p]]) (simp only: prod.case, rule good_later [OF close])
    then show ?thesis using p(1) True by (auto simp: pk g intro: good_later)
  qed (simp add: pk)
qed

text \<open>With fuel for four calls per remaining character the parsers return.\<close>

lemma parse_law:
  "ps \<le> length buf \<Longrightarrow> 4 * (length buf - ps) + 4 \<le> fuel \<Longrightarrow> good buf ps (parseline fuel buf ps)"
  "ps \<le> length buf \<Longrightarrow> 4 * (length buf - ps) + 3 \<le> fuel \<Longrightarrow> good buf ps (parsepipe fuel buf ps)"
  "ps \<le> length buf \<Longrightarrow> 4 * (length buf - ps) + 2 \<le> fuel \<Longrightarrow> good buf ps (parseexec fuel buf ps)"
  "ps \<le> length buf \<Longrightarrow> 4 * (length buf - ps) + 1 \<le> fuel \<Longrightarrow> good buf ps (parseblock fuel buf ps)"
proof (induction fuel arbitrary: ps)
  case (Suc fuel)
  {
    case 1
    then show ?case by (intro parseline_step Suc.IH(1,2)) auto
  next
    case 2
    then show ?case by (intro parsepipe_step Suc.IH(2,3)) auto
  next
    case 3
    then show ?case by (intro parseexec_step Suc.IH(4)) auto
  next
    case 4
    then show ?case by (intro parseblock_step Suc.IH(1)) auto
  }
qed auto

section \<open>The words of a command\<close>

lemma upd_nth: "j < length xs \<Longrightarrow> xs[i := x] ! j = (if i = j then x else xs ! j)"
  by simp

lemma fold_nul:
  "length (fold (\<lambda>(q, eq) buf. buf[eq := 0]) args buf) = length buf"
  "i < length buf \<Longrightarrow> fold (\<lambda>(q, eq) buf. buf[eq := 0]) args buf ! i = (if i \<in> snd ` set args then 0 else buf ! i)"
  for args :: "token list" and buf :: "u8 list"
proof (induction args arbitrary: buf)
  case (Cons a args)
  {
    case 1
    show ?case using Cons(1) [of "buf[snd a := 0]"] by (simp add: split_beta)
  next
    case 2
    then show ?case using Cons(2) [of "buf[snd a := 0]"] by (simp add: split_beta nth_list_update)
  }
qed auto

lemma length_nulterminate [simp]: "length (nulterminate c buf) = length buf"
  by (induction c buf rule: nulterminate.induct) (auto simp: fold_nul)

lemma nulterminate_nth: "i < length buf \<Longrightarrow> nulterminate c buf ! i = (if i \<in> snd ` set (tokens c) then 0 else buf ! i)"
  by (induction c buf rule: nulterminate.induct) (simp_all add: fold_nul upd_nth image_Un)

text \<open>The string an argument pointer leads to once the words are terminated is the word.\<close>

lemma token_string:
  assumes ok: "\<forall>t\<in>set (tokens c). token_ok buf t" and t: "(q, eq) \<in> set (tokens c)" and z: "0 \<notin> set buf"
  shows "str_of (drop q (nulterminate c (buf @ [0]))) = take (eq - q) (drop q buf)"
proof -
  let ?n = "nulterminate c (buf @ [0])"
  have te: "q < eq" "eq \<le> length buf" "\<And>i. q \<le> i \<Longrightarrow> i < eq \<Longrightarrow> word_char (buf ! i)" using ok t by (auto simp: token_ok_def)
  have keep: "?n ! i = buf ! i" if i: "q \<le> i" "i < eq" for i
  proof -
    have "i \<notin> snd ` set (tokens c)"
    proof
      assume "i \<in> snd ` set (tokens c)"
      then obtain q' where "(q', i) \<in> set (tokens c)" by auto
      with ok have "i < length buf \<longrightarrow> \<not> word_char (buf ! i)" by (auto simp: token_ok_def)
      with te i show False by simp
    qed
    then show ?thesis using i te(2) by (simp add: nulterminate_nth nth_append)
  qed
  have zero: "?n ! eq = 0" using t te(2) by (force simp: nulterminate_nth)
  have "take (eq - q) (drop q ?n) = take (eq - q) (drop q buf)"
    using te(1,2) keep by (intro nth_equalityI) auto
  moreover have "drop q ?n = take (eq - q) (drop q ?n) @ 0 # drop (Suc eq) ?n"
    using id_take_nth_drop [of "eq - q" "drop q ?n"] te(1,2) zero by simp
  moreover have "0 \<notin> set (take (eq - q) (drop q buf))" using z by (meson in_set_dropD in_set_takeD)
  ultimately show ?thesis by (metis str_of_append_zero)
qed

text \<open>The command has its words where the line has them, and they end where the words of the line end.\<close>

lemma parsecmd_words:
  "case parsecmd s of
     Ret (c, buf) \<Rightarrow> args_fit c \<and> (\<forall>(q, eq)\<in>set (tokens c). token_ok (str_of s) (q, eq) \<and> str_of (drop q buf) = take (eq - q) (drop q (str_of s)))
   | Halt msg \<Rightarrow> True | _ \<Rightarrow> False"
proof -
  have "good (str_of s) 0 (parseline (4 * length (str_of s) + 4) (str_of s) 0)" by (rule parse_law) auto
  moreover have "0 \<notin> set (str_of s)" by (auto simp: str_of_def dest: set_takeWhileD)
  ultimately show ?thesis
    by (auto simp: parsecmd_def parsed_def Let_def split_beta cmd_ok_def token_string split: res.splits)
qed

section \<open>Properties\<close>

text \<open>A process that ends with \<open>exit\<close> or a successful \<open>exec\<close>, and so do its children.\<close>

fun never_returns :: "kernel_answers \<Rightarrow> act list \<Rightarrow> bool" where
  "never_returns k [] \<longleftrightarrow> False"
| "never_returns k (Exit # as) \<longleftrightarrow> as = []"
| "never_returns k (ExecProg args # as) \<longleftrightarrow> exec_ok k args \<and> as = [] \<or> \<not> exec_ok k args \<and> never_returns k as"
| "never_returns k (Fork child # as) \<longleftrightarrow> never_returns k child \<and> never_returns k as"
| "never_returns k (a # as) \<longleftrightarrow> never_returns k as"

text \<open>C0. Running a command never returns: every process that works on it, the children it forks included, ends with
  \<open>exit\<close> or with a successful \<open>exec\<close>.\<close>

theorem runcmd_never_returns: "never_returns k (runcmd k c)"
  by (induction k c rule: runcmd.induct) (auto simp: fork1_def)

end
