(* ===== verification/Sh_Grammar.thy ===== *)
theory Sh_Grammar
  imports Sh
begin

text \<open>
  The language of the shell: the tokens of a line (\<open>lex\<close>) and a context-free grammar of commands over them, and that the parser of theory \<open>Sh\<close>
  accepts exactly the lines of the grammar and gives the command they denote. The grammar is stated without the parser's functions:
  characters by their codes, tokens by their positions.
\<close>

section \<open>Tokens\<close>

datatype ltok = Word nat nat | Sym u8

text \<open>Words are longest sequences of other characters than blanks and symbols; \<open>>>\<close> is the token \<open>Sym 43\<close>.\<close>

function lex :: "nat \<Rightarrow> u8 list \<Rightarrow> ltok list" where
  "lex i [] = []"
| "lex i (c # cs) =
     (if c \<in> {32, 9, 13, 10, 11} then lex (Suc i) cs
      else if c = 62 \<and> cs \<noteq> [] \<and> hd cs = 62 then Sym 43 # lex (Suc (Suc i)) (tl cs)
      else if c \<in> {60, 124, 62, 38, 59, 40, 41} then Sym c # lex (Suc i) cs
      else let n = length (takeWhile word_char cs) in Word i (Suc (i + n)) # lex (Suc (i + n)) (drop n cs))"
  by pat_completeness auto
termination
  by (relation "measure (\<lambda>(i, cs). length cs)") auto

declare lex.simps(2) [simp del]

section \<open>Grammar\<close>

text \<open>A redirection: how the file is opened, and as which descriptor.\<close>

definition redir_sym :: "u8 \<Rightarrow> (int \<times> int) option" where
  "redir_sym x = (if x = 60 then Some (0, 0) else if x = 62 \<or> x = 43 then Some (513, 1) else None)"

type_synonym redir = "token \<times> int \<times> int"

text \<open>The first redirection is the innermost.\<close>

definition wrap :: "redir list \<Rightarrow> cmd \<Rightarrow> cmd" where
  "wrap rs c = fold (\<lambda>(t, m, fd) c. REDIR c t m fd) rs c"

text \<open>Words and redirections, in any order.\<close>

inductive gsimple :: "ltok list \<Rightarrow> token list \<Rightarrow> redir list \<Rightarrow> bool" where
  gs_end: "gsimple [] [] []"
| gs_word: "gsimple ts ws rs \<Longrightarrow> gsimple (Word q e # ts) ((q, e) # ws) rs"
| gs_redir: "gsimple ts ws rs \<Longrightarrow> redir_sym x = Some (m, fd) \<Longrightarrow> gsimple (Sym x # Word q e # ts) ws (((q, e), m, fd) # rs)"

inductive gexec :: "ltok list \<Rightarrow> cmd \<Rightarrow> bool" and gpipe :: "ltok list \<Rightarrow> cmd \<Rightarrow> bool" and gline :: "ltok list \<Rightarrow> cmd \<Rightarrow> bool" where
  ge_simple: "gsimple ts ws rs \<Longrightarrow> gexec ts (wrap rs (EXEC ws))"
| ge_block: "gline ts c \<Longrightarrow> gsimple us [] rs \<Longrightarrow> gexec (Sym 40 # ts @ Sym 41 # us) (wrap rs c)"
| gp_exec: "gexec ts c \<Longrightarrow> gpipe ts c"
| gp_pipe: "gexec ts c \<Longrightarrow> gpipe us d \<Longrightarrow> gpipe (ts @ Sym 124 # us) (PIPE c d)"
| gl_pipe: "gpipe ts c \<Longrightarrow> gline (ts @ replicate n (Sym 38)) ((BACK ^^ n) c)"
| gl_list: "gpipe ts c \<Longrightarrow> gline us d \<Longrightarrow> gline (ts @ replicate n (Sym 38) @ Sym 59 # us) (LIST ((BACK ^^ n) c) d)"

inductive_cases gsimpleE: "gsimple ts ws rs"

lemma gsimple_append: "gsimple ts ws rs \<Longrightarrow> gsimple us vs ss \<Longrightarrow> gsimple (ts @ us) (ws @ vs) (rs @ ss)"
  by (induction rule: gsimple.induct) (auto intro: gsimple.intros)

lemma wrap_simps [simp]:
  "wrap [] c = c" "wrap ((t, m, fd) # rs) c = wrap rs (REDIR c t m fd)" "wrap (rs @ ss) c = wrap ss (wrap rs c)"
  by (simp_all add: wrap_def)

lemma upd_wrap [simp]: "upd_exec f (wrap rs c) = wrap rs (upd_exec f c)"
  by (induction rs arbitrary: c) auto

section \<open>The tokens from a position on\<close>

abbreviation syms :: "u8 set" where
  "syms \<equiv> {60, 124, 62, 38, 59, 40, 41}"

abbreviation toks :: "u8 list \<Rightarrow> nat \<Rightarrow> ltok list" where
  "toks buf ps \<equiv> lex ps (drop ps buf)"

lemma skip_eq: "s \<le> length buf \<Longrightarrow> skip P buf s = s + length (takeWhile P (drop s buf))"
proof (induction P buf s rule: skip.induct)
  case (1 P buf s)
  show ?case
  proof (cases "s < length buf")
    case True
    then have d: "drop s buf = buf ! s # drop (Suc s) buf" by (simp add: Cons_nth_drop_Suc)
    show ?thesis using 1 True by (simp add: skip.simps [of P buf s] d at_def)
  next
    case False
    then show ?thesis using 1(2) by (subst skip.simps) simp
  qed
qed

lemma lex_blanks: "lex (i + length (takeWhile is_white cs)) (dropWhile is_white cs) = lex i cs"
proof (induction cs arbitrary: i)
  case (Cons c cs)
  show ?case using Cons.IH [of "Suc i"] by (simp add: is_white_iff lex.simps(2) [of i])
qed simp

lemma toks_skip: "ps \<le> length buf \<Longrightarrow> toks buf (skip is_white buf ps) = toks buf ps"
  using lex_blanks [of ps "drop ps buf"] by (simp add: skip_eq dropWhile_eq_drop add.commute)

lemma skip_stops: "ps \<le> length buf \<Longrightarrow> at buf (skip P buf ps) = 0 \<or> \<not> P (at buf (skip P buf ps))"
  using skip_law [of ps buf P] by (auto simp: at_def)

text \<open>The first token, by the character at a position that is not blank.\<close>

lemma toks_at:
  assumes "s \<le> length buf" and "0 \<notin> set buf" and "\<not> is_white (at buf s)"
  shows "at buf s = 0 \<Longrightarrow> s = length buf \<and> toks buf s = []"
    and "at buf s \<noteq> 0 \<Longrightarrow> \<not> is_symbol (at buf s) \<Longrightarrow>
      toks buf s = Word s (skip word_char buf s) # toks buf (skip word_char buf s) \<and> skip word_char buf s \<le> length buf"
    and "at buf s = 62 \<Longrightarrow> at buf (Suc s) = 62 \<Longrightarrow> toks buf s = Sym 43 # toks buf (Suc (Suc s)) \<and> Suc (Suc s) \<le> length buf"
    and "is_symbol (at buf s) \<Longrightarrow> \<not> (at buf s = 62 \<and> at buf (Suc s) = 62) \<Longrightarrow> toks buf s = Sym (at buf s) # toks buf (Suc s) \<and> Suc s \<le> length buf"
proof -
  have d: "drop s buf = at buf s # drop (Suc s) buf" if "at buf s \<noteq> 0"
    using that by (auto simp: at_def Cons_nth_drop_Suc split: if_splits)
  have lt: "s < length buf" if "at buf s \<noteq> 0" using that by (auto simp: at_def split: if_splits)
  have h: "drop (Suc s) buf \<noteq> [] \<and> hd (drop (Suc s) buf) = 62 \<longleftrightarrow> at buf (Suc s) = 62" by (auto simp: at_def hd_drop_conv_nth)
  have w: "at buf s \<notin> {32, 9, 13, 10, 11}" using assms(3) by (simp add: is_white_iff)
  show "s = length buf \<and> toks buf s = []" if "at buf s = 0"
  proof -
    have "s = length buf" using that assms(1,2) nth_mem [of s buf] by (cases "s < length buf") (auto simp: at_def)
    then show ?thesis by simp
  qed
  show "toks buf s = Word s (skip word_char buf s) # toks buf (skip word_char buf s) \<and> skip word_char buf s \<le> length buf"
    if n: "at buf s \<noteq> 0" "\<not> is_symbol (at buf s)"
  proof -
    have wc: "word_char (at buf s)" using n(2) assms(3) by (simp add: word_char_iff)
    have k: "skip word_char buf s = Suc (s + length (takeWhile word_char (drop (Suc s) buf)))"
      unfolding skip_eq [OF assms(1)] d [OF n(1)] using wc by simp
    have "skip word_char buf s \<le> length buf" using skip_law [OF assms(1)] by blast
    moreover have "at buf s \<notin> {60, 124, 62, 38, 59, 40, 41}" using n(2) by (simp add: is_symbol_iff)
    ultimately show ?thesis using w unfolding d [OF n(1)] lex.simps(2) k by (simp add: Let_def add.commute)
  qed
  show "toks buf s = Sym 43 # toks buf (Suc (Suc s)) \<and> Suc (Suc s) \<le> length buf" if n: "at buf s = 62" "at buf (Suc s) = 62"
    using n h lt [unfolded n(1)] w d unfolding n(1) by (auto simp: lex.simps(2) tl_drop drop_Suc at_def split: if_splits)
  show "toks buf s = Sym (at buf s) # toks buf (Suc s) \<and> Suc s \<le> length buf"
    if n: "is_symbol (at buf s)" "\<not> (at buf s = 62 \<and> at buf (Suc s) = 62)"
  proof -
    have z: "at buf s \<noteq> 0" using n(1) by (auto simp: is_symbol_iff)
    show ?thesis using n w h lt [OF z] unfolding d [OF z] lex.simps(2) by (auto simp: is_symbol_iff)
  qed
qed

section \<open>The parser and the tokens\<close>

text \<open>What \<open>peek\<close> looks for, in the tokens.\<close>

definition starts :: "u8 list \<Rightarrow> ltok list \<Rightarrow> bool" where
  "starts cs ts \<longleftrightarrow> (\<exists>x us. ts = Sym x # us \<and> (if x = 43 then 62 else x) \<in> set cs)"

lemma starts_simps [simp]:
  "\<not> starts cs []" "\<not> starts cs (Word q e # ts)" "starts cs (Sym x # ts) \<longleftrightarrow> (if x = 43 then 62 else x) \<in> set cs"
  by (simp_all add: starts_def)

lemma lex_syms: "Sym x \<in> set (lex i cs) \<Longrightarrow> x \<in> {60, 124, 62, 38, 59, 40, 41, 43}"
  by (induction i cs rule: lex.induct) (auto simp: lex.simps(2) Let_def split: if_splits)

text \<open>
  A parser started at \<open>ps\<close> that returns a command has read the tokens from \<open>ps\<close> up to where it stopped, and \<open>Q\<close> holds of them and the command.
\<close>

definition reads :: "u8 list \<Rightarrow> nat \<Rightarrow> (ltok list \<Rightarrow> cmd \<Rightarrow> bool) \<Rightarrow> (cmd \<times> nat) res \<Rightarrow> bool" where
  "reads buf ps Q m \<longleftrightarrow> (\<forall>c ps'. m = Ret (c, ps') \<longrightarrow> ps' \<le> length buf \<and> (\<exists>ts. toks buf ps = ts @ toks buf ps' \<and> Q ts c))"

lemma reads_simps [simp]: "reads buf ps Q NoRet" "reads buf ps Q Fault" "reads buf ps Q (Halt msg)"
  by (simp_all add: reads_def)

lemma reads_ret: "ps' \<le> length buf \<Longrightarrow> toks buf ps = toks buf ps' \<Longrightarrow> Q [] c \<Longrightarrow> reads buf ps Q (Ret (c, ps'))"
  by (simp add: reads_def)

lemma reads_bind:
  assumes "reads buf ps Q m" and "\<And>c ps' ts. ps' \<le> length buf \<Longrightarrow> Q ts c \<Longrightarrow> reads buf ps' (\<lambda>us. R (ts @ us)) (f (c, ps'))"
  shows "reads buf ps R (rbind m f)"
  unfolding reads_def
proof (intro allI impI)
  fix d ps2 assume "rbind m f = Ret (d, ps2)"
  then obtain c ps' where m: "m = Ret (c, ps')" "f (c, ps') = Ret (d, ps2)" by (cases m) auto
  obtain ts where ts: "ps' \<le> length buf" "toks buf ps = ts @ toks buf ps'" "Q ts c" using assms(1) m(1) by (auto simp: reads_def)
  then show "ps2 \<le> length buf \<and> (\<exists>ts. toks buf ps = ts @ toks buf ps2 \<and> R ts d)"
    using assms(2) [OF ts(1,3)] m(2) by (fastforce simp: reads_def)
qed

lemma reads_cons: "reads buf ps' (\<lambda>us. Q (ts @ us)) m \<Longrightarrow> toks buf ps = ts @ toks buf ps' \<Longrightarrow> reads buf ps Q m"
  unfolding reads_def by fastforce

lemma reads_mono: "reads buf ps Q m \<Longrightarrow> (\<And>ts c. Q ts c \<Longrightarrow> R ts c) \<Longrightarrow> reads buf ps R m"
  unfolding reads_def by blast

text \<open>
  The converse: a parser with enough fuel returns the command \<open>c\<close> and stops in front of the tokens \<open>rest\<close>.
\<close>

definition gives :: "u8 list \<Rightarrow> cmd \<Rightarrow> ltok list \<Rightarrow> (cmd \<times> nat) res \<Rightarrow> bool" where
  "gives buf c rest m \<longleftrightarrow> m = NoRet \<or> (\<exists>ps. m = Ret (c, ps) \<and> ps \<le> length buf \<and> toks buf ps = rest)"

lemma gives_NoRet [simp]: "gives buf c rest NoRet"
  by (simp add: gives_def)

lemma gives_ret: "ps \<le> length buf \<Longrightarrow> toks buf ps = rest \<Longrightarrow> gives buf c rest (Ret (c, ps))"
  by (simp add: gives_def)

lemma gives_bind:
  assumes "gives buf c rest m" and "\<And>ps. ps \<le> length buf \<Longrightarrow> toks buf ps = rest \<Longrightarrow> gives buf d us (f (c, ps))"
  shows "gives buf d us (rbind m f)"
  using assms(1) unfolding gives_def [of buf c]
proof (elim disjE exE conjE)
  fix ps assume "m = Ret (c, ps)" "ps \<le> length buf" "toks buf ps = rest"
  then show ?thesis using assms(2) by simp
qed simp

text \<open>What may follow a command, a pipe and a line.\<close>

definition ends :: "u8 list \<Rightarrow> ltok list \<Rightarrow> bool" where
  "ends cs ts \<longleftrightarrow> ts = [] \<or> starts cs ts"

lemma gsimple_split:
  "gsimple ts ws rs \<Longrightarrow> \<exists>ts1 rs1 ts2 rs2. ts = ts1 @ ts2 \<and> rs = rs1 @ rs2 \<and> gsimple ts1 [] rs1 \<and> gsimple ts2 ws rs2 \<and> (ts2 = [] \<or> (\<exists>q e us. ts2 = Word q e # us))"
proof (induction rule: gsimple.induct)
  case gs_end
  then show ?case using gsimple.gs_end by auto
next
  case (gs_word ts ws rs q e)
  then show ?case using gsimple.gs_end gsimple.gs_word [OF gs_word(1)] by (intro exI [of _ "[]"] exI [of _ "Word q e # ts"] exI [of _ rs]) simp
next
  case (gs_redir ts ws rs x m fd q e)
  then obtain ts1 rs1 ts2 rs2 where "ts = ts1 @ ts2" "rs = rs1 @ rs2" "gsimple ts1 [] rs1" "gsimple ts2 ws rs2" "ts2 = [] \<or> (\<exists>q e us. ts2 = Word q e # us)" by blast
  then show ?case using gsimple.gs_redir [of ts1 "[]" rs1 x m fd q e] gs_redir(2)
    by (intro exI [of _ "Sym x # Word q e # ts1"] exI [of _ "((q, e), m, fd) # rs1"] exI [of _ ts2] exI [of _ rs2]) simp
qed

lemma gsimple_no_words: "gsimple ts [] rs \<Longrightarrow> ts = [] \<and> rs = [] \<or> starts [60, 62] ts"
  by (erule gsimpleE) (auto simp: redir_sym_def split: if_splits)

lemma gsimple_start: "gsimple ts ws rs \<Longrightarrow> ends [60, 62] ts \<or> (\<exists>q e us. ts = Word q e # us)"
  by (erule gsimpleE) (auto simp: redir_sym_def ends_def split: if_splits)

lemma args_fit_wrap [simp]: "args_fit (wrap rs c) = args_fit c"
proof (induction rs arbitrary: c)
  case (Cons r rs)
  obtain t m fd where "r = (t, m, fd)" by (cases r)
  then show ?case using Cons.IH [of "REDIR c t m fd"] by simp
qed simp

lemma args_fit_backs [simp]: "args_fit ((BACK ^^ n) c) = args_fit c"
  by (induction n) auto

text \<open>A line to be parsed has no zero byte.\<close>

locale shell_line =
  fixes buf :: "u8 list"
  assumes no_zero: "0 \<notin> set buf"
begin

lemma peek_toks:
  assumes "ps \<le> length buf" and "set cs \<subseteq> syms" and "peek buf ps cs = (b, s)"
  shows "s \<le> length buf" and "toks buf s = toks buf ps" and "toks buf s = [] \<longleftrightarrow> s = length buf"
    and "b \<longleftrightarrow> starts cs (toks buf ps)"
proof -
  have s: "s = skip is_white buf ps" and b: "b \<longleftrightarrow> at buf s \<noteq> 0 \<and> strchr cs (at buf s) \<noteq> None" using assms(3) by (auto simp: peek_def Let_def)
  show l: "s \<le> length buf" using skip_law [OF assms(1)] unfolding s by blast
  show t: "toks buf s = toks buf ps" unfolding s by (rule toks_skip [OF assms(1)])
  have w: "\<not> is_white (at buf s)" using skip_stops [OF assms(1), of is_white] unfolding s by (auto simp: is_white_iff)
  have "str_of cs = cs" using assms(2) by (auto simp: str_of_def takeWhile_eq_all_conv)
  then have b': "b \<longleftrightarrow> at buf s \<in> set cs" using assms(2) by (auto simp: b strchr_eq)
  note a = toks_at [OF l no_zero w]
  consider "at buf s = 0" | "at buf s \<noteq> 0" "\<not> is_symbol (at buf s)" | "at buf s = 62" "at buf (Suc s) = 62"
    | "is_symbol (at buf s)" "\<not> (at buf s = 62 \<and> at buf (Suc s) = 62)" by blast
  then show "toks buf s = [] \<longleftrightarrow> s = length buf" "b \<longleftrightarrow> starts cs (toks buf ps)"
    unfolding t [symmetric] b' using a assms(2) by (cases; auto simp: is_symbol_iff)+
qed

lemma gettoken_toks:
  assumes "ps \<le> length buf" and "gettoken buf ps = (r, q, e, ps')"
  shows "ps' \<le> length buf" and "toks buf ps = [] \<Longrightarrow> r = 0 \<and> toks buf ps' = []"
    and "toks buf ps = Sym x # ts \<Longrightarrow> r = x \<and> toks buf ps' = ts"
    and "toks buf ps = Word a b # ts \<Longrightarrow> r = 97 \<and> q = a \<and> e = b \<and> toks buf ps' = ts"
proof -
  define s where "s = skip is_white buf ps"
  have l: "s \<le> length buf" using skip_law [OF assms(1)] unfolding s_def by blast
  have w: "\<not> is_white (at buf s)" using skip_stops [OF assms(1), of is_white] unfolding s_def by (auto simp: is_white_iff)
  have t: "toks buf s = toks buf ps" unfolding s_def by (rule toks_skip [OF assms(1)])
  show "ps' \<le> length buf" using gettoken_law [OF assms] by simp
  have wc: "(\<lambda>c. \<not> is_white c \<and> \<not> is_symbol c) = word_char" by (simp add: fun_eq_iff word_char_iff)
  note a = toks_at [OF l no_zero w]
  note g = assms(2) [unfolded gettoken_def Let_def s_def [symmetric] wc]
  consider "at buf s = 0" | "at buf s \<noteq> 0" "\<not> is_symbol (at buf s)" | "at buf s = 62" "at buf (Suc s) = 62"
    | "is_symbol (at buf s)" "\<not> (at buf s = 62 \<and> at buf (Suc s) = 62)" by blast
  then show "toks buf ps = [] \<Longrightarrow> r = 0 \<and> toks buf ps' = []" "toks buf ps = Sym x # ts \<Longrightarrow> r = x \<and> toks buf ps' = ts"
      "toks buf ps = Word a b # ts \<Longrightarrow> r = 97 \<and> q = a \<and> e = b \<and> toks buf ps' = ts"
    unfolding t [symmetric] using a g toks_skip [of _ buf] by (cases; auto simp: is_symbol_iff split: if_splits)+
qed

lemma gettoken_cases:
  assumes "ps \<le> length buf" and "gettoken buf ps = (r, q, e, ps')"
  shows "r = 97 \<Longrightarrow> toks buf ps = Word q e # toks buf ps'" and "r = 0 \<Longrightarrow> toks buf ps = [] \<and> toks buf ps' = []"
    and "r \<noteq> 0 \<Longrightarrow> r \<noteq> 97 \<Longrightarrow> toks buf ps = Sym r # toks buf ps'"
proof -
  note g = gettoken_toks [OF assms]
  have "y \<in> {60, 124, 62, 38, 59, 40, 41, 43}" if "toks buf ps = Sym y # ts" for y ts using lex_syms [of y ps "drop ps buf"] that by simp
  then show "r = 97 \<Longrightarrow> toks buf ps = Word q e # toks buf ps'" "r = 0 \<Longrightarrow> toks buf ps = [] \<and> toks buf ps' = []"
      "r \<noteq> 0 \<Longrightarrow> r \<noteq> 97 \<Longrightarrow> toks buf ps = Sym r # toks buf ps'"
    using g(2-4) by (cases "toks buf ps"; cases "hd (toks buf ps)"; fastforce)+
qed

lemma peek_take:
  assumes "ps \<le> length buf" and "set cs \<subseteq> syms" and "peek buf ps cs = (True, s)" and "gettoken buf s = (r, q, e, ps')"
  shows "toks buf ps = Sym r # toks buf ps'" and "(if r = 43 then 62 else r) \<in> set cs" and "ps' \<le> length buf"
proof -
  note p = peek_toks [OF assms(1-3)]
  obtain x ts where x: "toks buf ps = Sym x # ts" "(if x = 43 then 62 else x) \<in> set cs" using p(4) by (auto simp: starts_def)
  then show "toks buf ps = Sym r # toks buf ps'" "(if r = 43 then 62 else r) \<in> set cs" "ps' \<le> length buf"
    using gettoken_toks(1,3) [OF p(1) assms(4)] p(2) by auto
qed

lemma parseredirs_reads: "ps \<le> length buf \<Longrightarrow> reads buf ps (\<lambda>ts c'. \<exists>rs. gsimple ts [] rs \<and> c' = wrap rs c) (parseredirs fuel buf c ps)"
proof (induction fuel arbitrary: c ps)
  case (Suc fuel)
  obtain b ps1 where pk: "peek buf ps [60, 62] = (b, ps1)" by (cases "peek buf ps [60, 62]")
  obtain tok q0 e0 ps2 where g1: "gettoken buf ps1 = (tok, q0, e0, ps2)" by (cases "gettoken buf ps1")
  obtain w q e ps3 where g2: "gettoken buf ps2 = (w, q, e, ps3)" by (cases "gettoken buf ps2")
  have cs: "set [60, 62] \<subseteq> syms" by simp
  note p = peek_toks [OF Suc.prems cs pk]
  show ?case
  proof (cases b)
    case False
    then show ?thesis using p(1,2) by (auto simp: parseredirs.simps pk intro!: reads_ret gsimple.intros exI [of _ "[]"])
  next
    case True
    then have "peek buf ps [60, 62] = (True, ps1)" using pk by simp
    note k = peek_take [OF Suc.prems cs this g1]
    show ?thesis
    proof (cases "w = 97")
      case False
      then show ?thesis using True by (simp add: pk g1 g2 parseredirs.simps)
    next
      case w: True
      obtain m fd where m: "redir_sym tok = Some (m, fd)" using k(2) by (auto simp: redir_sym_def split: if_splits)
      have t: "toks buf ps = [Sym tok, Word q e] @ toks buf ps3" using k(1) gettoken_cases(1) [OF k(3) g2 w] by simp
      have l: "ps3 \<le> length buf" using gettoken_toks(1) [OF k(3) g2] by simp
      have "reads buf ps (\<lambda>ts c'. \<exists>rs. gsimple ts [] rs \<and> c' = wrap rs c) (parseredirs fuel buf (REDIR c (q, e) m fd) ps3)"
      proof (rule reads_cons [OF reads_mono [OF Suc.IH [OF l]] t], elim exE conjE)
        fix ts c' rs assume "gsimple ts [] rs" "c' = wrap rs (REDIR c (q, e) m fd)"
        then show "\<exists>rs. gsimple ([Sym tok, Word q e] @ ts) [] rs \<and> c' = wrap rs c"
          using gs_redir [of ts "[]" rs tok m fd q e] m by (intro exI [of _ "((q, e), m, fd) # rs"]) simp
      qed
      then show ?thesis using True w m by (auto simp: pk g1 g2 parseredirs.simps redircmd_def redir_sym_def split: if_splits)
    qed
  qed
qed simp

lemma parseargs_reads:
  assumes "ps \<le> length buf"
  shows "reads buf ps (\<lambda>ts c. \<exists>vs ss. gsimple ts vs ss \<and> c = wrap (rs @ ss) (EXEC (ws @ vs))) (parseargs fuel buf (wrap rs (EXEC ws)) argc ps)"
  using assms
proof (induction fuel arbitrary: rs ws argc ps)
  case (Suc fuel)
  let ?Q = "\<lambda>rs ws ts c. \<exists>vs ss. gsimple ts vs ss \<and> c = wrap (rs @ ss) (EXEC (ws @ vs))"
  obtain b ps1 where pk: "peek buf ps [124, 41, 38, 59] = (b, ps1)" by (cases "peek buf ps [124, 41, 38, 59]")
  obtain tok q e ps2 where g: "gettoken buf ps1 = (tok, q, e, ps2)" by (cases "gettoken buf ps1")
  have cs: "set [124, 41, 38, 59] \<subseteq> syms" by simp
  note p = peek_toks [OF Suc.prems cs pk]
  have p1: "ps1 \<le> length buf" "toks buf ps1 = toks buf ps" using p(1,2) by auto
  have ret: "reads buf ps (?Q rs ws) (Ret (wrap rs (EXEC ws), ps'))" if "ps' \<le> length buf" "toks buf ps = toks buf ps'" for ps'
    using that by (intro reads_ret) (auto intro!: gsimple.intros exI [of _ "[]"])
  have word: "reads buf ps (?Q rs ws) (rbind (parseredirs (Suc (length buf)) buf (wrap rs (EXEC (ws @ [(q, e)]))) ps2) (\<lambda>(r, ps). parseargs fuel buf r (Suc argc) ps))"
    if "tok = 97"
  proof -
    have t: "toks buf ps = [Word q e] @ toks buf ps2" and l: "ps2 \<le> length buf"
      using gettoken_cases(1) [OF p1(1) g that] gettoken_toks(1) [OF p1(1) g] p1(2) by auto
    show ?thesis
    proof (rule reads_cons [OF reads_bind [OF parseredirs_reads [OF l]] t], clarify)
      fix ps' ts ss assume s: "ps' \<le> length buf" "gsimple ts [] ss"
      have "reads buf ps' (?Q (rs @ ss) (ws @ [(q, e)])) (parseargs fuel buf (wrap (rs @ ss) (EXEC (ws @ [(q, e)]))) (Suc argc) ps')" by (rule Suc.IH [OF s(1)])
      then show "reads buf ps' (\<lambda>us. ?Q rs ws ([Word q e] @ ts @ us)) (parseargs fuel buf (wrap ss (wrap rs (EXEC (ws @ [(q, e)])))) (Suc argc) ps')"
        unfolding wrap_simps(3) by (rule reads_mono) (use gsimple_append [OF s(2)] in \<open>fastforce intro: gsimple.intros\<close>)
    qed
  qed
  show ?case using ret p1 word gettoken_cases(2) [OF p1(1) g] gettoken_toks(1) [OF p1(1) g]
    by (auto simp: parseargs.simps pk g Let_def)
qed simp

lemma parsebacks_reads: "ps \<le> length buf \<Longrightarrow> reads buf ps (\<lambda>ts c'. \<exists>n. ts = replicate n (Sym 38) \<and> c' = (BACK ^^ n) c) (parsebacks fuel buf c ps)"
proof (induction fuel arbitrary: c ps)
  case (Suc fuel)
  obtain b ps1 where pk: "peek buf ps [38] = (b, ps1)" by (cases "peek buf ps [38]")
  obtain tok q e ps2 where g: "gettoken buf ps1 = (tok, q, e, ps2)" by (cases "gettoken buf ps1")
  have cs: "set [38] \<subseteq> syms" by simp
  note p = peek_toks [OF Suc.prems cs pk]
  show ?case
  proof (cases b)
    case False
    then show ?thesis using p(1,2) by (auto simp: parsebacks.simps pk intro!: reads_ret exI [of _ 0])
  next
    case True
    then have "peek buf ps [38] = (True, ps1)" using pk by simp
    note k = peek_take [OF Suc.prems cs this g]
    have t: "toks buf ps = [Sym 38] @ toks buf ps2" using k(1,2) by (auto split: if_splits)
    have "reads buf ps (\<lambda>ts c'. \<exists>n. ts = replicate n (Sym 38) \<and> c' = (BACK ^^ n) c) (parsebacks fuel buf (BACK c) ps2)"
      by (rule reads_cons [OF reads_mono [OF Suc.IH [OF k(3)]] t], elim exE conjE, rule_tac x = "Suc n" in exI) (simp add: funpow_swap1)
    then show ?thesis using True by (simp add: parsebacks.simps pk g backcmd_def)
  qed
qed simp

text \<open>A separator and what follows it.\<close>

lemma reads_sep:
  assumes "ps \<le> length buf" and "x \<in> syms" and "x \<noteq> 62" and "Q [] c"
    and "\<And>ps'. ps' \<le> length buf \<Longrightarrow> reads buf ps' R (P ps')" and "\<And>us d. R us d \<Longrightarrow> Q (Sym x # us) (mk d)"
  shows "reads buf ps Q (let (b, ps) = peek buf ps [x] in
    if b then let (_, _, _, ps) = gettoken buf ps in rbind (P ps) (\<lambda>(rest, ps). Ret (mk rest, ps)) else Ret (c, ps))"
proof -
  obtain b ps1 where pk: "peek buf ps [x] = (b, ps1)" by (cases "peek buf ps [x]")
  obtain tok q e ps2 where g: "gettoken buf ps1 = (tok, q, e, ps2)" by (cases "gettoken buf ps1")
  have cs: "set [x] \<subseteq> syms" using assms(2) by simp
  note p = peek_toks [OF assms(1) cs pk]
  show ?thesis
  proof (cases b)
    case True
    then have "peek buf ps [x] = (True, ps1)" using pk by simp
    note k = peek_take [OF assms(1) cs this g]
    have t: "toks buf ps = [Sym x] @ toks buf ps2" using k(1,2) assms(2,3) by (auto split: if_splits)
    have "reads buf ps2 (\<lambda>us. Q ([Sym x] @ us)) (rbind (P ps2) (\<lambda>(rest, ps). Ret (mk rest, ps)))"
      by (rule reads_bind [OF assms(5) [OF k(3)]]) (auto intro!: reads_ret assms(6))
    from reads_cons [OF this t] True show ?thesis by (simp add: pk g)
  next
    case False
    have "reads buf ps Q (Ret (c, ps1))" using p(1,2) assms(4) by (intro reads_ret) auto
    then show ?thesis using False by (simp add: pk)
  qed
qed

lemma parseblock_reads:
  assumes "\<And>ps. ps \<le> length buf \<Longrightarrow> reads buf ps gline (parseline fuel buf ps)" and "ps \<le> length buf"
  shows "reads buf ps gexec (parseblock (Suc fuel) buf ps)"
proof -
  obtain b ps1 where pk: "peek buf ps [40] = (b, ps1)" by (cases "peek buf ps [40]")
  obtain tok q e ps2 where g: "gettoken buf ps1 = (tok, q, e, ps2)" by (cases "gettoken buf ps1")
  have cs: "set [40] \<subseteq> syms" "set [41] \<subseteq> syms" by simp_all
  have close: "reads buf ps' (\<lambda>us d. \<exists>vs rs. us = Sym 41 # vs \<and> gsimple vs [] rs \<and> d = wrap rs c)
      (let (b, ps) = peek buf ps' [41] in if \<not> b then Halt ''syntax - missing )'' else let (_, _, _, ps) = gettoken buf ps in parseredirs (Suc (length buf)) buf c ps)"
    if l: "ps' \<le> length buf" for c ps'
  proof -
    obtain b ps1 where pk: "peek buf ps' [41] = (b, ps1)" by (cases "peek buf ps' [41]")
    obtain tok q e ps2 where g: "gettoken buf ps1 = (tok, q, e, ps2)" by (cases "gettoken buf ps1")
    show ?thesis
    proof (cases b)
      case True
      then have "peek buf ps' [41] = (True, ps1)" using pk by simp
      note k = peek_take [OF l cs(2) this g]
      have t: "toks buf ps' = [Sym 41] @ toks buf ps2" using k(1,2) by (auto split: if_splits)
      show ?thesis using True by (simp add: pk g) (rule reads_cons [OF reads_mono [OF parseredirs_reads [OF k(3)]] t], auto)
    qed (simp add: pk)
  qed
  show ?thesis
  proof (cases b)
    case True
    then have "peek buf ps [40] = (True, ps1)" using pk by simp
    note k = peek_take [OF assms(2) cs(1) this g]
    have t: "toks buf ps = [Sym 40] @ toks buf ps2" using k(1,2) by (auto split: if_splits)
    have "reads buf ps2 (\<lambda>us. gexec ([Sym 40] @ us)) (rbind (parseline fuel buf ps2) (\<lambda>(cmd, ps). let (b, ps) = peek buf ps [41] in
        if \<not> b then Halt ''syntax - missing )'' else let (_, _, _, ps) = gettoken buf ps in parseredirs (Suc (length buf)) buf cmd ps))"
    proof (rule reads_bind [OF assms(1) [OF k(3)]], unfold prod.case, goal_cases)
      case (1 c ps' ts)
      show ?case by (rule reads_mono [OF close [OF 1(1)]]) (use ge_block [OF 1(2)] in auto)
    qed
    from reads_cons [OF this t] True show ?thesis by (simp add: pk g)
  qed (simp add: pk)
qed

lemma parse_reads:
  "ps \<le> length buf \<Longrightarrow> reads buf ps gline (parseline fuel buf ps)"
  "ps \<le> length buf \<Longrightarrow> reads buf ps gpipe (parsepipe fuel buf ps)"
  "ps \<le> length buf \<Longrightarrow> reads buf ps gexec (parseexec fuel buf ps)"
  "ps \<le> length buf \<Longrightarrow> reads buf ps gexec (parseblock fuel buf ps)"
proof (induction fuel arbitrary: ps)
  case (Suc fuel)
  {
    case 1
    show ?case unfolding parseline.simps
    proof (rule reads_bind [OF Suc.IH(2) [OF 1]], unfold prod.case, rule reads_bind [OF parsebacks_reads], assumption, unfold prod.case, elim exE conjE, goal_cases)
      case (1 c ps1 ts c2 ps2 us n)
      show ?case unfolding 1 using gl_pipe [OF 1(2), of n] gl_list [OF 1(2), of _ _ n]
        by (intro reads_sep [where R = gline]) (simp_all add: 1 Suc.IH(1) listcmd_def)
    qed
  next
    case 2
    show ?case unfolding parsepipe.simps
    proof (rule reads_bind [OF Suc.IH(3) [OF 2]], unfold prod.case, goal_cases)
      case (1 c ps1 ts)
      show ?case using gp_exec [OF 1(2)] gp_pipe [OF 1(2)] by (intro reads_sep [where R = gpipe]) (simp_all add: 1 Suc.IH(2) pipecmd_def)
    qed
  next
    case 3
    obtain b ps1 where pk: "peek buf ps [40] = (b, ps1)" by (cases "peek buf ps [40]")
    have cs: "set [40] \<subseteq> syms" by simp
    note p = peek_toks [OF 3 cs pk]
    have "reads buf ps1 gexec (rbind (parseredirs (Suc (length buf)) buf (EXEC []) ps1) (\<lambda>(r, ps). parseargs (Suc (length buf)) buf r 0 ps))"
    proof (rule reads_bind [OF parseredirs_reads [OF p(1)]], unfold prod.case, elim exE conjE, goal_cases)
      case (1 c ps' ts rs)
      show ?case unfolding 1 by (rule reads_mono [OF parseargs_reads [OF 1(1)]]) (use gsimple_append [OF 1(2)] in \<open>fastforce intro: ge_simple\<close>)
    qed
    moreover have "toks buf ps = [] @ toks buf ps1" using p(2) by simp
    ultimately show ?case using Suc.IH(4) [OF p(1)] by (auto simp: pk execcmd_def intro: reads_cons [of _ ps1 _ "[]"])
  next
    case 4
    show ?case by (rule parseblock_reads [OF Suc.IH(1) 4])
  }
qed simp_all

lemma parseredirs_gives:
  assumes "gsimple ts [] rs" and "ps \<le> length buf" and "toks buf ps = ts @ rest" and "\<not> starts [60, 62] rest"
  shows "gives buf (wrap rs c) rest (parseredirs fuel buf c ps)"
  using assms(1-3)
proof (induction fuel arbitrary: ts rs c ps)
  case (Suc fuel)
  obtain b ps1 where pk: "peek buf ps [60, 62] = (b, ps1)" by (cases "peek buf ps [60, 62]")
  obtain tok q0 e0 ps2 where g1: "gettoken buf ps1 = (tok, q0, e0, ps2)" by (cases "gettoken buf ps1")
  obtain w q e ps3 where g2: "gettoken buf ps2 = (w, q, e, ps3)" by (cases "gettoken buf ps2")
  have cs: "set [60, 62] \<subseteq> syms" by simp
  note p = peek_toks [OF Suc.prems(2) cs pk]
  from Suc.prems(1) show ?case
  proof (cases rule: gsimple.cases)
    case gs_end
    then show ?thesis using p Suc.prems(3) assms(4) by (auto simp: parseredirs.simps pk intro: gives_ret)
  next
    case (gs_redir us ss x m fd a z)
    have x: "x = 60 \<or> x = 62 \<or> x = 43" using gs_redir(4) by (auto simp: redir_sym_def split: if_splits)
    then have b: b using p(4) Suc.prems(3) gs_redir(1) by auto
    have 1: "tok = x" "toks buf ps2 = Word a z # us @ rest" "ps2 \<le> length buf"
      using gettoken_toks(1,3) [OF p(1) g1] p(2) Suc.prems(3) gs_redir(1) by auto
    have 2: "w = 97" "q = a" "e = z" "toks buf ps3 = us @ rest" "ps3 \<le> length buf" using gettoken_toks(1,4) [OF 1(3) g2] 1(2) by auto
    have "gives buf (wrap rs c) rest (parseredirs fuel buf (REDIR c (a, z) m fd) ps3)"
      using Suc.IH [OF gs_redir(3) 2(5,4), of "REDIR c (a, z) m fd"] gs_redir(2) by simp
    then show ?thesis using b 1(1) 2 x gs_redir(4) by (auto simp: pk g1 g2 parseredirs.simps redircmd_def redir_sym_def split: if_splits)
  qed
qed simp

lemma parseargs_gives:
  assumes "gsimple ts ws ss" and "ts = [] \<or> (\<exists>q e us. ts = Word q e # us)" and "ps \<le> length buf" and "toks buf ps = ts @ rest"
    and "ends [124, 41, 38, 59] rest" and "argc + length ws < MAXARGS"
  shows "gives buf (wrap (rs @ ss) (EXEC (vs @ ws))) rest (parseargs fuel buf (wrap rs (EXEC vs)) argc ps)"
  using assms(1-4,6)
proof (induction ws arbitrary: ts ss ps argc rs vs fuel)
  case Nil
  then have ts: "ts = []" "ss = []" using gsimple_no_words [OF Nil(1)] by auto
  obtain b ps1 where pk: "peek buf ps [124, 41, 38, 59] = (b, ps1)" by (cases "peek buf ps [124, 41, 38, 59]")
  obtain tok q e ps2 where g: "gettoken buf ps1 = (tok, q, e, ps2)" by (cases "gettoken buf ps1")
  have cs: "set [124, 41, 38, 59] \<subseteq> syms" by simp
  note p = peek_toks [OF Nil(3) cs pk]
  show ?case
  proof (cases fuel)
    case (Suc n)
    show ?thesis
    proof (cases "rest = []")
      case True
      then have "toks buf ps1 = []" "\<not> b" using p Nil(4) ts by auto
      then show ?thesis using gettoken_toks(1,2) [OF p(1) g] True Nil(5) ts by (auto simp: Suc parseargs.simps pk g Let_def intro: gives_ret)
    next
      case False
      then have b using p(4) Nil(4) ts assms(5) by (simp add: ends_def)
      then show ?thesis using p Nil(4,5) ts by (auto simp: Suc parseargs.simps pk intro: gives_ret)
    qed
  qed simp
next
  case (Cons w ws)
  obtain q e us where ts: "ts = Word q e # us" "w = (q, e)" "gsimple us ws ss" using Cons.prems(1,2) by (auto elim: gsimpleE)
  obtain us1 ss1 us2 ss2 where u: "us = us1 @ us2" "ss = ss1 @ ss2" "gsimple us1 [] ss1" "gsimple us2 ws ss2" "us2 = [] \<or> (\<exists>q e xs. us2 = Word q e # xs)"
    using gsimple_split [OF ts(3)] by blast
  obtain b ps1 where pk: "peek buf ps [124, 41, 38, 59] = (b, ps1)" by (cases "peek buf ps [124, 41, 38, 59]")
  obtain tok q' e' ps2 where g: "gettoken buf ps1 = (tok, q', e', ps2)" by (cases "gettoken buf ps1")
  have cs: "set [124, 41, 38, 59] \<subseteq> syms" by simp
  note p = peek_toks [OF Cons.prems(3) cs pk]
  have nb: "\<not> b" using p(4) Cons.prems(4) ts(1) by simp
  have 1: "tok = 97" "q' = q" "e' = e" "toks buf ps2 = us1 @ us2 @ rest" "ps2 \<le> length buf"
    using gettoken_toks(1,4) [OF p(1) g] p(2) Cons.prems(4) ts(1) u(1) by auto
  have f: "\<not> starts [60, 62] (us2 @ rest)" using u(5) assms(5) by (auto simp: ends_def starts_def split: if_splits)
  have "gives buf (wrap (rs @ ss) (EXEC (vs @ w # ws))) rest (rbind (parseredirs (Suc (length buf)) buf (wrap rs (EXEC (vs @ [w]))) ps2)
      (\<lambda>(r, ps). parseargs n buf r (Suc argc) ps))" for n
  proof (rule gives_bind [OF parseredirs_gives [OF u(3) 1(5,4) f]], unfold prod.case, goal_cases)
    case (1 ps3)
    have "Suc argc + length ws < MAXARGS" using Cons.prems(5) by simp
    from Cons.IH [OF u(4,5) 1 this, of "rs @ ss1" "vs @ [w]" n] show ?case using u(2) by simp
  qed
  then show ?case using nb 1(1-3) Cons.prems(5) ts(2) by (cases fuel) (simp_all add: parseargs.simps pk g Let_def)
qed

lemma parsebacks_gives:
  assumes "ps \<le> length buf" and "toks buf ps = replicate n (Sym 38) @ rest" and "\<not> starts [38] rest"
  shows "gives buf ((BACK ^^ n) c) rest (parsebacks fuel buf c ps)"
  using assms(1,2)
proof (induction n arbitrary: c ps fuel)
  case 0
  obtain b ps1 where pk: "peek buf ps [38] = (b, ps1)" by (cases "peek buf ps [38]")
  have cs: "set [38] \<subseteq> syms" by simp
  note p = peek_toks [OF 0(1) cs pk]
  show ?case using p 0 assms(3) by (cases fuel) (auto simp: parsebacks.simps pk intro: gives_ret)
next
  case (Suc n)
  obtain b ps1 where pk: "peek buf ps [38] = (b, ps1)" by (cases "peek buf ps [38]")
  obtain tok q e ps2 where g: "gettoken buf ps1 = (tok, q, e, ps2)" by (cases "gettoken buf ps1")
  have cs: "set [38] \<subseteq> syms" by simp
  note p = peek_toks [OF Suc.prems(1) cs pk]
  have b: b using p(4) Suc.prems(2) by simp
  have "toks buf ps2 = replicate n (Sym 38) @ rest" "ps2 \<le> length buf" using gettoken_toks(1,3) [OF p(1) g] p(2) Suc.prems(2) by auto
  from Suc.IH [OF this(2,1), of "BACK c"] show ?case using b
    by (cases fuel) (simp_all add: parsebacks.simps pk g backcmd_def funpow_swap1)
qed

lemma gives_sep:
  assumes "ps \<le> length buf" and "x \<in> syms" and "x \<noteq> 62" and "toks buf ps = Sym x # us"
    and "\<And>ps'. ps' \<le> length buf \<Longrightarrow> toks buf ps' = us \<Longrightarrow> gives buf d rest (P ps')"
  shows "gives buf (mk d) rest (let (b, ps) = peek buf ps [x] in
    if b then let (_, _, _, ps) = gettoken buf ps in rbind (P ps) (\<lambda>(rest, ps). Ret (mk rest, ps)) else Ret (c, ps))"
proof -
  obtain b ps1 where pk: "peek buf ps [x] = (b, ps1)" by (cases "peek buf ps [x]")
  obtain tok q e ps2 where g: "gettoken buf ps1 = (tok, q, e, ps2)" by (cases "gettoken buf ps1")
  have cs: "set [x] \<subseteq> syms" using assms(2) by simp
  note p = peek_toks [OF assms(1) cs pk]
  have b: b using p(4) assms(2-4) by auto
  have "toks buf ps2 = us" "ps2 \<le> length buf" using gettoken_toks(1,3) [OF p(1) g] p(2) assms(4) by auto
  from gives_bind [OF assms(5) [OF this(2,1)], of "mk d" rest "\<lambda>(rest, ps). Ret (mk rest, ps)"] show ?thesis
    using b by (auto simp: pk g intro: gives_ret)
qed

lemma gives_no_sep:
  assumes "ps \<le> length buf" and "x \<in> syms" and "toks buf ps = rest" and "\<not> starts [x] rest"
  shows "gives buf c rest (let (b, ps) = peek buf ps [x] in
    if b then let (_, _, _, ps) = gettoken buf ps in rbind (P ps) (\<lambda>(rest, ps). Ret (mk rest, ps)) else Ret (c, ps))"
proof -
  obtain b ps1 where pk: "peek buf ps [x] = (b, ps1)" by (cases "peek buf ps [x]")
  have cs: "set [x] \<subseteq> syms" using assms(2) by simp
  show ?thesis using peek_toks [OF assms(1) cs pk] assms(3,4) by (auto simp: pk intro: gives_ret)
qed

lemma parseexec_simple:
  assumes "gsimple ts ws rs" and "length ws < MAXARGS" and "ps \<le> length buf" and "toks buf ps = ts @ rest" and "ends [124, 41, 38, 59] rest"
  shows "gives buf (wrap rs (EXEC ws)) rest (parseexec fuel buf ps)"
proof -
  obtain b ps1 where pk: "peek buf ps [40] = (b, ps1)" by (cases "peek buf ps [40]")
  have cs: "set [40] \<subseteq> syms" by simp
  note p = peek_toks [OF assms(3) cs pk]
  have nb: "\<not> b" using p(4) assms(4,5) gsimple_start [OF assms(1)] by (auto simp: ends_def starts_def split: if_splits)
  obtain us1 ss1 us2 ss2 where u: "ts = us1 @ us2" "rs = ss1 @ ss2" "gsimple us1 [] ss1" "gsimple us2 ws ss2" "us2 = [] \<or> (\<exists>q e xs. us2 = Word q e # xs)"
    using gsimple_split [OF assms(1)] by blast
  have f: "\<not> starts [60, 62] (us2 @ rest)" using u(5) assms(5) by (auto simp: ends_def starts_def split: if_splits)
  have t: "toks buf ps1 = us1 @ us2 @ rest" using p(2) assms(4) u(1) by simp
  have "gives buf (wrap rs (EXEC ws)) rest (rbind (parseredirs (Suc (length buf)) buf (EXEC []) ps1) (\<lambda>(r, ps). parseargs (Suc (length buf)) buf r 0 ps))"
  proof (rule gives_bind [OF parseredirs_gives [OF u(3) p(1) t f]], unfold prod.case, goal_cases)
    case (1 ps3)
    from parseargs_gives [OF u(4,5) 1 assms(5), of 0 ss1 "[]"] show ?case using u(2) assms(2) by simp
  qed
  then show ?thesis using nb by (cases fuel) (simp_all add: pk execcmd_def)
qed

lemma parseblock_gives:
  assumes "\<And>ps fuel rest. ps \<le> length buf \<Longrightarrow> toks buf ps = ts @ rest \<Longrightarrow> ends [41] rest \<Longrightarrow> gives buf c rest (parseline fuel buf ps)"
    and "gsimple us [] rs" and "ps \<le> length buf" and "toks buf ps = Sym 40 # ts @ Sym 41 # us @ rest" and "ends [124, 41, 38, 59] rest"
  shows "gives buf (wrap rs c) rest (parseblock fuel buf ps)"
proof -
  obtain b ps1 where pk: "peek buf ps [40] = (b, ps1)" by (cases "peek buf ps [40]")
  obtain tok q e ps2 where g: "gettoken buf ps1 = (tok, q, e, ps2)" by (cases "gettoken buf ps1")
  have cs: "set [40] \<subseteq> syms" "set [41] \<subseteq> syms" by simp_all
  note p = peek_toks [OF assms(3) cs(1) pk]
  have b: b using p(4) assms(4) by simp
  have t2: "toks buf ps2 = ts @ Sym 41 # us @ rest" "ps2 \<le> length buf" using gettoken_toks(1,3) [OF p(1) g] p(2) assms(4) by auto
  have f: "\<not> starts [60, 62] rest" using assms(5) by (auto simp: ends_def starts_def split: if_splits)
  have e: "ends [41] (Sym 41 # us @ rest)" by (simp add: ends_def)
  have "gives buf (wrap rs c) rest (rbind (parseline n buf ps2) (\<lambda>(cmd, ps). let (b, ps) = peek buf ps [41] in
      if \<not> b then Halt ''syntax - missing )'' else let (_, _, _, ps) = gettoken buf ps in parseredirs (Suc (length buf)) buf cmd ps))" for n
  proof (rule gives_bind [OF assms(1) [OF t2(2,1) e]], unfold prod.case, goal_cases)
    case (1 ps')
    obtain b ps1 where pk: "peek buf ps' [41] = (b, ps1)" by (cases "peek buf ps' [41]")
    obtain tok q e ps2 where g: "gettoken buf ps1 = (tok, q, e, ps2)" by (cases "gettoken buf ps1")
    note p = peek_toks [OF 1(1) cs(2) pk]
    have "b" "toks buf ps2 = us @ rest" "ps2 \<le> length buf" using gettoken_toks(1,3) [OF p(1) g] p(2,4) 1(2) by auto
    then show ?case using parseredirs_gives [OF assms(2) _ _ f, of ps2 c "Suc (length buf)"] by (simp add: pk g)
  qed
  then show ?thesis using b by (cases fuel) (simp_all add: pk g)
qed

lemma parseline_one:
  assumes "\<And>ps fuel rest. ps \<le> length buf \<Longrightarrow> toks buf ps = ts @ rest \<Longrightarrow> ends [41, 38, 59] rest \<Longrightarrow> gives buf c rest (parsepipe fuel buf ps)"
    and "ps \<le> length buf" and "toks buf ps = (ts @ replicate k (Sym 38)) @ rest" and "ends [41] rest"
  shows "gives buf ((BACK ^^ k) c) rest (parseline fuel buf ps)"
proof (cases fuel)
  case (Suc n)
  have e: "ends [41, 38, 59] (replicate k (Sym 38) @ rest)" "\<not> starts [38] rest" "\<not> starts [59] rest"
    using assms(4) by (cases k; auto simp: ends_def starts_def split: if_splits)+
  have t: "toks buf ps = ts @ replicate k (Sym 38) @ rest" using assms(3) by simp
  show ?thesis unfolding Suc parseline.simps
    by (rule gives_bind [OF assms(1) [OF assms(2) t e(1)]], unfold prod.case, rule gives_bind [OF parsebacks_gives [OF _ _ e(2)]], assumption+,
        unfold prod.case, rule gives_no_sep) (simp_all add: e)
qed simp

lemma parseline_list:
  assumes "\<And>ps fuel rest. ps \<le> length buf \<Longrightarrow> toks buf ps = ts @ rest \<Longrightarrow> ends [41, 38, 59] rest \<Longrightarrow> gives buf c rest (parsepipe fuel buf ps)"
    and "\<And>ps fuel rest. ps \<le> length buf \<Longrightarrow> toks buf ps = us @ rest \<Longrightarrow> ends [41] rest \<Longrightarrow> gives buf d rest (parseline fuel buf ps)"
    and "ps \<le> length buf" and "toks buf ps = (ts @ replicate k (Sym 38) @ Sym 59 # us) @ rest" and "ends [41] rest"
  shows "gives buf (LIST ((BACK ^^ k) c) d) rest (parseline fuel buf ps)"
proof (cases fuel)
  case (Suc n)
  have e: "ends [41, 38, 59] (replicate k (Sym 38) @ Sym 59 # us @ rest)" "\<not> starts [38] (Sym 59 # us @ rest)"
    by (cases k; auto simp: ends_def starts_def)+
  have t: "toks buf ps = ts @ replicate k (Sym 38) @ Sym 59 # us @ rest" using assms(4) by simp
  show ?thesis unfolding Suc parseline.simps listcmd_def
    by (rule gives_bind [OF assms(1) [OF assms(3) t e(1)]], unfold prod.case, rule gives_bind [OF parsebacks_gives [OF _ _ e(2)]], assumption+,
        unfold prod.case, rule gives_sep [where us = "us @ rest" and mk = "LIST ((BACK ^^ k) c)"]) (simp_all add: assms(2) [OF _ _ assms(5)])
qed simp

lemma parse_gives:
  "gexec ts c \<Longrightarrow> args_fit c \<Longrightarrow> ps \<le> length buf \<Longrightarrow> toks buf ps = ts @ rest \<Longrightarrow> ends [124, 41, 38, 59] rest \<Longrightarrow> gives buf c rest (parseexec fuel buf ps)"
  "gpipe ts c \<Longrightarrow> args_fit c \<Longrightarrow> ps \<le> length buf \<Longrightarrow> toks buf ps = ts @ rest \<Longrightarrow> ends [41, 38, 59] rest \<Longrightarrow> gives buf c rest (parsepipe fuel buf ps)"
  "gline ts c \<Longrightarrow> args_fit c \<Longrightarrow> ps \<le> length buf \<Longrightarrow> toks buf ps = ts @ rest \<Longrightarrow> ends [41] rest \<Longrightarrow> gives buf c rest (parseline fuel buf ps)"
proof (induction arbitrary: ps rest fuel and ps rest fuel and ps rest fuel rule: gexec_gpipe_gline.inducts)
  case (ge_simple ts ws rs)
  then show ?case by (intro parseexec_simple) simp_all
next
  case (ge_block ts c us rs)
  obtain b ps1 where pk: "peek buf ps [40] = (b, ps1)" by (cases "peek buf ps [40]")
  have cs: "set [40] \<subseteq> syms" by simp
  note p = peek_toks [OF ge_block.prems(2) cs pk]
  have b: b using p(4) ge_block.prems(3) by simp
  have "gives buf (wrap rs c) rest (parseblock n buf ps1)" for n
    using ge_block p by (intro parseblock_gives [of ts c us rs]) simp_all
  then show ?case using b by (cases fuel) (simp_all add: pk)
next
  case (gp_exec ts c)
  have e: "ends [124, 41, 38, 59] rest" "\<not> starts [124] rest" using gp_exec.prems(4) by (auto simp: ends_def starts_def split: if_splits)
  show ?case
  proof (cases fuel)
    case (Suc n)
    show ?thesis unfolding Suc parsepipe.simps
      by (rule gives_bind [OF gp_exec.IH [OF gp_exec.prems(1-3) e(1)]], unfold prod.case, rule gives_no_sep) (simp_all add: e)
  qed simp
next
  case (gp_pipe ts c us d)
  have e: "ends [124, 41, 38, 59] (Sym 124 # us @ rest)" by (simp add: ends_def)
  have f: "args_fit c" "args_fit d" "toks buf ps = ts @ Sym 124 # us @ rest" using gp_pipe.prems(1,3) by simp_all
  show ?case
  proof (cases fuel)
    case (Suc n)
    show ?thesis unfolding Suc parsepipe.simps pipecmd_def
      by (rule gives_bind [OF gp_pipe.IH(1) [OF f(1) gp_pipe.prems(2) f(3) e]], unfold prod.case, rule gives_sep [where us = "us @ rest" and mk = "PIPE c"])
        (simp_all add: gp_pipe.IH(2) [OF f(2) _ _ gp_pipe.prems(4)])
  qed simp
next
  case (gl_pipe ts c k)
  then show ?case by (intro parseline_one) simp_all
next
  case (gl_list ts c us d k)
  then show ?case by (intro parseline_list [of ts c us d]) simp_all
qed

text \<open>The whole line.\<close>

lemma parseline_end:
  assumes "parseline fuel buf 0 = Ret (c, ps)"
  shows "ps \<le> length buf" and "snd (peek buf ps []) = length buf \<Longrightarrow> gline (lex 0 buf) c" and "snd (peek buf ps []) \<noteq> length buf \<Longrightarrow> toks buf ps \<noteq> []"
proof -
  obtain ts where l: "ps \<le> length buf" "lex 0 buf = ts @ toks buf ps" "gline ts c" using parse_reads(1) [of 0 fuel] assms by (auto simp: reads_def)
  obtain b s where pk: "peek buf ps [] = (b, s)" by (cases "peek buf ps []")
  have cs: "set [] \<subseteq> syms" by simp
  note p = peek_toks [OF l(1) cs pk]
  show "ps \<le> length buf" by (rule l(1))
  show "gline (lex 0 buf) c" if "snd (peek buf ps []) = length buf" using that p(2,3) l(2,3) by (simp add: pk)
  show "toks buf ps \<noteq> []" if "snd (peek buf ps []) \<noteq> length buf" using that p(2,3) by (simp add: pk)
qed

end

interpretation sl: shell_line "str_of s" for s
  by unfold_locales (auto simp: str_of_def dest: set_takeWhileD)

lemma parsecmd_gline: "parsecmd s = Ret (c, buf) \<Longrightarrow> gline (lex 0 (str_of s)) c"
  using sl.parseline_end(2) by (auto simp: parsecmd_def Let_def split_beta rbind_eq_Ret split: if_splits)

lemma parsecmd_complete:
  assumes "gline (lex 0 (str_of s)) c" and "args_fit c"
  shows "\<exists>buf. parsecmd s = Ret (c, buf)"
proof -
  let ?buf = "str_of s"
  have "gives ?buf c [] (parseline (4 * length ?buf + 4) ?buf 0)" by (rule sl.parse_gives(3) [of "lex 0 ?buf"]) (use assms in \<open>simp_all add: ends_def\<close>)
  moreover have "parseline (4 * length ?buf + 4) ?buf 0 \<noteq> NoRet" using parse_law(1) [of 0 ?buf "4 * length ?buf + 4"] by (auto simp: parsed_def)
  ultimately obtain ps where p: "parseline (4 * length ?buf + 4) ?buf 0 = Ret (c, ps)" "toks ?buf ps = []" by (auto simp: gives_def)
  then show ?thesis using sl.parseline_end(3) [OF p(1)] by (auto simp: parsecmd_def Let_def split_beta)
qed

section \<open>Properties\<close>

text \<open>C0. The parser is right: it returns on every line. The command it gives is the only one, with fewer than \<open>MAXARGS\<close> words in each
  simple command, that the grammar assigns to the tokens of the whole line: every word is an argument or
  a file name, in its order, and every redirection, pipe, list and background mark is where the line has it. So \<open>argv\<close> is never
  overrun, and after \<open>nulterminate\<close> every argument and file name is the string of its word. It stops with an
  error message only on lines that the grammar gives no such command.\<close>

theorem parsecmd_correct:
  "case parsecmd s of
     Ret (c, buf) \<Rightarrow> (\<forall>c'. gline (lex 0 (str_of s)) c' \<and> args_fit c' \<longleftrightarrow> c' = c) \<and>
       (\<forall>(q, eq)\<in>set (tokens c). token_ok (str_of s) (q, eq) \<and> str_of (drop q buf) = take (eq - q) (drop q (str_of s)))
   | Halt msg \<Rightarrow> \<not> (\<exists>c. gline (lex 0 (str_of s)) c \<and> args_fit c)
   | _ \<Rightarrow> False"
proof (cases "parsecmd s")
  case (Ret r)
  obtain c buf where r: "r = (c, buf)" by (cases r)
  have "c' = c" if "gline (lex 0 (str_of s)) c'" "args_fit c'" for c' using parsecmd_complete [OF that] by (simp add: Ret r)
  moreover have "gline (lex 0 (str_of s)) c" "args_fit c" using parsecmd_gline [OF Ret [unfolded r]] parsecmd_words [of s] by (simp_all add: Ret r)
  ultimately have "\<forall>c'. gline (lex 0 (str_of s)) c' \<and> args_fit c' \<longleftrightarrow> c' = c" by blast
  then show ?thesis using parsecmd_words [of s] unfolding Ret r res.case prod.case by blast
next
  case (Halt msg)
  then show ?thesis using parsecmd_complete [of s] by fastforce
qed (use parsecmd_words [of s] in auto)

theorem parsecmd_correct_witness:
  "case parsecmd [108, 115, 32, 62, 102, 10] of
     Ret (c, buf) \<Rightarrow> c = REDIR (EXEC [(0, 2)]) (4, 5) 513 1 \<and> gline [Word 0 2, Sym 62, Word 4 5] c \<and> str_of (drop 0 buf) = [108, 115] \<and> str_of (drop 4 buf) = [102] | _ \<Rightarrow> False"
proof -
  have "map_res fst (parsecmd [108, 115, 32, 62, 102, 10]) = Ret (REDIR (EXEC [(0, 2)]) (4, 5) 513 1)" by code_simp
  then obtain buf where "parsecmd [108, 115, 32, 62, 102, 10] = Ret (REDIR (EXEC [(0, 2)]) (4, 5) 513 1, buf)"
    by (cases "parsecmd [108, 115, 32, 62, 102, 10]") auto
  moreover have "lex 0 (str_of [108, 115, 32, 62, 102, 10]) = [Word 0 2, Sym 62, Word 4 5]" by code_simp
  ultimately show ?thesis using parsecmd_correct [of "[108, 115, 32, 62, 102, 10]"] by simp blast
qed

end
