(* ===== verification/Fs_Blocks.thy ===== *)
theory Fs_Blocks
  imports Fs_Data
begin

unbundle bit_operations_syntax

text \<open>
  What the lower half of \<open>kernel/fs.c\<close> does to the disk, proved over the contract of the buffer cache: the super block,
  allocation and release of blocks in the bitmap, and the inodes on the disk. \<open>kept s H s'\<close> says that a function has given
  back every buffer it took, and left alone those its caller holds and everything above the cache.
\<close>

definition kept :: "'a bio_scheme \<Rightarrow> nat set \<Rightarrow> 'a bio_scheme \<Rightarrow> bool" where
  "kept s H s' \<longleftrightarrow> cache_ok s' H \<and> bio.more s' = bio.more s \<and>
     (\<forall>j\<in>H. buf_key s' j = buf_key s j \<and> b_data (bcache s' j) = b_data (bcache s j))"

lemma kept_trans: "kept s H s' \<Longrightarrow> kept s' H s'' \<Longrightarrow> kept s H s''"
  by (auto simp: kept_def)

lemma kept_keys: "kept s H s' \<Longrightarrow> buf_key s' ` H = buf_key s ` H"
  by (auto simp: kept_def image_def)

text \<open>A block that is free to be read: the caller does not hold it, and there is a buffer left.\<close>

definition readable :: "'a bio_scheme \<Rightarrow> nat set \<Rightarrow> u32 \<times> u32 \<Rightarrow> bool" where
  "readable s H k \<longleftrightarrow> addressable k \<and> k \<notin> buf_key s ` H \<and> card H < NBUF"

lemma readable_kept: "kept s H s' \<Longrightarrow> readable s' H k \<longleftrightarrow> readable s H k"
  by (simp add: readable_def kept_keys)

lemma run_buf_data [simp]: "run (buf_data i) s P \<longleftrightarrow> P (b_data (bcache s i)) s"
  by (simp add: buf_data_def)

text \<open>The two ways a block is used: read and released, read and written back.\<close>

lemma read_law:
  assumes "cache_ok s H" and "readable s H (d, n)"
    and "\<And>s'. kept s H s' \<Longrightarrow> disk_block s' = disk_block s \<Longrightarrow> run (K (disk_block s (d, n))) s' Q"
  shows "run (bnd (bread d n) (\<lambda>bp. bnd (buf_data bp) (\<lambda>x. seq (brelse bp) (K x)))) s Q"
proof (rule bio.bread_then [OF assms(1)])
  fix i s1
  assume s1: "cache_ok s1 (insert i H)" "i \<notin> H" "buf_key s1 i = (d, n)" "b_data (bcache s1 i) = disk_block s (d, n)"
    "disk_block s1 = disk_block s" "bio.more s1 = bio.more s" "\<And>j. j \<in> H \<Longrightarrow> buf_key s1 j = buf_key s j"
    "\<And>j. j \<in> H \<Longrightarrow> b_data (bcache s1 j) = b_data (bcache s j)"
  show "run (bnd (buf_data i) (\<lambda>x. seq (brelse i) (K x))) s1 Q"
    unfolding run_bnd_iff [of "buf_data i"] run_buf_data
    by (rule bio.brelse_then [OF s1(1,2)]) (use s1 in \<open>auto simp: kept_def intro!: assms(3)\<close>)
qed (use assms(2) in \<open>auto simp: readable_def\<close>)

lemma update_law:
  assumes "cache_ok s H" and "readable s H (d, n)"
    and "\<And>s'. kept s H s' \<Longrightarrow> disk_block s' = (disk_block s)((d, n) := f (disk_block s (d, n))) \<Longrightarrow> run K s' Q"
  shows "run (bnd (bread d n) (\<lambda>bp. seq (set_data bp f) (seq (bwrite bp) (seq (brelse bp) K)))) s Q"
proof (rule bio.bread_then [OF assms(1)])
  fix i s1
  assume s1: "cache_ok s1 (insert i H)" "i \<notin> H" "buf_key s1 i = (d, n)" "b_data (bcache s1 i) = disk_block s (d, n)"
    "disk_block s1 = disk_block s" "bio.more s1 = bio.more s" "\<And>j. j \<in> H \<Longrightarrow> buf_key s1 j = buf_key s j"
    "\<And>j. j \<in> H \<Longrightarrow> b_data (bcache s1 j) = b_data (bcache s j)"
  show "run (seq (set_data i f) (seq (bwrite i) (seq (brelse i) K))) s1 Q"
    by (rule bio.write_back_then [OF s1(1,2)]) (use s1 in \<open>auto simp: kept_def intro!: assms(3)\<close>)
qed (use assms(2) in \<open>auto simp: readable_def\<close>)

text \<open>Where the code ends with \<open>brelse\<close>.\<close>

lemma update_last:
  assumes "cache_ok s H" and "readable s H (d, n)"
  shows "run (bnd (bread d n) (\<lambda>bp. seq (set_data bp f) (seq (bwrite bp) (brelse bp)))) s
    (\<lambda>_ s'. kept s H s' \<and> disk_block s' = (disk_block s)((d, n) := f (disk_block s (d, n))))"
proof -
  have eq: "brelse bp = seq (brelse bp) (ret ())" for bp :: nat by simp
  show ?thesis by (subst eq, rule update_law [OF assms]) simp
qed

text \<open>A block that is searched, and written back where something is found in it.\<close>

lemma search_law:
  assumes "cache_ok s H" and "readable s H (d, n)"
    and "\<And>y s'. g (disk_block s (d, n)) = Some y \<Longrightarrow> kept s H s' \<Longrightarrow>
      disk_block s' = (disk_block s)((d, n) := f y (disk_block s (d, n))) \<Longrightarrow> run (K y) s' Q"
    and "\<And>s'. g (disk_block s (d, n)) = None \<Longrightarrow> kept s H s' \<Longrightarrow> disk_block s' = disk_block s \<Longrightarrow> run L s' Q"
  shows "run (bnd (bread d n) (\<lambda>bp. bnd (buf_data bp) (\<lambda>x. case g x of
      Some y \<Rightarrow> seq (set_data bp (f y)) (seq (bwrite bp) (seq (brelse bp) (K y)))
    | None \<Rightarrow> seq (brelse bp) L))) s Q"
proof (rule bio.bread_then [OF assms(1)])
  fix i s1
  assume s1: "cache_ok s1 (insert i H)" "i \<notin> H" "buf_key s1 i = (d, n)" "b_data (bcache s1 i) = disk_block s (d, n)"
    "disk_block s1 = disk_block s" "bio.more s1 = bio.more s" "\<And>j. j \<in> H \<Longrightarrow> buf_key s1 j = buf_key s j"
    "\<And>j. j \<in> H \<Longrightarrow> b_data (bcache s1 j) = b_data (bcache s j)"
  show "run (bnd (buf_data i) (\<lambda>x. case g x of Some y \<Rightarrow> seq (set_data i (f y)) (seq (bwrite i) (seq (brelse i) (K y)))
      | None \<Rightarrow> seq (brelse i) L)) s1 Q"
    unfolding run_bnd_iff [of "buf_data i"] run_buf_data s1(4)
  proof (cases "g (disk_block s (d, n))", simp_all only: option.case)
    case (Some y)
    then show "run (seq (set_data i (f y)) (seq (bwrite i) (seq (brelse i) (K y)))) s1 Q"
      by (intro bio.write_back_then [OF s1(1,2)] assms(3)) (use s1 in \<open>auto simp: kept_def\<close>)
  next
    case None
    then show "run (seq (brelse i) L) s1 Q"
      by (intro bio.brelse_then [OF s1(1,2)] assms(4)) (use s1 in \<open>auto simp: kept_def\<close>)
  qed
qed (use assms(2) in \<open>auto simp: readable_def\<close>)

section \<open>The super block\<close>

definition sb_at :: "(u32 \<times> u32 \<Rightarrow> bytes) \<Rightarrow> u32 \<Rightarrow> superblock" where
  "sb_at B dev = dec_superblock (rd (B (dev, 1)) 0 12)"

lemma readsb_law:
  assumes "cache_ok s H" and "readable s H (dev, 1)"
  shows "run (readsb dev) s (\<lambda>sb s'. kept s H s' \<and> disk_block s' = disk_block s \<and> sb = sb_at (disk_block s) dev)"
  unfolding readsb_def by (rule read_law [OF assms]) (simp add: sb_at_def)

lemma bzero_law:
  assumes "cache_ok s H" and "readable s H (dev, b)"
  shows "run (bzero dev b) s (\<lambda>_ s'. kept s H s' \<and> disk_block s' = (disk_block s)((dev, b) := memset (disk_block s (dev, b)) 0 0 BSIZE))"
  unfolding bzero_def by (rule update_last [OF assms])

section \<open>The bitmap\<close>

text \<open>Block \<open>b\<close> is free when its bit, in the block \<open>BBLOCK\<close> names, is clear.\<close>

definition free_in :: "(u32 \<times> u32 \<Rightarrow> bytes) \<Rightarrow> u32 \<Rightarrow> u32 \<Rightarrow> u32 \<Rightarrow> bool" where
  "free_in B dev nin b \<longleftrightarrow> bit_clear (B (dev, BBLOCK b nin)) (unat b mod 4096)"

definition mark_used :: "nat \<Rightarrow> bytes \<Rightarrow> bytes" where
  "mark_used bi d = d(bi div 8 := d (bi div 8) OR push_bit (bi mod 8) 1)"

definition mark_free :: "nat \<Rightarrow> bytes \<Rightarrow> bytes" where
  "mark_free bi d = d(bi div 8 := d (bi div 8) AND NOT (push_bit (bi mod 8) 1))"

lemma mark_fun:
  "mark_used bi = (\<lambda>d. d(bi div 8 := d (bi div 8) OR push_bit (bi mod 8) 1))"
  "mark_free bi = (\<lambda>d. d(bi div 8 := d (bi div 8) AND NOT (push_bit (bi mod 8) 1)))"
  by (auto simp: mark_used_def mark_free_def)

lemma bit_clear_iff: "bit_clear d bi \<longleftrightarrow> \<not> bit (d (bi div 8)) (bi mod 8)"
  unfolding bit_clear_def push_bit_of_1 by (rule and_exp_eq_0_iff_not_bit)

lemma bit_mask_byte: "bit (2 ^ m :: u8) n \<longleftrightarrow> n = m \<and> n < 8"
  by (auto simp: bit_simps)

lemma same_bit: "b div 8 = c div 8 \<Longrightarrow> b mod 8 = c mod 8 \<Longrightarrow> b = c" for b c :: nat
  by (metis div_mult_mod_eq)

lemma bit_clear_mark:
  "bit_clear (mark_used bi d) bj \<longleftrightarrow> bit_clear d bj \<and> bj \<noteq> bi" "bit_clear (mark_free bi d) bj \<longleftrightarrow> bit_clear d bj \<or> bj = bi"
  using same_bit [of bj bi] mod_less_divisor [of 8 bj]
  by (auto simp: bit_clear_iff mark_used_def mark_free_def bit_or_iff bit_and_iff bit_not_iff bit_mask_byte)

lemma BBLOCK_inj:
  assumes "BBLOCK b nin = BBLOCK c nin" and "unat b mod 4096 = unat c mod 4096"
  shows "b = c"
proof -
  have "b div 4096 = c div 4096" using assms(1) by (simp add: BBLOCK_def)
  then have "unat (b div 4096) = unat (c div 4096)" by simp
  then have "unat b div 4096 = unat c div 4096" by (simp add: unat_div)
  then show ?thesis using assms(2) by (metis div_mult_mod_eq word_unat_eq_iff)
qed

text \<open>A disk the drive can address whole, with the bitmap where \<open>BBLOCK\<close> says.\<close>

definition geometry_ok :: "u32 \<Rightarrow> superblock \<Rightarrow> bool" where
  "geometry_ok dev sb \<longleftrightarrow> dev < 2 \<and> sb_size sb < 268435456 \<and> sb_ninodes sb < 268435456"

lemma BBLOCK_addressable:
  assumes "geometry_ok dev sb" and "b < sb_size sb"
  shows "addressable (dev, BBLOCK b (sb_ninodes sb))"
proof -
  have b: "unat b < 268435456" and n: "unat (sb_ninodes sb) < 268435456"
    using assms by (auto simp: geometry_ok_def word_less_nat_alt)
  have "unat (BBLOCK b (sb_ninodes sb)) = unat b div 4096 + unat (sb_ninodes sb) div 8 + 3"
    using b n by (simp add: BBLOCK_def unat_word_ariths unat_div) 
  then have "unat (BBLOCK b (sb_ninodes sb)) < 268435456" using b n by linarith
  then show ?thesis using assms(1) by (simp add: addressable_def geometry_ok_def word_less_nat_alt)
qed

text \<open>What \<open>balloc\<close> does: it takes the first free block below the size of the disk, if there is one.\<close>

definition balloc_post :: "(u32 \<times> u32 \<Rightarrow> bytes) \<Rightarrow> u32 \<Rightarrow> superblock \<Rightarrow> u32 \<Rightarrow> (u32 \<times> u32 \<Rightarrow> bytes) \<Rightarrow> bool" where
  "balloc_post B dev sb r B' \<longleftrightarrow>
     (r < sb_size sb \<and> free_in B dev (sb_ninodes sb) r \<and> (\<forall>m<r. \<not> free_in B dev (sb_ninodes sb) m) \<and>
      B' = B((dev, BBLOCK r (sb_ninodes sb)) := mark_used (unat r mod 4096) (B (dev, BBLOCK r (sb_ninodes sb))))) \<or>
     ((\<forall>m < sb_size sb. \<not> free_in B dev (sb_ninodes sb) m) \<and> r = 0 \<and> B' = B)"

text \<open>The blocks of one bitmap block.\<close>

lemma bitmap_group:
  assumes "unat b mod 4096 = 0" and "j < 4096" and "unat b < 268435456"
  shows "unat (b + of_nat j) = unat b + j" "BBLOCK (b + of_nat j) nin = BBLOCK b nin" "unat (b + of_nat j) mod 4096 = j"
proof -
  have "unat (of_nat j :: u32) = j" using assms(2) by (simp add: unat_of_nat)
  then show u: "unat (b + of_nat j) = unat b + j" using assms(2,3) by (simp add: unat_word_ariths)
  show "unat (b + of_nat j) mod 4096 = j" using assms(1,2) by (simp add: u mod_add_left_eq [symmetric])
  have "unat ((b + of_nat j) div 4096) = unat (b div 4096)" using assms(1,2) by (simp add: unat_div u div_add1_eq)
  then have "(b + of_nat j) div 4096 = b div 4096" by (simp add: word_unat_eq_iff)
  then show "BBLOCK (b + of_nat j) nin = BBLOCK b nin" by (simp add: BBLOCK_def)
qed

lemma balloc_bound:
  fixes b sz :: u32
  assumes "unat b mod 4096 = 0" and "b < sz" and "sz < 268435456"
  shows "(if b + 4096 > sz then unat (sz mod 4096) else BPB) = min 4096 (unat sz - unat b)"
proof -
  have lt: "unat b < unat sz" "unat sz < 268435456" using assms(2,3) by (auto simp: word_less_nat_alt)
  then have u: "unat (b + 4096) = unat b + 4096" by (simp add: unat_word_ariths)
  obtain k where k: "unat b = 4096 * k" using assms(1) by (auto simp: mod_eq_0_iff_dvd elim: dvdE)
  show ?thesis
  proof (cases "b + 4096 > sz")
    case True
    then have "unat sz < unat b + 4096" using u by (simp add: word_less_nat_alt)
    moreover have "unat sz = (unat sz - unat b) + 4096 * k" using lt(1) k by simp
    ultimately have "unat sz mod 4096 = unat sz - unat b" using lt(1) by (metis less_diff_conv2 less_imp_le mod_less mod_mult_self2 add.commute)
    then show ?thesis using True \<open>unat sz < unat b + 4096\<close> by (simp add: unat_mod)
  next
    case False
    then have "unat b + 4096 \<le> unat sz" using u by (simp add: word_less_nat_alt)
    then show ?thesis using False by simp
  qed
qed

text \<open>How many blocks the bitmap block of \<open>b\<close> speaks for.\<close>

definition group_size :: "superblock \<Rightarrow> u32 \<Rightarrow> nat" where
  "group_size sb b = min 4096 (unat (sb_size sb) - unat b)"

lemma balloc_loop_unfold:
  assumes "geometry_ok dev sb" and "unat b mod 4096 = 0" and "b < sb_size sb"
  shows "balloc_loop (Suc fuel) dev sb b = bnd (bread dev (BBLOCK b (sb_ninodes sb))) (\<lambda>bp. bnd (buf_data bp) (\<lambda>d.
    case find (bit_clear d) [0..<group_size sb b] of
      Some bi \<Rightarrow> seq (set_data bp (mark_used bi)) (seq (bwrite bp) (seq (brelse bp) (ret (b + of_nat bi))))
    | None \<Rightarrow> seq (brelse bp) (balloc_loop fuel dev sb (b + 4096))))"
proof -
  have "sb_size sb < 268435456" using assms(1) by (simp add: geometry_ok_def)
  note bound = balloc_bound [OF assms(2,3) this]
  show ?thesis unfolding mark_fun group_size_def using assms(3) by (simp add: bound)
qed

lemma group_free:
  assumes "geometry_ok dev sb" and "unat b mod 4096 = 0" and "b < sb_size sb" and "j < group_size sb b"
  shows "unat (b + of_nat j) = unat b + j" "BBLOCK (b + of_nat j) nin = BBLOCK b nin" "unat (b + of_nat j) mod 4096 = j"
    "free_in B dev nin (b + of_nat j) \<longleftrightarrow> bit_clear (B (dev, BBLOCK b nin)) j" "b + of_nat j < sb_size sb"
proof -
  have j: "j < 4096" and lt: "unat b < 268435456" using assms by (auto simp: geometry_ok_def word_less_nat_alt group_size_def)
  note g = bitmap_group [OF assms(2) j lt]
  show "unat (b + of_nat j) = unat b + j" "BBLOCK (b + of_nat j) nin = BBLOCK b nin" "unat (b + of_nat j) mod 4096 = j"
    by (rule g)+
  show "free_in B dev nin (b + of_nat j) \<longleftrightarrow> bit_clear (B (dev, BBLOCK b nin)) j" by (simp only: g(2,3) free_in_def)
  show "b + of_nat j < sb_size sb" using assms(4) by (auto simp: word_less_nat_alt g(1) group_size_def)
qed

text \<open>Nothing is free among the first \<open>j\<close> blocks from \<open>b\<close> on.\<close>

lemma group_used:
  assumes g: "geometry_ok dev sb" "unat b mod 4096 = 0" "b < sb_size sb" and j: "j \<le> group_size sb b"
    and none: "\<And>k. k < j \<Longrightarrow> \<not> bit_clear (B (dev, BBLOCK b nin)) k"
    and before: "\<And>c. c < b \<Longrightarrow> c < sb_size sb \<Longrightarrow> \<not> free_in B dev nin c"
    and c: "unat c < unat b + j"
  shows "\<not> free_in B dev nin c"
proof (cases "c < b")
  case True
  then show ?thesis using before [of c] g(3) by simp
next
  case False
  define k where "k = unat c - unat b"
  have k: "k < j" and u: "unat c = unat b + k" using False c by (auto simp: k_def word_less_nat_alt)
  have "k < group_size sb b" using k j by simp
  note gf = group_free [OF g this]
  have "c = b + of_nat k" using gf(1) u by (simp add: word_unat_eq_iff)
  then show ?thesis using gf(4) none [OF k] by simp
qed

lemma balloc_found:
  assumes g: "geometry_ok dev sb" "unat b mod 4096 = 0" "b < sb_size sb"
    and f: "find (bit_clear (B (dev, BBLOCK b (sb_ninodes sb)))) [0..<group_size sb b] = Some bi"
    and before: "\<And>c. c < b \<Longrightarrow> c < sb_size sb \<Longrightarrow> \<not> free_in B dev (sb_ninodes sb) c"
  shows "balloc_post B dev sb (b + of_nat bi) (B((dev, BBLOCK b (sb_ninodes sb)) := mark_used bi (B (dev, BBLOCK b (sb_ninodes sb)))))"
proof -
  have bi: "bi < group_size sb b" "bit_clear (B (dev, BBLOCK b (sb_ninodes sb))) bi"
      "\<And>j. j < bi \<Longrightarrow> \<not> bit_clear (B (dev, BBLOCK b (sb_ninodes sb))) j"
    using f by (auto simp: find_Some_iff)
  note gf = group_free [OF g bi(1)]
  have "\<not> free_in B dev (sb_ninodes sb) m" if "m < b + of_nat bi" for m
    using that gf(1) bi(1) by (intro group_used [OF g _ bi(3) before]) (auto simp: word_less_nat_alt)
  then show ?thesis using gf bi(2) by (simp add: balloc_post_def)
qed

lemma balloc_next:
  assumes g: "geometry_ok dev sb" "unat b mod 4096 = 0" "b < sb_size sb"
    and f: "find (bit_clear (B (dev, BBLOCK b nin))) [0..<group_size sb b] = None"
    and before: "\<And>c. c < b \<Longrightarrow> c < sb_size sb \<Longrightarrow> \<not> free_in B dev nin c"
  shows "unat (b + 4096) = unat b + 4096" "\<And>c. c < b + 4096 \<Longrightarrow> c < sb_size sb \<Longrightarrow> \<not> free_in B dev nin c"
proof -
  show u: "unat (b + 4096) = unat b + 4096" using g(1,3) by (simp add: geometry_ok_def word_less_nat_alt unat_word_ariths)
  fix c
  assume c: "c < b + 4096" "c < sb_size sb"
  have none: "\<not> bit_clear (B (dev, BBLOCK b nin)) k" if "k < group_size sb b" for k using f that by (auto simp: find_None_iff)
  show "\<not> free_in B dev nin c"
    by (rule group_used [OF g order.refl none before]) (use c u in \<open>auto simp: group_size_def word_less_nat_alt min_def\<close>)
qed

lemma balloc_loop_law:
  assumes g: "geometry_ok dev sb" and "cache_ok s H"
    and "\<And>c. c < sb_size sb \<Longrightarrow> readable s H (dev, BBLOCK c (sb_ninodes sb))"
    and "unat b mod 4096 = 0" "unat b < unat (sb_size sb) + 4096" "unat (sb_size sb) + 4096 \<le> unat b + 4096 * fuel"
    and "\<And>c. c < b \<Longrightarrow> c < sb_size sb \<Longrightarrow> \<not> free_in (disk_block s) dev (sb_ninodes sb) c"
  shows "run (balloc_loop fuel dev sb b) s (\<lambda>r s'. kept s H s' \<and> balloc_post (disk_block s) dev sb r (disk_block s'))"
  using assms(2-)
proof (induction fuel arbitrary: b s)
  case (Suc fuel)
  let ?nin = "sb_ninodes sb"
  show ?case
  proof (cases "b < sb_size sb")
    case False
    then have "\<not> free_in (disk_block s) dev ?nin m" if "m < sb_size sb" for m using Suc.prems(6) [of m] that by simp
    then show ?thesis using False Suc.prems(1) by (simp add: kept_def balloc_post_def)
  next
    case b: True
    note gb = g Suc.prems(3) b
    show ?thesis unfolding balloc_loop_unfold [OF gb]
    proof (rule search_law [OF Suc.prems(1) Suc.prems(2) [OF b]])
      fix bi s'
      assume "find (bit_clear (disk_block s (dev, BBLOCK b ?nin))) [0..<group_size sb b] = Some bi" "kept s H s'"
        "disk_block s' = (disk_block s)((dev, BBLOCK b ?nin) := mark_used bi (disk_block s (dev, BBLOCK b ?nin)))"
      then show "run (ret (b + of_nat bi)) s' (\<lambda>r s'. kept s H s' \<and> balloc_post (disk_block s) dev sb r (disk_block s'))"
        using balloc_found [where B = "disk_block s", OF gb _ Suc.prems(6)] by simp
    next
      fix s'
      assume n: "find (bit_clear (disk_block s (dev, BBLOCK b ?nin))) [0..<group_size sb b] = None"
        and k: "kept s H s'" and d: "disk_block s' = disk_block s"
      note nxt = balloc_next [where B = "disk_block s", OF gb n Suc.prems(6)]
      have "run (balloc_loop fuel dev sb (b + 4096)) s' (\<lambda>r s''. kept s' H s'' \<and> balloc_post (disk_block s') dev sb r (disk_block s''))"
        using Suc.prems(2-5) nxt b k readable_kept [OF k] by (intro Suc.IH) (auto simp: d word_less_nat_alt kept_def)
      then show "run (balloc_loop fuel dev sb (b + 4096)) s' (\<lambda>r s''. kept s H s'' \<and> balloc_post (disk_block s) dev sb r (disk_block s''))"
        unfolding d by (rule run_weaken) (auto intro: kept_trans [OF k])
    qed
  qed
qed simp

lemma balloc_law:
  assumes "cache_ok s H" and "readable s H (dev, 1)" and g: "geometry_ok dev (sb_at (disk_block s) dev)"
    and r: "\<And>c. c < sb_size (sb_at (disk_block s) dev) \<Longrightarrow> readable s H (dev, BBLOCK c (sb_ninodes (sb_at (disk_block s) dev)))"
  shows "run (balloc dev) s (\<lambda>r s'. kept s H s' \<and> balloc_post (disk_block s) dev (sb_at (disk_block s) dev) r (disk_block s'))"
  unfolding balloc_def
proof (rule run_bnd [OF readsb_law [OF assms(1,2)]])
  fix sb s1
  assume s1: "kept s H s1 \<and> disk_block s1 = disk_block s \<and> sb = sb_at (disk_block s) dev"
  have "run (balloc_loop (unat (sb_size sb) div 4096 + 2) dev sb 0) s1
      (\<lambda>r s'. kept s1 H s' \<and> balloc_post (disk_block s1) dev sb r (disk_block s'))"
  proof (rule balloc_loop_law)
    show "readable s1 H (dev, BBLOCK c (sb_ninodes sb))" if "c < sb_size sb" for c using that r s1 readable_kept [of s H s1] by auto
  qed (use s1 g in \<open>auto simp: kept_def\<close>)
  then show "run (balloc_loop (unat (sb_size sb) div 4096 + 2) dev sb 0) s1
      (\<lambda>r s'. kept s H s' \<and> balloc_post (disk_block s) dev (sb_at (disk_block s) dev) r (disk_block s'))"
    by (rule run_weaken) (use s1 in \<open>auto intro: kept_trans\<close>)
qed

text \<open>The bitmap bits of other blocks do not change.\<close>

lemma free_in_mark_used:
  "free_in (B((dev, BBLOCK b nin) := mark_used (unat b mod 4096) (B (dev, BBLOCK b nin)))) dev nin c \<longleftrightarrow> free_in B dev nin c \<and> c \<noteq> b"
  using BBLOCK_inj [of b nin c] by (auto simp: free_in_def bit_clear_mark)

lemma free_in_mark_free:
  "free_in (B((dev, BBLOCK b nin) := mark_free (unat b mod 4096) (B (dev, BBLOCK b nin)))) dev nin c \<longleftrightarrow> free_in B dev nin c \<or> c = b"
  using BBLOCK_inj [of b nin c] by (auto simp: free_in_def bit_clear_mark)

text \<open>Freeing: \<open>z\<close> is the disk after the block has been zeroed.\<close>

lemma bfree_law:
  assumes ok: "cache_ok s H" and r: "readable s H (dev, b)" "readable s H (dev, 1)"
    and z: "z = (disk_block s)((dev, b) := memset (disk_block s (dev, b)) 0 0 BSIZE)"
    and m: "readable s H (dev, BBLOCK b (sb_ninodes (sb_at z dev)))"
  shows "if free_in z dev (sb_ninodes (sb_at z dev)) b then bfree dev b s = Halt ''freeing free block''
    else run (bfree dev b) s (\<lambda>_ s'. kept s H s' \<and> disk_block s' =
      z((dev, BBLOCK b (sb_ninodes (sb_at z dev))) := mark_free (unat b mod 4096) (z (dev, BBLOCK b (sb_ninodes (sb_at z dev))))))"
proof -
  let ?nin = "sb_ninodes (sb_at z dev)"
  obtain s1 where s1: "bzero dev b s = Ret ((), s1)" "kept s H s1" "disk_block s1 = z"
    using bzero_law [OF ok r(1)] by (auto simp: run_def z)
  have ok1: "cache_ok s1 H" using s1(2) by (simp add: kept_def)
  obtain s2 where s2: "readsb dev s1 = Ret (sb_at z dev, s2)" "kept s1 H s2" "disk_block s2 = z"
    using readsb_law [OF ok1, of dev] r(2) readable_kept [OF s1(2)] s1(3) by (auto simp: run_def)
  have k2: "kept s H s2" using s1(2) s2(2) by (rule kept_trans)
  then have ok2: "cache_ok s2 H" by (simp add: kept_def)
  have m2: "readable s2 H (dev, BBLOCK b ?nin)" using m readable_kept [OF k2] by simp
  then obtain i s3 where s3: "bread dev (BBLOCK b ?nin) s2 = Ret (i, s3)" "cache_ok s3 (insert i H)" "i \<notin> H" "buf_key s3 i = (dev, BBLOCK b ?nin)"
      "b_data (bcache s3 i) = z (dev, BBLOCK b ?nin)" "disk_block s3 = z" "bio.more s3 = bio.more s2"
      "\<forall>j\<in>H. buf_key s3 j = buf_key s2 j \<and> b_data (bcache s3 j) = b_data (bcache s2 j)"
    using bio.bread_law [OF ok2, of dev "BBLOCK b ?nin"] s2(3) by (auto simp: run_def readable_def)
  have bi: "unat (b mod 4096) = unat b mod 4096" by (simp add: unat_mod)
  have tail: "seq (set_data i (mark_free bi)) (seq (bwrite i) (brelse i)) = seq (set_data i (mark_free bi)) (seq (bwrite i) (seq (brelse i) (ret ())))" for bi by simp
  have "bfree dev b s = (if free_in z dev ?nin b then panic ''freeing free block''
      else seq (set_data i (mark_free (unat b mod 4096))) (seq (bwrite i) (brelse i))) s3"
    using s1(1) s2(1) s3(1,5) by (simp add: bfree_def buf_data_def Let_def free_in_def mark_fun bi)
  moreover have "run (seq (set_data i (mark_free (unat b mod 4096))) (seq (bwrite i) (brelse i))) s3 (\<lambda>_ s'. kept s H s' \<and> disk_block s' =
      z((dev, BBLOCK b ?nin) := mark_free (unat b mod 4096) (z (dev, BBLOCK b ?nin))))"
    unfolding tail by (rule bio.write_back_then [OF s3(2,3)]) (use s3 k2 in \<open>auto simp: kept_def\<close>)
  ultimately show ?thesis by (simp add: run_def)
qed

section \<open>Inodes on the disk\<close>

definition dinode_at :: "(u32 \<times> u32 \<Rightarrow> bytes) \<Rightarrow> u32 \<Rightarrow> u32 \<Rightarrow> dinode" where
  "dinode_at B dev inum = dec_dinode (rd (B (dev, IBLOCK inum)) (ioff inum) 64)"

definition put_dinode :: "(u32 \<times> u32 \<Rightarrow> bytes) \<Rightarrow> u32 \<Rightarrow> u32 \<Rightarrow> dinode \<Rightarrow> u32 \<times> u32 \<Rightarrow> bytes" where
  "put_dinode B dev inum d = B((dev, IBLOCK inum) := wr (B (dev, IBLOCK inum)) (ioff inum) (enc_dinode d))"

lemma IBLOCK_inj:
  assumes "IBLOCK m = IBLOCK n" and "unat m mod 8 = unat n mod 8"
  shows "m = n"
proof -
  have "m div 8 = n div 8" using assms(1) by (simp add: IBLOCK_def)
  then have "unat (m div 8) = unat (n div 8)" by simp
  then have "unat m div 8 = unat n div 8" by (simp add: unat_div)
  then show ?thesis using assms(2) by (metis div_mult_mod_eq word_unat_eq_iff)
qed

lemma dinode_at_put:
  assumes "dinode_valid d"
  shows "dinode_at (put_dinode B dev inum d) dev inum = d"
    and "n \<noteq> inum \<Longrightarrow> dinode_at (put_dinode B dev inum d) dev n = dinode_at B dev n"
proof -
  show "dinode_at (put_dinode B dev inum d) dev inum = d" using dinode.dec_enc [OF assms] dinode.length_enc [OF assms]
    by (simp add: dinode_at_def put_dinode_def bytes_simps)
  assume "n \<noteq> inum"
  then have "IBLOCK n = IBLOCK inum \<Longrightarrow> unat n mod 8 \<noteq> unat inum mod 8" using IBLOCK_inj by blast
  then have "IBLOCK n = IBLOCK inum \<Longrightarrow> ioff n + 64 \<le> ioff inum \<or> ioff inum + 64 \<le> ioff n" unfolding ioff_def by linarith
  then show "dinode_at (put_dinode B dev inum d) dev n = dinode_at B dev n" using dinode.length_enc [OF assms]
    by (auto simp: dinode_at_def put_dinode_def bytes_simps)
qed

lemma more_fsys: "bio.more s' = bio.more s \<Longrightarrow> icache s' = icache s \<and> fsys.more s' = fsys.more s" for s s' :: "'a fsys_scheme"
  by (cases s; cases s') simp

lemma iupdate_law:
  fixes s :: "'a fsys_scheme"
  assumes "cache_ok s H" and "readable s H (i_dev (icache s i), IBLOCK (i_inum (icache s i)))"
  shows "run (iupdate i) s (\<lambda>_ s'. kept s H s' \<and> icache s' = icache s \<and>
    disk_block s' = put_dinode (disk_block s) (i_dev (icache s i)) (i_inum (icache s i)) (to_dinode (icache s i)))"
proof -
  have "run (bnd (bread (i_dev (icache s i)) (IBLOCK (i_inum (icache s i)))) (\<lambda>bp.
      seq (set_data bp (\<lambda>d. wr d (ioff (i_inum (icache s i))) (enc_dinode (to_dinode (icache s i))))) (seq (bwrite bp) (brelse bp)))) s
      (\<lambda>_ s'. kept s H s' \<and> disk_block s' = put_dinode (disk_block s) (i_dev (icache s i)) (i_inum (icache s i)) (to_dinode (icache s i)))"
    unfolding put_dinode_def by (rule update_last [OF assms])
  then show ?thesis unfolding iupdate_def the_inode_def run_bnd_iff [of "gets _"] run_simps
    by (rule run_weaken) (use more_fsys in \<open>auto simp: kept_def\<close>)
qed

end
