(* ===== verification/Fs_Inodes.thy ===== *)
theory Fs_Inodes
  imports Fs_Blocks
begin

unbundle bit_operations_syntax

text \<open>
  Inodes in memory and their contents: loading and storing an inode, the small files kept inside it, and reading the
  blocks of a regular file. \<open>fkept s H s'\<close> is \<open>kept\<close> for functions that change the inode cache.
\<close>

definition fkept :: "'a fsys_scheme \<Rightarrow> nat set \<Rightarrow> 'a fsys_scheme \<Rightarrow> bool" where
  "fkept s H s' \<longleftrightarrow> cache_ok s' H \<and> fsys.more s' = fsys.more s \<and>
     (\<forall>j\<in>H. buf_key s' j = buf_key s j \<and> b_data (bcache s' j) = b_data (bcache s j))"

lemma fkept_trans: "fkept s H s' \<Longrightarrow> fkept s' H s'' \<Longrightarrow> fkept s H s''"
  by (auto simp: fkept_def)

lemma kept_fkept: "kept s H s' \<Longrightarrow> fkept s H s' \<and> icache s' = icache s" for s s' :: "'a fsys_scheme"
  using more_fsys by (auto simp: kept_def fkept_def)

lemma readable_fkept: "fkept s H s' \<Longrightarrow> readable s' H k \<longleftrightarrow> readable s H k"
  by (auto simp: readable_def fkept_def image_def)

lemma icache_upd [simp]:
  "disk_block (s\<lparr>icache := x\<rparr>) = disk_block s" "buf_key (s\<lparr>icache := x\<rparr>) = buf_key s" "cache_ok (s\<lparr>icache := x\<rparr>) H \<longleftrightarrow> cache_ok s H"
  "readable (s\<lparr>icache := x\<rparr>) H k \<longleftrightarrow> readable s H k" "fkept s H (s\<lparr>icache := x\<rparr>) \<longleftrightarrow> cache_ok s H"
proof -
  show 1: "disk_block (s\<lparr>icache := x\<rparr>) = disk_block s" "buf_key (s\<lparr>icache := x\<rparr>) = buf_key s" by (simp_all add: disk_block_def buf_key_def fun_eq_iff)
  then show 2: "cache_ok (s\<lparr>icache := x\<rparr>) H \<longleftrightarrow> cache_ok s H" by (simp add: cache_ok_def)
  show "readable (s\<lparr>icache := x\<rparr>) H k \<longleftrightarrow> readable s H k" by (simp add: readable_def 1)
  show "fkept s H (s\<lparr>icache := x\<rparr>) \<longleftrightarrow> cache_ok s H" by (simp add: fkept_def 1 2)
qed

lemma run_upd_inode [simp]: "run (upd_inode i f) s P \<longleftrightarrow> P () (s\<lparr>icache := (icache s)(i := f (icache s i))\<rparr>)"
  by (simp add: upd_inode_def)

lemma run_the_inode [simp]: "run (the_inode i) s P \<longleftrightarrow> P (icache s i) s"
  by (simp add: the_inode_def)

section \<open>Locking\<close>

text \<open>An inode as it is after its fields have been copied from the disk.\<close>

definition loaded :: "dinode \<Rightarrow> inode \<Rightarrow> inode" where
  "loaded d ip = ip\<lparr>i_busy := True, i_valid := True, i_type := di_type d, i_major := di_major d, i_minor := di_minor d,
     i_nlink := di_nlink d, i_size := di_size d, i_addrs := di_addrs d\<rparr>"

lemma ilock_valid:
  assumes "1 \<le> i_ref (icache s i)" and "\<not> i_busy (icache s i)" and "i_valid (icache s i)"
  shows "ilock i s = Ret ((), s\<lparr>icache := (icache s)(i := (icache s i)\<lparr>i_busy := True\<rparr>)\<rparr>)"
  using assms by (simp add: ilock_def the_inode_def upd_inode_def)

lemma ilock_load:
  fixes s :: "'a fsys_scheme"
  assumes ok: "cache_ok s H" and i: "1 \<le> i_ref (icache s i)" "\<not> i_busy (icache s i)" "\<not> i_valid (icache s i)"
    and r: "readable s H (i_dev (icache s i), IBLOCK (i_inum (icache s i)))"
    and t: "di_type (dinode_at (disk_block s) (i_dev (icache s i)) (i_inum (icache s i))) \<noteq> 0"
  shows "run (ilock i) s (\<lambda>_ s'. fkept s H s' \<and> disk_block s' = disk_block s \<and>
    icache s' = (icache s)(i := loaded (dinode_at (disk_block s) (i_dev (icache s i)) (i_inum (icache s i))) (icache s i)))"
proof -
  let ?ip = "icache s i"
  define d where "d = dinode_at (disk_block s) (i_dev ?ip) (i_inum ?ip)"
  define s1 where "s1 = s\<lparr>icache := (icache s)(i := ?ip\<lparr>i_busy := True\<rparr>)\<rparr>"
  have s1: "cache_ok s1 H" "readable s1 H (i_dev ?ip, IBLOCK (i_inum ?ip))" "disk_block s1 = disk_block s" using ok r by (simp_all add: s1_def)
  obtain b s2 where b: "bread (i_dev ?ip) (IBLOCK (i_inum ?ip)) s1 = Ret (b, s2)" "cache_ok s2 (insert b H)" "b \<notin> H"
      "buf_key s2 b = (i_dev ?ip, IBLOCK (i_inum ?ip))" "b_data (bcache s2 b) = disk_block s (i_dev ?ip, IBLOCK (i_inum ?ip))"
      "disk_block s2 = disk_block s" "bio.more s2 = bio.more s1"
      "\<forall>j\<in>H. buf_key s2 j = buf_key s j \<and> b_data (bcache s2 j) = b_data (bcache s j)"
    using bio.bread_law [OF s1(1), of "i_dev ?ip" "IBLOCK (i_inum ?ip)"] s1 unfolding s1(3) by (auto simp: run_def readable_def s1_def)
  define x where "x = (\<lambda>ip :: inode. ip\<lparr>i_type := di_type d, i_major := di_major d, i_minor := di_minor d,
      i_nlink := di_nlink d, i_size := di_size d, i_addrs := di_addrs d\<rparr>)"
  define s3 where "s3 = s2\<lparr>icache := (icache s2)(i := x (icache s2 i))\<rparr>"
  have i2: "icache s2 = (icache s)(i := ?ip\<lparr>i_busy := True\<rparr>)" "fsys.more s2 = fsys.more s" using more_fsys [OF b(7)] by (simp_all add: s1_def)
  obtain s4 where s4: "brelse b s3 = Ret ((), s4)" "cache_ok s4 H" "disk_block s4 = disk_block s" "bio.more s4 = bio.more s3"
      "\<forall>j\<in>H. buf_key s4 j = buf_key s3 j \<and> b_data (bcache s4 j) = b_data (bcache s3 j)"
    using bio.brelse_law [of s3 "insert b H" b] b(2-6) by (auto simp: run_def s3_def)
  have i4: "icache s4 = (icache s)(i := x (?ip\<lparr>i_busy := True\<rparr>))" "fsys.more s4 = fsys.more s" using more_fsys [OF s4(4)] i2 by (simp_all add: s3_def)
  define s5 where "s5 = s4\<lparr>icache := (icache s4)(i := (icache s4 i)\<lparr>i_valid := True\<rparr>)\<rparr>"
  have dd: "dec_dinode (rd (disk_block s (i_dev ?ip, IBLOCK (i_inum ?ip))) (ioff (i_inum ?ip)) 64) = d" by (simp add: d_def dinode_at_def)
  have "ilock i s = Ret ((), s5)"
    using i t [folded d_def] b(1,5) s4(1) [unfolded s3_def x_def]
    by (simp add: ilock_def the_inode_def upd_inode_def buf_data_def Let_def s5_def dd flip: s1_def)
  moreover have "fkept s H s5" "disk_block s5 = disk_block s" using s4 i4 b(8) by (auto simp: s5_def s3_def fkept_def)
  moreover have "(x (?ip\<lparr>i_busy := True\<rparr>))\<lparr>i_valid := True\<rparr> = loaded d ?ip" by (cases ?ip) (simp add: x_def loaded_def)
  then have "icache s5 = (icache s)(i := loaded d ?ip)" by (simp add: s5_def i4)
  ultimately show ?thesis by (simp add: run_def d_def)
qed

lemma loaded_to_dinode: "i_busy ip \<Longrightarrow> i_valid ip \<Longrightarrow> loaded (to_dinode ip) ip = ip"
  by (cases ip) (simp add: loaded_def to_dinode_def)

section \<open>Small files\<close>

text \<open>Storing a byte leaves the bytes before it alone; the sign extension may spoil those after it in the same word.\<close>

lemma bit_0xff: "bit (0xff :: int) n \<longleftrightarrow> n < 8"
proof -
  have "(0xff :: int) = mask 8" by (simp add: mask_eq_exp_minus_1)
  then show ?thesis by (simp only: bit_mask_iff) simp
qed

lemma bit_small_get: "bit (small_get a i) n \<longleftrightarrow> n < 8 \<and> bit (a ! (i div 4)) (i mod 4 * 8 + n)"
  by (auto simp: small_get_def bit_simps bit_0xff)

lemma bit_scast_low: "n < 8 \<Longrightarrow> bit (scast (c :: u8) :: u32) n \<longleftrightarrow> bit c n"
  by (cases "n = 7") (auto simp: bit_signed_iff min_def)

lemma small_get_put:
  assumes "length a = 13" and "k < 52" and "i \<le> k"
  shows "small_get (small_put a k c) i = (if i = k then c else small_get a i)"
proof (rule bit_word_eqI)
  fix n
  assume n: "n < LENGTH(8)"
  have k: "k div 4 < 13" "k mod 4 < 4" "i mod 4 < 4" using assms(2) by auto
  show "bit (small_get (small_put a k c) i) n = bit (if i = k then c else small_get a i) n"
  proof (cases "i div 4 = k div 4")
    case False
    then show ?thesis by (auto simp: bit_small_get small_put_def)
  next
    case True
    have w: "small_put a k c ! (i div 4) = (a ! (k div 4) AND NOT (push_bit (k mod 4 * 8) 0xff)) OR push_bit (k mod 4 * 8) (scast c)"
      using True k(1) assms(1) by (simp add: small_put_def)
    have le: "i mod 4 \<le> k mod 4" using True assms(3) by (metis add_le_cancel_left div_mult_mod_eq)
    have eq: "i = k \<longleftrightarrow> i mod 4 = k mod 4" using True by (metis div_mult_mod_eq)
    show ?thesis using n k le unfolding bit_small_get w bit_or_iff bit_and_iff bit_not_iff bit_push_bit_iff
      by (auto simp: eq bit_0xff True bit_small_get bit_scast_low not_le)
  qed
qed

text \<open>The loop of \<open>writei\<close> over the bytes of a small file.\<close>

definition small_puts :: "bytes \<Rightarrow> nat \<Rightarrow> nat \<Rightarrow> u32 list \<Rightarrow> u32 list" where
  "small_puts src off n a = fold (\<lambda>k a. small_put a k (src (k - off))) [off..<off + n] a"

lemma small_puts_law:
  assumes "length a = 13" and "off + n \<le> 52"
  shows "length (small_puts src off n a) = 13 \<and>
    (\<forall>i<off + n. small_get (small_puts src off n a) i = (if off \<le> i then src (i - off) else small_get a i))"
  using assms(2)
proof (induction n)
  case (Suc n)
  let ?a = "small_puts src off n a"
  have IH: "length ?a = 13" "\<And>i. i < off + n \<Longrightarrow> small_get ?a i = (if off \<le> i then src (i - off) else small_get a i)" using Suc by auto
  have "small_puts src off (Suc n) a = small_put ?a (off + n) (src n)" by (simp add: small_puts_def)
  then show ?case using IH small_get_put [OF IH(1), of "off + n"] Suc.prems by (auto simp: small_put_def)
qed (auto simp: small_puts_def assms(1))

lemma small_puts_bytes:
  assumes "length a = 13" and "off + n \<le> 52"
  shows "map (small_get (small_puts src off n a)) [0..<off + n] = map (small_get a) [0..<off] @ rd src 0 n"
  using small_puts_law [OF assms, of src] by (intro nth_equalityI) (auto simp: nth_append)

text \<open>How much of a write to a small file at \<open>off\<close> is done.\<close>

definition small_len :: "u32 \<Rightarrow> u32 \<Rightarrow> u32" where
  "small_len off n = (if off + n > 52 then 52 - off else n)"

lemma small_len_law:
  assumes "off \<le> 52" and "\<not> off + n < off"
  shows "unat (off + small_len off n) = unat off + unat (small_len off n)" "unat off + unat (small_len off n) \<le> 52"
    "unat (small_len off n) = min (unat n) (52 - unat off)"
proof -
  have o: "unat off \<le> 52" using assms(1) by (simp add: word_le_nat_alt)
  have "off \<le> off + n" using assms(2) by simp
  then have u: "unat (off + n) = unat off + unat n" by (simp add: unat_plus_simple [symmetric])
  have d: "unat (52 - off) = 52 - unat off" using assms(1) by (simp add: unat_sub)
  show "unat (off + small_len off n) = unat off + unat (small_len off n)" "unat off + unat (small_len off n) \<le> 52"
    "unat (small_len off n) = min (unat n) (52 - unat off)"
    using o u d by (auto simp: small_len_def word_less_nat_alt)
qed

text \<open>The inode after a write to a small file.\<close>

definition small_written :: "bytes \<Rightarrow> u32 \<Rightarrow> u32 \<Rightarrow> inode \<Rightarrow> inode" where
  "small_written src off n ip = ip\<lparr>i_addrs := small_puts src (unat off) (unat n) (i_addrs ip), i_size := off + n\<rparr>"

lemma writei_small:
  fixes s :: "'a fsys_scheme"
  assumes ok: "cache_ok s H" and t: "i_type (icache s i) = T_SMALLFILE"
    and r: "readable s H (i_dev (icache s i), IBLOCK (i_inum (icache s i)))" and o: "off \<le> 52" "\<not> off + n < off"
  shows "run (writei dv i src off n) s (\<lambda>r s'. r = int (unat (small_len off n)) \<and> fkept s H s' \<and>
    icache s' = (icache s)(i := small_written src off (small_len off n) (icache s i)) \<and>
    disk_block s' = put_dinode (disk_block s) (i_dev (icache s i)) (i_inum (icache s i))
      (to_dinode (small_written src off (small_len off n) (icache s i))))"
proof -
  define m where "m = small_len off n"
  note l = small_len_law [OF o, folded m_def]
  let ?ip = "small_written src off m (icache s i)"
  define s1 where "s1 = s\<lparr>icache := (icache s)(i := ?ip)\<rparr>"
  have s1: "cache_ok s1 H" "readable s1 H (i_dev (icache s1 i), IBLOCK (i_inum (icache s1 i)))"
    using ok r by (simp_all add: s1_def small_written_def)
  obtain s2 where s2: "iupdate i s1 = Ret ((), s2)" "kept s1 H s2" "icache s2 = icache s1"
      "disk_block s2 = put_dinode (disk_block s1) (i_dev (icache s1 i)) (i_inum (icache s1 i)) (to_dinode (icache s1 i))"
    using iupdate_law [OF s1] by (auto simp: run_def)
  have no: "\<not> 52 < off" using o(1) by simp
  have "sint m = int (unat m)" using l(2) by (intro sint_small) linarith
  then have "writei dv i src off n s = Ret (int (unat m), s2)"
    using t no o(2) s2(1) by (simp add: writei_def the_inode_def upd_inode_def Let_def l(1) s1_def small_written_def small_puts_def
      small_len_def [symmetric] m_def [symmetric])
  moreover have "fkept s H s1" using ok by (simp add: s1_def)
  then have "fkept s H s2" using kept_fkept [OF s2(2)] fkept_trans by blast
  ultimately show ?thesis using s2(3,4) by (simp add: run_def s1_def m_def [symmetric] small_written_def)
qed

lemma readi_small:
  assumes t: "i_type (icache s i) = T_SMALLFILE" and sz: "i_size (icache s i) \<le> 52" and o: "off \<le> i_size (icache s i)" "\<not> off + n < off"
    and m: "m = min (unat n) (unat (i_size (icache s i)) - unat off)"
  shows "readi dv i off n s = Ret ((int m, map (small_get (i_addrs (icache s i))) [unat off..<unat off + m]), s)"
proof -
  let ?size = "i_size (icache s i)"
  have off: "off \<le> 52" "\<not> 52 < off" using o(1) sz by auto
  note l = small_len_law [OF off(1) o(2)]
  define n' where "n' = (if off + small_len off n > ?size then ?size - off else small_len off n)"
  have le: "unat off \<le> unat ?size" "unat ?size \<le> 52" using o(1) sz by (simp_all add: word_le_nat_alt)
  have "unat (?size - off) = unat ?size - unat off" using o(1) by (simp add: unat_sub)
  then have n': "unat n' = m" using l le by (auto simp: n'_def m word_less_nat_alt min_def split: if_splits)
  moreover have "unat (off + n') = unat off + unat n'"
    using n' le m by (simp add: unat_word_ariths)
  moreover have "sint n' = int m" using n' le m by (subst sint_small) auto
  ultimately show ?thesis using t off(2) o(2)
    by (simp add: readi_def the_inode_def Let_def small_len_def [symmetric] n'_def [symmetric])
qed

section \<open>The blocks of a file\<close>

text \<open>The address of block \<open>n\<close> of a file, and byte \<open>k\<close> of its contents.\<close>

definition baddr :: "(u32 \<times> u32 \<Rightarrow> bytes) \<Rightarrow> inode \<Rightarrow> nat \<Rightarrow> u32" where
  "baddr B ip n = (if n < NDIRECT then i_addrs ip ! n else get_word (B (i_dev ip, i_addrs ip ! NDIRECT)) (n - NDIRECT))"

definition file_byte :: "(u32 \<times> u32 \<Rightarrow> bytes) \<Rightarrow> inode \<Rightarrow> nat \<Rightarrow> u8" where
  "file_byte B ip k = B (i_dev ip, baddr B ip (k div BSIZE)) (k mod BSIZE)"

text \<open>Block \<open>n\<close> is there and can be read.\<close>

definition mapped :: "'a fsys_scheme \<Rightarrow> nat set \<Rightarrow> inode \<Rightarrow> nat \<Rightarrow> bool" where
  "mapped s H ip n \<longleftrightarrow> n < MAXFILE \<and> baddr (disk_block s) ip n \<noteq> 0 \<and> readable s H (i_dev ip, baddr (disk_block s) ip n) \<and>
     (NDIRECT \<le> n \<longrightarrow> i_addrs ip ! NDIRECT \<noteq> 0 \<and> readable s H (i_dev ip, i_addrs ip ! NDIRECT))"

lemma mapped_kept: "kept s H s' \<Longrightarrow> disk_block s' = disk_block s \<Longrightarrow> mapped s' H ip n \<longleftrightarrow> mapped s H ip n" for s s' :: "'a fsys_scheme"
  by (simp add: mapped_def readable_kept)

lemma bmap_mapped:
  fixes s :: "'a fsys_scheme"
  assumes ok: "cache_ok s H" and m: "mapped s H (icache s i) (unat bn)"
  shows "run (bmap i bn) s (\<lambda>r s'. kept s H s' \<and> disk_block s' = disk_block s \<and> r = baddr (disk_block s) (icache s i) (unat bn))"
proof (cases "bn < 12")
  case True
  then have "unat bn < 12" by (simp add: word_less_nat_alt)
  then show ?thesis using True m ok by (simp add: bmap_def run_bnd_iff mapped_def baddr_def kept_def)
next
  case False
  let ?ip = "icache s i"
  have n: "12 \<le> unat bn" "unat bn < 140" using False m by (simp_all add: word_less_nat_alt mapped_def)
  have d: "unat (bn - 12) = unat bn - 12" using False by (simp add: unat_sub)
  then have lt: "bn - 12 < 128" using n by (simp add: word_less_nat_alt)
  define w where "w = get_word (disk_block s (i_dev ?ip, i_addrs ?ip ! NDIRECT)) (unat bn - 12)"
  have w: "w \<noteq> 0" "i_addrs ?ip ! NDIRECT \<noteq> 0" "readable s H (i_dev ?ip, i_addrs ?ip ! NDIRECT)" "baddr (disk_block s) ?ip (unat bn) = w"
    using m n by (auto simp: mapped_def baddr_def w_def)
  have "run (bnd (bread (i_dev ?ip) (i_addrs ?ip ! NDIRECT)) (\<lambda>bp. bnd (buf_data bp) (\<lambda>d.
      if get_word d (unat bn - 12) = 0 then K bp else seq (brelse bp) (ret (get_word d (unat bn - 12)))))) s
      (\<lambda>r s'. kept s H s' \<and> disk_block s' = disk_block s \<and> r = w)" for K
  proof (rule bio.bread_then [OF ok])
    fix b s1
    assume s1: "cache_ok s1 (insert b H)" "b \<notin> H" "buf_key s1 b = (i_dev ?ip, i_addrs ?ip ! NDIRECT)"
      "b_data (bcache s1 b) = disk_block s (i_dev ?ip, i_addrs ?ip ! NDIRECT)"
      "disk_block s1 = disk_block s" "bio.more s1 = bio.more s" "\<And>j. j \<in> H \<Longrightarrow> buf_key s1 j = buf_key s j"
      "\<And>j. j \<in> H \<Longrightarrow> b_data (bcache s1 j) = b_data (bcache s j)"
    have "run (seq (brelse b) (ret w)) s1 (\<lambda>r s'. kept s H s' \<and> disk_block s' = disk_block s \<and> r = w)"
      by (rule bio.brelse_then [OF s1(1,2)]) (use s1 in \<open>auto simp: kept_def\<close>)
    then show "run (bnd (buf_data b) (\<lambda>d. if get_word d (unat bn - 12) = 0 then K b
        else seq (brelse b) (ret (get_word d (unat bn - 12))))) s1 (\<lambda>r s'. kept s H s' \<and> disk_block s' = disk_block s \<and> r = w)"
      unfolding run_bnd_iff [of "buf_data b"] run_buf_data s1(4) w_def [symmetric] using w(1) by simp
  qed (use w(3) in \<open>auto simp: readable_def\<close>)
  then show ?thesis using False lt w(2) unfolding bmap_def run_bnd_iff [of "the_inode i"] run_the_inode
    by (simp add: Let_def d w(4))
qed

text \<open>One pass of the loops of \<open>readi\<close> and \<open>writei\<close>: what is left of the block, or of the request.\<close>

lemma chunk_law:
  fixes off n tot :: u32
  assumes "tot < n" and "unat off + (unat n - unat tot) < 2147483648"
  defines "m \<equiv> min (n - tot) (512 - off mod 512)"
  shows "unat m = min (unat n - unat tot) (512 - unat off mod 512)" "0 < unat m" "unat (off + m) = unat off + unat m"
    "unat (tot + m) = unat tot + unat m" "unat (off mod 512) = unat off mod 512" "unat (off div 512) = unat off div 512"
proof -
  have t: "unat tot < unat n" using assms(1) by (simp add: word_less_nat_alt)
  show o: "unat (off mod 512) = unat off mod 512" "unat (off div 512) = unat off div 512" by (simp_all add: unat_mod unat_div)
  have lt: "unat off mod 512 < 512" by simp
  then have "off mod 512 \<le> 512" by (simp add: word_le_nat_alt o(1))
  then have "unat (512 - off mod 512) = 512 - unat off mod 512" by (simp add: unat_sub o(1))
  moreover have "unat (n - tot) = unat n - unat tot" using assms(1) by (simp add: unat_sub)
  ultimately show m: "unat m = min (unat n - unat tot) (512 - unat off mod 512)"
    by (auto simp: m_def min_def word_le_nat_alt)
  then show "0 < unat m" using t lt by simp
  have n: "unat n < 4294967296" using unsigned_less [of n] by simp
  show "unat (off + m) = unat off + unat m" "unat (tot + m) = unat tot + unat m"
    using m assms(2) t n by (simp_all add: unat_word_ariths)
qed

lemma same_block: "r + k < 512 \<Longrightarrow> (r + k + 512 * q) div 512 = q" "r + k < 512 \<Longrightarrow> (r + k + 512 * q) mod 512 = r + k" for k q r :: nat
  by simp_all

lemma chunk_bytes:
  assumes "m \<le> BSIZE - off mod BSIZE"
  shows "rd (B (i_dev ip, baddr B ip (off div BSIZE))) (off mod BSIZE) m = map (file_byte B ip) [off..<off + m]"
proof (rule nth_equalityI)
  fix k
  assume "k < length (rd (B (i_dev ip, baddr B ip (off div BSIZE))) (off mod BSIZE) m)"
  then have k: "k < m" "off mod 512 + k < 512" using assms by auto
  have e: "off + k = (off mod 512 + k) + 512 * (off div 512)" using div_mult_mod_eq [of off 512] by linarith
  have "(off + k) div 512 = off div 512" "(off + k) mod 512 = off mod 512 + k"
    using same_block [OF k(2), of "off div 512"] by (simp_all only: e [symmetric])
  with k show "rd (B (i_dev ip, baddr B ip (off div BSIZE))) (off mod BSIZE) m ! k = map (file_byte B ip) [off..<off + m] ! k"
    by (simp add: file_byte_def)
qed simp

lemma readi_loop_pass:
  fixes s :: "'a fsys_scheme"
  assumes ok: "cache_ok s H" and t: "tot < n" and lt: "unat off + (unat n - unat tot) < 2147483648"
    and b: "mapped s H (icache s i) (unat off div BSIZE)" and m: "m = min (n - tot) (512 - off mod 512)"
    and K: "\<And>s'. kept s H s' \<Longrightarrow> disk_block s' = disk_block s \<Longrightarrow> run (readi_loop fuel i (off + m) n (tot + m)
      (dst @ map (file_byte (disk_block s) (icache s i)) [unat off..<unat off + unat m])) s' Q"
  shows "run (readi_loop (Suc fuel) i off n tot dst) s Q"
  unfolding readi_loop.simps if_P [OF t]
proof -
  let ?ip = "icache s i"
  note c = chunk_law [OF t lt, folded m]
  show "run (bnd (bmap i (off div 512)) (\<lambda>sector. if sector = 0 then panic ''readi: trying to read a block that was never allocated''
      else bnd (the_inode i) (\<lambda>ip. bnd (bread (i_dev ip) sector) (\<lambda>bp. bnd (buf_data bp) (\<lambda>d.
        let m = min (n - tot) (512 - off mod 512) in seq (brelse bp)
        (readi_loop fuel i (off + m) n (tot + m) (dst @ rd d (unat (off mod 512)) (unat m)))))))) s Q"
  proof (rule run_bnd [OF bmap_mapped [OF ok b [folded c(6)]]])
    fix r s1
    assume r: "kept s H s1 \<and> disk_block s1 = disk_block s \<and> r = baddr (disk_block s) ?ip (unat (off div 512))"
    then have k1: "kept s H s1" and d1: "disk_block s1 = disk_block s" and i1: "icache s1 = icache s" using kept_fkept by auto
    have r: "r = baddr (disk_block s) ?ip (unat off div 512)" "r \<noteq> 0" using r b c(6) by (auto simp: mapped_def)
    have rd1: "cache_ok s1 H" "readable s1 H (i_dev ?ip, r)" using k1 b r readable_kept [OF k1] by (auto simp: kept_def mapped_def)
    have bs: "rd (disk_block s1 (i_dev ?ip, r)) (unat (off mod 512)) (unat m) = map (file_byte (disk_block s) ?ip) [unat off..<unat off + unat m]"
      unfolding d1 r(1) c(5) by (rule chunk_bytes) (simp add: c(1))
    have "run (bnd (bread (i_dev ?ip) r) (\<lambda>bp. bnd (buf_data bp) (\<lambda>d. seq (brelse bp)
        (readi_loop fuel i (off + m) n (tot + m) (dst @ rd d (unat (off mod 512)) (unat m)))))) s1 Q"
      by (rule read_law [OF rd1]) (unfold bs, rule K, auto intro: kept_trans [OF k1] simp: d1)
    then show "run (if r = 0 then panic ''readi: trying to read a block that was never allocated''
        else bnd (the_inode i) (\<lambda>ip. bnd (bread (i_dev ip) r) (\<lambda>bp. bnd (buf_data bp) (\<lambda>d.
          let m = min (n - tot) (512 - off mod 512) in seq (brelse bp)
          (readi_loop fuel i (off + m) n (tot + m) (dst @ rd d (unat (off mod 512)) (unat m))))))) s1 Q"
      using r(2) unfolding Let_def m [symmetric] run_bnd_iff [of "the_inode i"] run_the_inode by (simp add: run_bnd_iff i1)
  qed
qed

lemma readi_loop_law:
  fixes s :: "'a fsys_scheme"
  assumes "cache_ok s H" and "unat tot \<le> unat n" and "unat off + (unat n - unat tot) < 2147483648" and "unat n - unat tot < fuel"
    and "\<And>k. unat off \<le> k \<Longrightarrow> k < unat off + (unat n - unat tot) \<Longrightarrow> mapped s H (icache s i) (k div BSIZE)"
  shows "run (readi_loop fuel i off n tot dst) s (\<lambda>r s'. kept s H s' \<and> disk_block s' = disk_block s \<and>
    r = dst @ map (file_byte (disk_block s) (icache s i)) [unat off..<unat off + (unat n - unat tot)])"
  using assms
proof (induction fuel arbitrary: off tot dst s)
  case (Suc fuel)
  let ?f = "file_byte (disk_block s) (icache s i)"
  show ?case
  proof (cases "tot < n")
    case False
    then have "unat n - unat tot = 0" by (simp add: word_less_nat_alt)
    then show ?thesis using False Suc.prems(1) by (simp add: kept_def)
  next
    case True
    define m where "m = min (n - tot) (512 - off mod 512)"
    note c = chunk_law [OF True Suc.prems(3), folded m_def]
    have tn: "unat tot < unat n" using True by (simp add: word_less_nat_alt)
    have le: "unat m \<le> unat n - unat tot" using c(1) by simp
    have "unat off + unat m + (unat n - (unat tot + unat m)) = unat off + (unat n - unat tot)" using le tn by linarith
    then have upt: "[unat off..<unat off + (unat n - unat tot)] =
        [unat off..<unat off + unat m] @ [unat off + unat m..<unat off + unat m + (unat n - (unat tot + unat m))]"
      using upt_add_eq_append [of "unat off" "unat off + unat m" "unat n - (unat tot + unat m)"] by (simp only: le_add1)
    show ?thesis
    proof (rule readi_loop_pass [OF Suc.prems(1) True Suc.prems(3) _ m_def])
      fix s2
      assume k: "kept s H s2" and d: "disk_block s2 = disk_block s"
      have i: "icache s2 = icache s" using kept_fkept [OF k] by simp
      have "cache_ok s2 H" using k by (simp add: kept_def)
      then have "run (readi_loop fuel i (off + m) n (tot + m) (dst @ map ?f [unat off..<unat off + unat m])) s2
          (\<lambda>r s'. kept s2 H s' \<and> disk_block s' = disk_block s2 \<and> r = (dst @ map ?f [unat off..<unat off + unat m]) @
            map (file_byte (disk_block s2) (icache s2 i)) [unat (off + m)..<unat (off + m) + (unat n - unat (tot + m))])"
        by (rule Suc.IH) (use Suc.prems(3-5) c(2-4) le tn mapped_kept [OF k d] in \<open>simp_all add: i\<close>)
      then show "run (readi_loop fuel i (off + m) n (tot + m) (dst @ map ?f [unat off..<unat off + unat m])) s2
          (\<lambda>r s'. kept s H s' \<and> disk_block s' = disk_block s \<and> r = dst @ map ?f [unat off..<unat off + (unat n - unat tot)])"
        by (rule run_weaken) (use k d in \<open>auto simp: i c(3,4) upt intro: kept_trans\<close>)
    qed (use Suc.prems(5) [of "unat off"] tn in simp)
  qed
qed simp

lemma readi_file:
  fixes s :: "'a fsys_scheme"
  assumes ok: "cache_ok s H" and t: "i_type (icache s i) \<noteq> T_DEV" "i_type (icache s i) \<noteq> T_SMALLFILE"
    and o: "off \<le> i_size (icache s i)" "\<not> off + n < off" and sz: "unat (i_size (icache s i)) \<le> MAXFILE * BSIZE"
    and b: "\<And>k. k < unat (i_size (icache s i)) \<Longrightarrow> mapped s H (icache s i) (k div BSIZE)"
    and m: "m = min (unat n) (unat (i_size (icache s i)) - unat off)"
  shows "run (readi dv i off n) s (\<lambda>r s'. kept s H s' \<and> disk_block s' = disk_block s \<and>
    r = (int m, map (file_byte (disk_block s) (icache s i)) [unat off..<unat off + m]))"
proof -
  let ?size = "i_size (icache s i)"
  define n' where "n' = (if off + n > ?size then ?size - off else n)"
  have le: "unat off \<le> unat ?size" using o(1) by (simp add: word_le_nat_alt)
  have "off \<le> off + n" using o(2) by simp
  then have "unat (off + n) = unat off + unat n" by (simp add: unat_plus_simple [symmetric])
  moreover have "unat (?size - off) = unat ?size - unat off" using o(1) by (simp add: unat_sub)
  ultimately have n': "unat n' = m" using le by (auto simp: n'_def m word_less_nat_alt min_def split: if_splits)
  have s: "sint n' = int m" using n' sz m by (subst sint_small) auto
  have no: "\<not> ?size < off" using o(1) by simp
  have "run (readi_loop (Suc (unat n')) i off n' 0 []) s (\<lambda>r s'. kept s H s' \<and> disk_block s' = disk_block s \<and>
      r = [] @ map (file_byte (disk_block s) (icache s i)) [unat off..<unat off + (unat n' - unat (0 :: u32))])"
    by (rule readi_loop_law) (use ok b n' m le sz in auto)
  then show ?thesis using t no o(2) unfolding readi_def run_bnd_iff [of "the_inode i"] run_the_inode
    by (auto simp: Let_def n'_def [symmetric] n' s run_def simp del: readi_loop.simps)
qed

section \<open>Writing the blocks of a file\<close>

text \<open>The first \<open>N\<close> blocks of a file are different blocks, and neither its indirect block nor the block of its inode is among them.\<close>

definition apart :: "(u32 \<times> u32 \<Rightarrow> bytes) \<Rightarrow> inode \<Rightarrow> nat \<Rightarrow> bool" where
  "apart B ip N \<longleftrightarrow> inj_on (baddr B ip) {..<N} \<and> IBLOCK (i_inum ip) \<notin> baddr B ip ` {..<N} \<and>
     (NDIRECT < N \<longrightarrow> i_addrs ip ! NDIRECT \<notin> baddr B ip ` {..<N} \<and> i_addrs ip ! NDIRECT \<noteq> IBLOCK (i_inum ip))"

text \<open>Writing into block \<open>p\<close> of the file, or into the block of the inode, does not move the blocks.\<close>

lemma baddr_upd:
  assumes "n < N" and "NDIRECT < N \<longrightarrow> i_addrs ip ! NDIRECT \<noteq> x"
  shows "baddr (B((i_dev ip, x) := y)) ip n = baddr B ip n"
  using assms by (auto simp: baddr_def)

text \<open>\<open>len\<close> bytes of the file from \<open>off\<close> on are replaced by those of \<open>src\<close> from \<open>tot\<close> on.\<close>

definition written :: "(u32 \<times> u32 \<Rightarrow> bytes) \<Rightarrow> inode \<Rightarrow> nat \<Rightarrow> nat \<Rightarrow> nat \<Rightarrow> bytes \<Rightarrow> nat \<Rightarrow> (u32 \<times> u32 \<Rightarrow> bytes) \<Rightarrow> bool" where
  "written B ip N off len src tot B' \<longleftrightarrow> (\<forall>n<N. baddr B' ip n = baddr B ip n) \<and>
     (\<forall>k. k div BSIZE < N \<longrightarrow> file_byte B' ip k = (if off \<le> k \<and> k < off + len then src (tot + (k - off)) else file_byte B ip k))"

lemma apart_written: "written B ip N off len src tot B' \<Longrightarrow> apart B' ip N \<longleftrightarrow> apart B ip N"
  unfolding apart_def written_def using image_cong [of "{..<N}" "{..<N}" "baddr B' ip" "baddr B ip"]
    inj_on_cong [of "{..<N}" "baddr B' ip" "baddr B ip"] by simp

lemma chunk_write:
  assumes a: "apart B ip N" and o: "off div BSIZE < N" and m: "m \<le> BSIZE - off mod BSIZE"
  shows "written B ip N off m src tot (B((i_dev ip, baddr B ip (off div BSIZE)) :=
    wr (B (i_dev ip, baddr B ip (off div BSIZE))) (off mod BSIZE) (rd src tot m)))" (is "written B ip N off m src tot ?B'")
  unfolding written_def
proof (intro conjI allI impI)
  show ba: "baddr ?B' ip n = baddr B ip n" if "n < N" for n using that a o by (intro baddr_upd) (auto simp: apart_def)
  fix k
  assume k: "k div BSIZE < N"
  show "file_byte ?B' ip k = (if off \<le> k \<and> k < off + m then src (tot + (k - off)) else file_byte B ip k)"
  proof (cases "k div BSIZE = off div BSIZE")
    case True
    have "off = 512 * (off div 512) + off mod 512" "k = 512 * (off div 512) + k mod 512" using True by (metis mult_div_mod_eq)+
    then have "off \<le> k \<longleftrightarrow> off mod 512 \<le> k mod 512" "k < off + m \<longleftrightarrow> k mod 512 < off mod 512 + m" "k - off = k mod 512 - off mod 512"
      by linarith+
    then show ?thesis unfolding file_byte_def ba [OF k] by (auto simp: True wr_def less_diff_conv2 add.commute)
  next
    case False
    have "baddr B ip (k div 512) \<noteq> baddr B ip (off div 512)" using a o k False by (auto simp: apart_def inj_on_def)
    moreover have "\<not> (off \<le> k \<and> k < off + m)"
    proof
      assume "off \<le> k \<and> k < off + m"
      moreover have "off mod 512 + (k - off) < 512" using calculation m by linarith
      moreover have "(off mod 512 + (k - off) + 512 * (off div 512)) div 512 = off div 512" by (rule same_block) fact
      moreover have "off mod 512 + (k - off) + 512 * (off div 512) = k" using calculation(1) div_mult_mod_eq [of off 512] by linarith
      ultimately show False using False by (simp only:)
    qed
    ultimately show ?thesis unfolding file_byte_def ba [OF k] by auto
  qed
qed

lemma written_refl: "written B ip N off 0 src tot B"
  by (auto simp: written_def)

lemma written_trans:
  assumes "written B ip N off m src tot B'" and "written B' ip N (off + m) l src (tot + m) B''"
  shows "written B ip N off (m + l) src tot B''"
  using assms by (auto simp: written_def)

lemma mapped_written:
  assumes k: "kept s H s'" and w: "written (disk_block s) ip N off len src tot (disk_block s')" and n: "n < N"
  shows "mapped s' H ip n \<longleftrightarrow> mapped s H ip n"
  using w n by (simp add: mapped_def written_def readable_kept [OF k])

lemma writei_loop_pass:
  fixes s :: "'a fsys_scheme"
  assumes ok: "cache_ok s H" and t: "tot < n" and lt: "unat off + (unat n - unat tot) < 2147483648"
    and b: "mapped s H (icache s i) (unat off div BSIZE)" and a: "apart (disk_block s) (icache s i) N" "unat off div BSIZE < N"
    and m: "m = min (n - tot) (512 - off mod 512)"
    and K: "\<And>s'. kept s H s' \<Longrightarrow> written (disk_block s) (icache s i) N (unat off) (unat m) src (unat tot) (disk_block s') \<Longrightarrow>
      run (writei_loop fuel i src (off + m) n (tot + m)) s' Q"
  shows "run (writei_loop (Suc fuel) i src off n tot) s Q"
  unfolding writei_loop.simps if_P [OF t]
proof (rule run_bnd [OF bmap_mapped [OF ok]])
  let ?ip = "icache s i"
  note c = chunk_law [OF t lt, folded m]
  show "mapped s H ?ip (unat (off div 512))" using b by (simp add: c(6))
  fix r s1
  assume r: "kept s H s1 \<and> disk_block s1 = disk_block s \<and> r = baddr (disk_block s) ?ip (unat (off div 512))"
  then have k1: "kept s H s1" and d1: "disk_block s1 = disk_block s" and i1: "icache s1 = icache s" using kept_fkept by auto
  have r: "r = baddr (disk_block s) ?ip (unat off div 512)" "r \<noteq> 0" using r b c(6) by (auto simp: mapped_def)
  have rd1: "cache_ok s1 H" "readable s1 H (i_dev ?ip, r)" using k1 b r readable_kept [OF k1] by (auto simp: kept_def mapped_def)
  have w: "written (disk_block s) ?ip N (unat off) (unat m) src (unat tot) ((disk_block s)((i_dev ?ip, r) :=
      wr (disk_block s (i_dev ?ip, r)) (unat (off mod 512)) (rd src (unat tot) (unat m))))"
    unfolding r(1) c(5) by (rule chunk_write [OF a]) (simp add: c(1))
  have "run (bnd (bread (i_dev ?ip) r) (\<lambda>bp. seq (set_data bp (\<lambda>d. wr d (unat (off mod 512)) (rd src (unat tot) (unat m))))
      (seq (bwrite bp) (seq (brelse bp) (writei_loop fuel i src (off + m) n (tot + m)))))) s1 Q"
    by (rule update_law [OF rd1]) (rule K, use w in \<open>auto intro: kept_trans [OF k1] simp: d1\<close>)
  then show "run (if r = 0 then ret (off, tot) else bnd (the_inode i) (\<lambda>ip. bnd (bread (i_dev ip) r) (\<lambda>bp.
      let m = min (n - tot) (512 - off mod 512) in
      seq (set_data bp (\<lambda>d. wr d (unat (off mod 512)) (rd src (unat tot) (unat m))))
      (seq (bwrite bp) (seq (brelse bp) (writei_loop fuel i src (off + m) n (tot + m))))))) s1 Q"
    using r(2) unfolding Let_def m [symmetric] run_bnd_iff [of "the_inode i"] run_the_inode by (simp add: run_bnd_iff i1)
qed

lemma writei_loop_law:
  fixes s :: "'a fsys_scheme"
  assumes "cache_ok s H" and "unat tot \<le> unat n" and "unat off + (unat n - unat tot) < 2147483648" and "unat n - unat tot < fuel"
    and "\<And>k. unat off \<le> k \<Longrightarrow> k < unat off + (unat n - unat tot) \<Longrightarrow> mapped s H (icache s i) (k div BSIZE) \<and> k div BSIZE < N"
    and "apart (disk_block s) (icache s i) N"
  shows "run (writei_loop fuel i src off n tot) s (\<lambda>r s'. kept s H s' \<and>
    written (disk_block s) (icache s i) N (unat off) (unat n - unat tot) src (unat tot) (disk_block s') \<and> r = (off + (n - tot), n))"
  using assms
proof (induction fuel arbitrary: off tot s)
  case (Suc fuel)
  show ?case
  proof (cases "tot < n")
    case False
    then have "tot = n" using Suc.prems(2) by (simp add: word_less_nat_alt unat_arith_simps)
    then show ?thesis using Suc.prems(1) by (simp add: kept_def written_refl)
  next
    case True
    define m where "m = min (n - tot) (512 - off mod 512)"
    note c = chunk_law [OF True Suc.prems(3), folded m_def]
    have tn: "unat tot < unat n" using True by (simp add: word_less_nat_alt)
    have le: "unat m \<le> unat n - unat tot" using c(1) by simp
    have sum: "unat m + (unat n - (unat tot + unat m)) = unat n - unat tot" using le tn by linarith
    have b: "mapped s H (icache s i) (unat off div BSIZE)" "unat off div BSIZE < N" using Suc.prems(5) [of "unat off"] tn by auto
    show ?thesis
    proof (rule writei_loop_pass [OF Suc.prems(1) True Suc.prems(3) b(1) Suc.prems(6) b(2) m_def])
      fix s2
      assume k: "kept s H s2" and w: "written (disk_block s) (icache s i) N (unat off) (unat m) src (unat tot) (disk_block s2)"
      have i: "icache s2 = icache s" using kept_fkept [OF k] by simp
      have "cache_ok s2 H" using k by (simp add: kept_def)
      then have "run (writei_loop fuel i src (off + m) n (tot + m)) s2 (\<lambda>r s'. kept s2 H s' \<and> written (disk_block s2) (icache s2 i) N
          (unat (off + m)) (unat n - unat (tot + m)) src (unat (tot + m)) (disk_block s') \<and> r = (off + m + (n - (tot + m)), n))"
        by (rule Suc.IH) (use Suc.prems(3-6) c(2-4) le tn mapped_written [OF k w] apart_written [OF w] in \<open>simp_all add: i\<close>)
      then show "run (writei_loop fuel i src (off + m) n (tot + m)) s2 (\<lambda>r s'. kept s H s' \<and> written (disk_block s) (icache s i) N
          (unat off) (unat n - unat tot) src (unat tot) (disk_block s') \<and> r = (off + (n - tot), n))"
        by (rule run_weaken) (use k written_trans [OF w, of "unat n - (unat tot + unat m)", unfolded sum] in \<open>auto simp: i c(3,4) intro: kept_trans\<close>)
    qed
  qed
qed simp

text \<open>The inode after a write that ends at \<open>e\<close>: the size only grows.\<close>

definition grown :: "u32 \<Rightarrow> inode \<Rightarrow> inode" where
  "grown e ip = (if e > i_size ip then ip\<lparr>i_size := e\<rparr> else ip)"

lemma grown_simps [simp]:
  "i_dev (grown e ip) = i_dev ip" "i_inum (grown e ip) = i_inum ip" "i_addrs (grown e ip) = i_addrs ip" "i_type (grown e ip) = i_type ip"
  "baddr B (grown e ip) = baddr B ip" "file_byte B (grown e ip) = file_byte B ip" "apart B (grown e ip) = apart B ip"
proof -
  show *: "baddr B (grown e ip) = baddr B ip" by (auto simp: grown_def baddr_def fun_eq_iff)
  show d: "i_dev (grown e ip) = i_dev ip" "i_inum (grown e ip) = i_inum ip" "i_addrs (grown e ip) = i_addrs ip" "i_type (grown e ip) = i_type ip"
    by (simp_all add: grown_def)
  show "file_byte B (grown e ip) = file_byte B ip" "apart B (grown e ip) = apart B ip" by (simp_all add: file_byte_def apart_def * d fun_eq_iff)
qed

lemma unat_size_grown: "unat (i_size (grown e ip)) = max (unat (i_size ip)) (unat e)"
  by (auto simp: grown_def word_less_nat_alt max_def)

lemma baddr_put_dinode:
  assumes a: "apart B ip N" and n: "n < N"
  shows "baddr (put_dinode B (i_dev ip) (i_inum ip) d) ip n = baddr B ip n" unfolding put_dinode_def
  by (rule baddr_upd [OF n]) (use a in \<open>auto simp: apart_def\<close>)

lemma written_put_dinode:
  assumes a: "apart B ip N" and w: "written B ip N off len src tot B'"
  shows "written B ip N off len src tot (put_dinode B' (i_dev ip) (i_inum ip) d)"
proof -
  have a': "apart B' ip N" using a apart_written [OF w] by simp
  have "file_byte (put_dinode B' (i_dev ip) (i_inum ip) d) ip k = file_byte B' ip k" if k: "k div BSIZE < N" for k
  proof -
    have "baddr B' ip (k div BSIZE) \<in> baddr B' ip ` {..<N}" using k by simp
    then have "baddr B' ip (k div BSIZE) \<noteq> IBLOCK (i_inum ip)" using a' unfolding apart_def by metis
    then show ?thesis unfolding file_byte_def baddr_put_dinode [OF a' k] by (simp add: put_dinode_def)
  qed
  then show ?thesis using w baddr_put_dinode [OF a'] by (simp add: written_def)
qed

lemma grow_law:
  fixes s :: "'a fsys_scheme"
  assumes ok: "cache_ok s H" and r: "readable s H (i_dev (icache s i), IBLOCK (i_inum (icache s i)))"
    and g: "e > i_size (icache s i)"
  shows "run (seq (upd_inode i (\<lambda>ip. ip\<lparr>i_size := e\<rparr>)) (iupdate i)) s
    (\<lambda>_ s'. fkept s H s' \<and> icache s' = (icache s)(i := grown e (icache s i)) \<and>
      disk_block s' = put_dinode (disk_block s) (i_dev (icache s i)) (i_inum (icache s i)) (to_dinode (grown e (icache s i))))"
proof -
  define s1 where "s1 = s\<lparr>icache := (icache s)(i := grown e (icache s i))\<rparr>"
  have s1: "cache_ok s1 H" "readable s1 H (i_dev (icache s1 i), IBLOCK (i_inum (icache s1 i)))" "fkept s H s1"
    using ok r by (simp_all add: s1_def)
  have "run (iupdate i) s1 (\<lambda>_ s'. fkept s H s' \<and> icache s' = (icache s)(i := grown e (icache s i)) \<and>
      disk_block s' = put_dinode (disk_block s) (i_dev (icache s i)) (i_inum (icache s i)) (to_dinode (grown e (icache s i))))"
    using fkept_trans [OF s1(3)] kept_fkept by (intro run_weaken [OF iupdate_law [OF s1(1,2)]]) (auto simp: s1_def)
  then show ?thesis using g by (simp add: run_bnd_iff s1_def grown_def)
qed

lemma writei_file:
  fixes s :: "'a fsys_scheme" and i :: nat
  defines "ip \<equiv> icache s i"
  assumes ok: "cache_ok s H" and t: "i_type ip \<noteq> T_DEV" "i_type ip \<noteq> T_SMALLFILE" and l: "length (i_addrs ip) = 13"
    and r: "readable s H (i_dev ip, IBLOCK (i_inum ip))"
    and o: "off \<le> i_size ip" "unat off + unat n \<le> MAXFILE * BSIZE"
    and a: "apart (disk_block s) ip N"
    and b: "\<And>k. unat off \<le> k \<Longrightarrow> k < unat off + unat n \<Longrightarrow> mapped s H ip (k div BSIZE) \<and> k div BSIZE < N"
  shows "run (writei dv i src off n) s (\<lambda>r s'. r = int (unat n) \<and> fkept s H s' \<and> icache s' = (icache s)(i := grown (off + n) ip) \<and>
    written (disk_block s) ip N (unat off) (unat n) src 0 (disk_block s') \<and>
    (off + n > i_size ip \<longrightarrow> dinode_at (disk_block s') (i_dev ip) (i_inum ip) = to_dinode (grown (off + n) ip)))"
    (is "run _ s ?Q")
proof -
  have on: "unat (off + n) = unat off + unat n" using o(2) by (simp add: unat_word_ariths)
  have no: "\<not> i_size ip < off" "\<not> off + n < off" "\<not> 71680 < off + n" using o on by (simp_all add: word_less_nat_alt word_le_nat_alt)
  have sn: "sint n = int (unat n)" using o(2) by (intro sint_small) linarith
  have "run (writei_loop (Suc (unat n)) i src off n 0) s (\<lambda>r s'. kept s H s' \<and>
      written (disk_block s) ip N (unat off) (unat n - unat (0 :: u32)) src (unat (0 :: u32)) (disk_block s') \<and> r = (off + (n - 0), n))"
    unfolding ip_def by (rule writei_loop_law) (use ok o(2) a b in \<open>auto simp: ip_def\<close>)
  then obtain s1 where s1: "writei_loop (Suc (unat n)) i src off n 0 s = Ret ((off + n, n), s1)" "kept s H s1"
      "written (disk_block s) ip N (unat off) (unat n) src 0 (disk_block s1)" by (auto simp: run_def)
  have i1: "icache s1 = icache s" "fkept s H s1" using kept_fkept [OF s1(2)] by auto
  have n0: "n > 0 \<and> off + n > i_size ip \<longleftrightarrow> off + n > i_size ip" using no(1) by (auto simp: word_neq_0_conv [symmetric])
  have v: "dinode_valid (to_dinode (grown (off + n) ip))" using l by (simp add: dinode_valid_def to_dinode_def)
  have "run (seq (if off + n > i_size ip then seq (upd_inode i (\<lambda>ip. ip\<lparr>i_size := off + n\<rparr>)) (iupdate i) else ret ()) (ret (sint n))) s1 ?Q"
  proof (cases "off + n > i_size ip")
    case True
    have "run (seq (upd_inode i (\<lambda>ip. ip\<lparr>i_size := off + n\<rparr>)) (iupdate i)) s1 (\<lambda>_ s'. fkept s H s' \<and>
        icache s' = (icache s)(i := grown (off + n) ip) \<and>
        disk_block s' = put_dinode (disk_block s1) (i_dev ip) (i_inum ip) (to_dinode (grown (off + n) ip)))"
      using fkept_trans [OF i1(2)] True r readable_kept [OF s1(2)] s1(2)
      by (intro run_weaken [OF grow_law [of s1 H]]) (auto simp: i1(1) ip_def kept_def)
    then show ?thesis using True written_put_dinode [OF a s1(3)] dinode_at_put(1) [OF v] by (auto simp: run_def sn)
  next
    case False
    then show ?thesis using i1 s1(3) by (simp add: sn grown_def ip_def fun_upd_idem)
  qed
  then show ?thesis using t no s1(1) unfolding writei_def run_bnd_iff [of "the_inode i"] run_the_inode
    by (simp add: run_bnd_iff [of "writei_loop _ _ _ _ _ _"] Let_def n0 ip_def [symmetric] run_def)
qed

end
