(* ===== verification/Fs_Props.thy ===== *)
theory Fs_Props
  imports Fs_Inodes
begin

unbundle bit_operations_syntax

text \<open>
  What the disk side of the kernel promises: the buffer cache is an uncached disk, block allocation and release are exact,
  an inode that was written back is loaded again unchanged, and what is written into a file is what is read from it.
  The machine of the witnesses is \<open>ready D I\<close>: booted, buffers initialised, disk \<open>D\<close>, inode cache \<open>I\<close>.
\<close>

section \<open>A machine after boot\<close>

definition zero_buf :: buf where
  "zero_buf = \<lparr>b_busy = False, b_valid = False, b_dirty = False, b_dev = 0, b_sector = 0, b_prev = 0, b_next = 0, b_data = (\<lambda>_. 0)\<rparr>"

definition zero_inode :: inode where
  "zero_inode = \<lparr>i_dev = 0, i_inum = 0, i_ref = 0, i_busy = False, i_valid = False, i_type = 0, i_major = 0, i_minor = 0,
     i_nlink = 0, i_size = 0, i_addrs = replicate 13 0\<rparr>"

definition power_on :: "(u32 \<Rightarrow> u32 \<Rightarrow> bytes) \<Rightarrow> (nat \<Rightarrow> inode) \<Rightarrow> fsys" where
  "power_on D I = \<lparr>bcache = (\<lambda>_. zero_buf), idequeue = [], havedisk1 = True, ide_reg = regs_for 0 0, disk = D,
     bad_sector = (\<lambda>_ _. False), icache = I\<rparr>"

definition ready :: "(u32 \<Rightarrow> u32 \<Rightarrow> bytes) \<Rightarrow> (nat \<Rightarrow> inode) \<Rightarrow> fsys" where
  "ready D I = (case binit (power_on D I) of Ret (_, s) \<Rightarrow> s | _ \<Rightarrow> power_on D I)"

lemma power_on_booted: "booted (power_on D I)"
  by (simp add: booted_def power_on_def zero_buf_def)

lemma ready_facts [simp]: "cache_ok (ready D I) {}" "disk_block (ready D I) = (\<lambda>k. D (fst k) (snd k))" "icache (ready D I) = I"
proof -
  obtain s where s: "binit (power_on D I) = Ret ((), s)" "cache_ok s {}" "disk s = D" "bio.more s = bio.more (power_on D I)"
    using binit_cache [OF power_on_booted, of D I] by (auto simp: run_def power_on_def)
  then have r: "ready D I = s" by (simp add: ready_def)
  show "cache_ok (ready D I) {}" "disk_block (ready D I) = (\<lambda>k. D (fst k) (snd k))" using s by (simp_all add: r disk_block_def fun_eq_iff)
  show "icache (ready D I) = I" using more_fsys [OF s(4)] by (simp add: r power_on_def)
qed

lemma readable_free [simp]: "readable s {} k \<longleftrightarrow> addressable k"
  by (simp add: readable_def)

section \<open>The cache is a disk\<close>

text \<open>A client of the cache: it reads a block, or changes one and writes it back. Below, the same on a plain array of blocks.\<close>

datatype disk_op = Read_block u32 u32 | Change_block u32 u32 "bytes \<Rightarrow> bytes"

fun op_key :: "disk_op \<Rightarrow> u32 \<times> u32" where
  "op_key (Read_block d n) = (d, n)"
| "op_key (Change_block d n f) = (d, n)"

fun cached_op :: "disk_op \<Rightarrow> ('a bio_scheme, bytes list) km" where
  "cached_op (Read_block d n) = bnd (bread d n) (\<lambda>b. bnd (buf_data b) (\<lambda>x. seq (brelse b) (ret [x])))"
| "cached_op (Change_block d n f) = bnd (bread d n) (\<lambda>b. seq (set_data b f) (seq (bwrite b) (seq (brelse b) (ret []))))"

fun cached_ops :: "disk_op list \<Rightarrow> ('a bio_scheme, bytes list) km" where
  "cached_ops [] = ret []"
| "cached_ops (x # xs) = bnd (cached_op x) (\<lambda>r. bnd (cached_ops xs) (\<lambda>rs. ret (r @ rs)))"

fun plain_ops :: "disk_op list \<Rightarrow> (u32 \<times> u32 \<Rightarrow> bytes) \<Rightarrow> bytes list \<times> (u32 \<times> u32 \<Rightarrow> bytes)" where
  "plain_ops [] B = ([], B)"
| "plain_ops (Read_block d n # xs) B = (let (rs, B') = plain_ops xs B in (B (d, n) # rs, B'))"
| "plain_ops (Change_block d n f # xs) B = plain_ops xs (B((d, n) := f (B (d, n))))"

lemma cached_ops_law:
  assumes "cache_ok s H" and "\<forall>x\<in>set xs. readable s H (op_key x)"
  shows "run (cached_ops xs) s (\<lambda>rs s'. kept s H s' \<and> (rs, disk_block s') = plain_ops xs (disk_block s))"
  using assms
proof (induction xs arbitrary: s)
  case (Cons x xs)
  have step: "run (bnd (cached_ops xs) (\<lambda>rs. ret (r @ rs))) s' (\<lambda>rs s''. kept s H s'' \<and>
      rs = r @ fst (plain_ops xs (disk_block s')) \<and> disk_block s'' = snd (plain_ops xs (disk_block s')))" if k: "kept s H s'" for r s'
  proof (rule run_bnd [OF Cons.IH [of s']])
    show "cache_ok s' H" "\<forall>x\<in>set xs. readable s' H (op_key x)" using k Cons.prems(2) readable_kept [OF k] by (auto simp: kept_def)
    fix rs s''
    assume "kept s' H s'' \<and> (rs, disk_block s'') = plain_ops xs (disk_block s')"
    then show "run (ret (r @ rs)) s'' (\<lambda>rs s''. kept s H s'' \<and>
        rs = r @ fst (plain_ops xs (disk_block s')) \<and> disk_block s'' = snd (plain_ops xs (disk_block s')))"
      by (auto simp: eq_fst_iff [symmetric] prod_eq_iff intro: kept_trans [OF k])
  qed
  show ?case
  proof (cases x)
    case (Read_block d n)
    have r: "readable s H (d, n)" using Cons.prems(2) Read_block by simp
    show ?thesis unfolding Read_block cached_ops.simps cached_op.simps bnd_assoc bnd_ret
      by (rule read_law [OF Cons.prems(1) r], rule run_weaken [OF step]) (auto simp: Let_def split: prod.splits)
  next
    case (Change_block d n f)
    have r: "readable s H (d, n)" using Cons.prems(2) Change_block by simp
    show ?thesis unfolding Change_block cached_ops.simps cached_op.simps bnd_assoc bnd_ret
      by (rule update_law [OF Cons.prems(1) r], rule run_weaken [OF step]) (auto simp: prod_eq_iff)
  qed
qed (simp add: kept_def)

text \<open>C0. The buffer cache is transparent: after \<open>binit\<close>, any sequence of block reads and block updates through \<open>bread\<close>,
  \<open>bwrite\<close> and \<open>brelse\<close> returns, gives exactly the bytes an array of blocks without a cache would give, leaves the same
  bytes on the disk, and keeps the cache well formed with no buffer held. Ten buffers serve any number of blocks.\<close>

theorem cache_refines_disk:
  assumes "booted s" and "\<forall>x\<in>set xs. addressable (op_key x)"
  shows "run (seq binit (cached_ops xs)) s (\<lambda>rs s'. cache_ok s' {} \<and> (rs, disk_block s') = plain_ops xs (disk_block s))"
proof (rule run_bnd [OF binit_cache [OF assms(1)]])
  fix s1
  assume s1: "cache_ok s1 {} \<and> disk s1 = disk s \<and> bio.more s1 = bio.more s"
  then have "disk_block s1 = disk_block s" by (simp add: disk_block_def fun_eq_iff)
  then show "run (cached_ops xs) s1 (\<lambda>rs s'. cache_ok s' {} \<and> (rs, disk_block s') = plain_ops xs (disk_block s))"
    by (intro run_weaken [OF cached_ops_law [of s1 "{}"]]) (use s1 assms(2) in \<open>auto simp: kept_def\<close>)
qed

theorem cache_refines_disk_witness:
  "run (seq binit (cached_ops [Change_block 1 7 (\<lambda>_ _. 5), Read_block 0 7, Read_block 1 7])) (power_on (\<lambda>_ _ _. 0) (\<lambda>_. zero_inode))
     (\<lambda>rs s'. rs = [\<lambda>_. 0, \<lambda>_. 5])"
  by (rule run_weaken [OF cache_refines_disk [OF power_on_booted]]) (auto simp: addressable_def disk_block_def power_on_def)

section \<open>Blocks\<close>

text \<open>The caller holds neither the super block nor a block of the bitmap, and leaves a buffer free.\<close>

definition bitmap_readable :: "'a bio_scheme \<Rightarrow> nat set \<Rightarrow> u32 \<Rightarrow> bool" where
  "bitmap_readable s H dev \<longleftrightarrow> readable s H (dev, 1) \<and>
     (\<forall>c < sb_size (sb_at (disk_block s) dev). readable s H (dev, BBLOCK c (sb_ninodes (sb_at (disk_block s) dev))))"

lemma bitmap_readable_free:
  "geometry_ok dev (sb_at (disk_block s) dev) \<Longrightarrow> bitmap_readable s {} dev"
  using BBLOCK_addressable by (auto simp: bitmap_readable_def geometry_ok_def addressable_def)

text \<open>C0. \<open>balloc\<close> always returns. If some block of the file system is free in the bitmap it returns the lowest one and
  marks exactly that block used; if none is free it returns 0 and changes nothing. No other block of the disk changes.\<close>

theorem balloc_first_free:
  fixes s :: "'a bio_scheme" and dev :: u32
  defines "sb \<equiv> sb_at (disk_block s) dev"
  assumes "cache_ok s H" and "geometry_ok dev sb" and "bitmap_readable s H dev"
  shows "run (balloc dev) s (\<lambda>r s'. cache_ok s' H \<and>
    (if \<exists>c < sb_size sb. free_in (disk_block s) dev (sb_ninodes sb) c
     then r < sb_size sb \<and> free_in (disk_block s) dev (sb_ninodes sb) r \<and>
       (\<forall>c<r. \<not> free_in (disk_block s) dev (sb_ninodes sb) c) \<and>
       (\<forall>c. free_in (disk_block s') dev (sb_ninodes sb) c \<longleftrightarrow> free_in (disk_block s) dev (sb_ninodes sb) c \<and> c \<noteq> r) \<and>
       (\<forall>k. k \<noteq> (dev, BBLOCK r (sb_ninodes sb)) \<longrightarrow> disk_block s' k = disk_block s k)
     else r = 0 \<and> disk_block s' = disk_block s))"
proof (rule run_weaken [OF balloc_law [of s H dev]])
  fix r s'
  assume a: "kept s H s' \<and> balloc_post (disk_block s) dev (sb_at (disk_block s) dev) r (disk_block s')"
  then have k: "cache_ok s' H" by (simp add: kept_def)
  from a have "balloc_post (disk_block s) dev sb r (disk_block s')" by (simp add: sb_def)
  then consider (used) "r < sb_size sb" "free_in (disk_block s) dev (sb_ninodes sb) r" "\<forall>m<r. \<not> free_in (disk_block s) dev (sb_ninodes sb) m"
      "disk_block s' = (disk_block s)((dev, BBLOCK r (sb_ninodes sb)) := mark_used (unat r mod 4096) (disk_block s (dev, BBLOCK r (sb_ninodes sb))))"
    | (full) "\<forall>m < sb_size sb. \<not> free_in (disk_block s) dev (sb_ninodes sb) m" "r = 0" "disk_block s' = disk_block s"
    unfolding balloc_post_def by blast
  then show "cache_ok s' H \<and>
    (if \<exists>c < sb_size sb. free_in (disk_block s) dev (sb_ninodes sb) c
     then r < sb_size sb \<and> free_in (disk_block s) dev (sb_ninodes sb) r \<and>
       (\<forall>c<r. \<not> free_in (disk_block s) dev (sb_ninodes sb) c) \<and>
       (\<forall>c. free_in (disk_block s') dev (sb_ninodes sb) c \<longleftrightarrow> free_in (disk_block s) dev (sb_ninodes sb) c \<and> c \<noteq> r) \<and>
       (\<forall>k. k \<noteq> (dev, BBLOCK r (sb_ninodes sb)) \<longrightarrow> disk_block s' k = disk_block s k)
     else r = 0 \<and> disk_block s' = disk_block s)"
  proof cases
    case used
    then show ?thesis using k unfolding used(4) free_in_mark_used by auto
  qed (use k in auto)
qed (use assms in \<open>auto simp: bitmap_readable_def\<close>)

text \<open>A disk of ten blocks whose first five are in use.\<close>

definition small_disk :: "u32 \<Rightarrow> u32 \<Rightarrow> bytes" where
  "small_disk d n = (if n = 1 then wr (\<lambda>_. 0) 0 (enc_superblock \<lparr>sb_size = 10, sb_nblocks = 5, sb_ninodes = 8\<rparr>)
     else if n = 4 then (\<lambda>_. 0)(0 := 0x1f) else (\<lambda>_. 0))"

lemma small_disk_facts:
  "sb_at (\<lambda>k. small_disk (fst k) (snd k)) d = \<lparr>sb_size = 10, sb_nblocks = 5, sb_ninodes = 8\<rparr>"
  "c < 10 \<Longrightarrow> free_in (\<lambda>k. small_disk (fst k) (snd k)) d 8 c \<longleftrightarrow> 5 \<le> c"
proof -
  show "sb_at (\<lambda>k. small_disk (fst k) (snd k)) d = \<lparr>sb_size = 10, sb_nblocks = 5, sb_ninodes = 8\<rparr>"
    by (simp add: sb_at_def small_disk_def superblock.get_put_same)
  assume c: "c < 10"
  then have u: "unat c < 10" by (simp add: word_less_nat_alt)
  then have "c div 4096 = 0" by (simp add: word_arith_nat_div)
  then have "BBLOCK c 8 = 4" by (simp add: BBLOCK_def)
  moreover have "bit (0x1f :: u8) n \<longleftrightarrow> n < 5" if "n < 8" for n
  proof -
    have "(0x1f :: u8) = mask 5" by (simp add: mask_eq_exp_minus_1)
    then show ?thesis using that by (simp only: bit_mask_iff) simp
  qed
  ultimately show "free_in (\<lambda>k. small_disk (fst k) (snd k)) d 8 c \<longleftrightarrow> 5 \<le> c"
    using u by (cases "unat c < 8") (auto simp: free_in_def bit_clear_iff small_disk_def word_le_nat_alt div_eq_0_iff)
qed

theorem balloc_first_free_witness:
  "run (balloc 1) (ready small_disk (\<lambda>_. zero_inode)) (\<lambda>r s'. r = 5 \<and> cache_ok s' {} \<and> \<not> free_in (disk_block s') 1 8 5)"
proof -
  let ?s = "ready small_disk (\<lambda>_. zero_inode)"
  have g: "geometry_ok 1 (sb_at (disk_block ?s) 1)" by (simp add: small_disk_facts geometry_ok_def)
  have five: "free_in (\<lambda>k. small_disk (fst k) (snd k)) 1 8 5" using small_disk_facts(2) [of 5] by simp
  then have ex: "\<exists>c < 10. free_in (\<lambda>k. small_disk (fst k) (snd k)) 1 8 c" by (intro exI [of _ 5]) simp
  have least: "r = 5" if "r < 10" "free_in (\<lambda>k. small_disk (fst k) (snd k)) 1 8 r" "\<forall>c<r. \<not> free_in (\<lambda>k. small_disk (fst k) (snd k)) 1 8 c" for r
  proof -
    have "5 \<le> r" using that small_disk_facts(2) [OF that(1)] by blast
    moreover have "\<not> 5 < r" using that(3) five by blast
    ultimately show ?thesis by order
  qed
  show ?thesis
  proof (rule run_weaken [OF balloc_first_free [OF ready_facts(1) g bitmap_readable_free [OF g]]], goal_cases)
    case (1 r s')
    then show ?case using ex least [of r] by (simp add: small_disk_facts(1))
  qed
qed

text \<open>C0. \<open>bfree\<close> of a data block: a block that the bitmap has as free makes the kernel panic with ``freeing free block'';
  otherwise the call returns, exactly that block becomes free in the bitmap, its contents are zero, and every other block
  of the disk except the bitmap block keeps its bytes.\<close>

theorem bfree_exact:
  fixes s :: "'a bio_scheme" and dev :: u32
  defines "nin \<equiv> sb_ninodes (sb_at (disk_block s) dev)"
  assumes ok: "cache_ok s H" and r: "readable s H (dev, b)" "readable s H (dev, 1)" "readable s H (dev, BBLOCK b nin)"
    and d: "b \<noteq> 1" "BBLOCK b nin \<noteq> b"
  shows "if free_in (disk_block s) dev nin b then bfree dev b s = Halt ''freeing free block''
    else run (bfree dev b) s (\<lambda>_ s'. cache_ok s' H \<and>
      (\<forall>c. BBLOCK c nin \<noteq> b \<longrightarrow> (free_in (disk_block s') dev nin c \<longleftrightarrow> free_in (disk_block s) dev nin c \<or> c = b)) \<and>
      rd (disk_block s' (dev, b)) 0 BSIZE = replicate BSIZE 0 \<and>
      (\<forall>k. k \<noteq> (dev, b) \<and> k \<noteq> (dev, BBLOCK b nin) \<longrightarrow> disk_block s' k = disk_block s k))"
proof -
  define z where "z = (disk_block s)((dev, b) := memset (disk_block s (dev, b)) 0 0 BSIZE)"
  have sb: "sb_at z dev = sb_at (disk_block s) dev" using d(1) by (simp add: sb_at_def z_def)
  have f: "free_in z dev nin c = free_in (disk_block s) dev nin c" if "BBLOCK c nin \<noteq> b" for c using that by (simp add: free_in_def z_def)
  have zero: "rd (z (dev, b)) 0 BSIZE = replicate BSIZE 0" by (simp add: z_def memset_def rd_wr_same)
  show ?thesis
    using bfree_law [OF ok r(1,2) z_def] r(3) f [OF d(2)] f free_in_mark_free [of z dev b nin] d(2) zero
    unfolding sb nin_def [symmetric] by (auto simp: kept_def z_def elim!: run_weaken)
qed

theorem bfree_exact_witness:
  "bfree 1 7 (ready small_disk (\<lambda>_. zero_inode)) = Halt ''freeing free block'' \<and>
   run (bfree 1 3) (ready small_disk (\<lambda>_. zero_inode)) (\<lambda>_ s'. free_in (disk_block s') 1 8 3)"
proof -
  let ?s = "ready small_disk (\<lambda>_. zero_inode)"
  have b: "BBLOCK 7 8 = 4" "BBLOCK 3 8 = 4" by (simp_all add: BBLOCK_def)
  have r: "readable ?s {} (1, n)" if "n < 10" for n using that by (simp add: addressable_def) (simp add: word_less_nat_alt)
  have "bfree 1 7 ?s = Halt ''freeing free block''"
    using bfree_exact [of ?s "{}" 1 7] r small_disk_facts(2) [of 7] by (simp add: small_disk_facts(1) b)
  moreover have "run (bfree 1 3) ?s (\<lambda>_ s'. free_in (disk_block s') 1 8 3)"
    using bfree_exact [of ?s "{}" 1 3] r small_disk_facts(2) [of 3] by (auto simp: small_disk_facts(1) b elim: run_weaken)
  ultimately show ?thesis by simp
qed

section \<open>Inodes\<close>

text \<open>C0. What \<open>iupdate\<close> writes \<open>ilock\<close> reads back: after \<open>iupdate\<close>, however the cached copy is lost or overwritten,
  locking the inode again restores exactly the fields it had, and no other inode on the disk is touched.\<close>

theorem inode_roundtrip:
  fixes s :: "'a fsys_scheme" and i :: nat
  defines "ip \<equiv> icache s i"
  assumes ok: "cache_ok s H" and r: "readable s H (i_dev ip, IBLOCK (i_inum ip))" and l: "length (i_addrs ip) = 13"
    and t: "i_type ip \<noteq> 0"
    and lost: "i_dev lost = i_dev ip" "i_inum lost = i_inum ip" "1 \<le> i_ref lost" "\<not> i_busy lost" "\<not> i_valid lost"
  shows "run (seq (iupdate i) (seq (upd_inode i (\<lambda>_. lost)) (ilock i))) s (\<lambda>_ s'. cache_ok s' H \<and>
    to_dinode (icache s' i) = to_dinode ip \<and> i_busy (icache s' i) \<and> i_valid (icache s' i) \<and> i_ref (icache s' i) = i_ref lost \<and>
    (\<forall>j. j \<noteq> i \<longrightarrow> icache s' j = icache s j) \<and>
    (\<forall>n. n \<noteq> i_inum ip \<longrightarrow> dinode_at (disk_block s') (i_dev ip) n = dinode_at (disk_block s) (i_dev ip) n))"
proof (rule run_bnd [OF iupdate_law [OF ok, of i]])
  show "readable s H (i_dev (icache s i), IBLOCK (i_inum (icache s i)))" using r by (simp add: ip_def)
  fix s1
  assume a: "kept s H s1 \<and> icache s1 = icache s \<and>
    disk_block s1 = put_dinode (disk_block s) (i_dev (icache s i)) (i_inum (icache s i)) (to_dinode (icache s i))"
  define s2 where "s2 = s1\<lparr>icache := (icache s)(i := lost)\<rparr>"
  have v: "dinode_valid (to_dinode ip)" using l by (simp add: dinode_valid_def to_dinode_def)
  have k: "cache_ok s2 H" "disk_block s2 = put_dinode (disk_block s) (i_dev ip) (i_inum ip) (to_dinode ip)" "icache s2 = (icache s)(i := lost)"
    using a by (simp_all add: s2_def kept_def ip_def)
  have at: "dinode_at (disk_block s2) (i_dev ip) (i_inum ip) = to_dinode ip" unfolding k(2) by (rule dinode_at_put(1) [OF v])
  have rd: "readable s2 H (i_dev ip, IBLOCK (i_inum ip))" using r a by (simp add: s2_def readable_kept [of s H s1])
  have tt: "di_type (to_dinode ip) \<noteq> 0" using t by (simp add: to_dinode_def)
  have "run (ilock i) s2 (\<lambda>_ s'. fkept s2 H s' \<and> disk_block s' = disk_block s2 \<and> icache s' = (icache s2)(i := loaded (to_dinode ip) lost))"
    using ilock_load [OF k(1), of i] lost rd at tt by (simp add: k(3))
  then have "run (ilock i) s2 (\<lambda>_ s'. cache_ok s' H \<and>
    to_dinode (icache s' i) = to_dinode ip \<and> i_busy (icache s' i) \<and> i_valid (icache s' i) \<and> i_ref (icache s' i) = i_ref lost \<and>
    (\<forall>j. j \<noteq> i \<longrightarrow> icache s' j = icache s j) \<and>
    (\<forall>n. n \<noteq> i_inum ip \<longrightarrow> dinode_at (disk_block s') (i_dev ip) n = dinode_at (disk_block s) (i_dev ip) n))"
    by (rule run_weaken) (auto simp: fkept_def k loaded_def to_dinode_def dinode_at_put(2) [OF v [unfolded to_dinode_def]])
  then show "run (seq (upd_inode i (\<lambda>_. lost)) (ilock i)) s1 (\<lambda>_ s'. cache_ok s' H \<and>
    to_dinode (icache s' i) = to_dinode ip \<and> i_busy (icache s' i) \<and> i_valid (icache s' i) \<and> i_ref (icache s' i) = i_ref lost \<and>
    (\<forall>j. j \<noteq> i \<longrightarrow> icache s' j = icache s j) \<and>
    (\<forall>n. n \<noteq> i_inum ip \<longrightarrow> dinode_at (disk_block s') (i_dev ip) n = dinode_at (disk_block s) (i_dev ip) n))"
    using a by (simp add: run_bnd_iff s2_def)
qed

definition a_file :: "u16 \<Rightarrow> inode" where
  "a_file t = zero_inode\<lparr>i_dev := 1, i_inum := 9, i_ref := 1, i_busy := True, i_valid := True, i_type := t, i_nlink := 1\<rparr>"

lemma a_file_block: "addressable (i_dev (a_file t), IBLOCK (i_inum (a_file t)))" "length (i_addrs (a_file t)) = 13"
  by (simp_all add: a_file_def zero_inode_def addressable_def IBLOCK_def)

theorem inode_roundtrip_witness:
  "run (seq (iupdate 4) (seq (upd_inode 4 (\<lambda>_. zero_inode\<lparr>i_dev := 1, i_inum := 9, i_ref := 2\<rparr>)) (ilock 4))) (ready small_disk (\<lambda>_. a_file 2))
     (\<lambda>_ s'. to_dinode (icache s' 4) = to_dinode (a_file 2) \<and> icache s' 5 = a_file 2)"
  by (rule run_weaken [OF inode_roundtrip [OF ready_facts(1)]]) (use a_file_block [of 2] in \<open>auto simp: a_file_def zero_inode_def\<close>)

section \<open>Contents of files\<close>

text \<open>Writing and then reading the same inode.\<close>

definition write_then_read :: "('a fsys_scheme) devtab \<Rightarrow> nat \<Rightarrow> bytes \<Rightarrow> u32 \<Rightarrow> u32 \<Rightarrow> u32 \<Rightarrow> u32 \<Rightarrow> ('a fsys_scheme, int \<times> int \<times> u8 list) km" where
  "write_then_read dv i src off n off' n' =
     bnd (writei dv i src off n) (\<lambda>w. bnd (readi dv i off' n') (\<lambda>(r, bs). ret (w, r, bs)))"

text \<open>C0. Small files: \<open>writei\<close> at an offset inside the file stores as many bytes as fit into the 52 bytes of the inode and
  returns their number; reading the file from the start then gives the bytes that were in front of the offset followed by
  the bytes written, and the file ends there. The inode on the disk is the one in memory, so the bytes are durable.\<close>

theorem small_file_roundtrip:
  fixes s :: "'a fsys_scheme" and i :: nat
  defines "ip \<equiv> icache s i"
  assumes ok: "cache_ok s H" and t: "i_type ip = T_SMALLFILE" and r: "readable s H (i_dev ip, IBLOCK (i_inum ip))"
    and l: "length (i_addrs ip) = 13" and o: "off \<le> i_size ip" "i_size ip \<le> 52" "\<not> off + n < off" and m: "m = min (unat n) (52 - unat off)"
  shows "run (write_then_read dv i src off n 0 52) s (\<lambda>(w, r, bs) s'. w = int m \<and> r = int (unat off + m) \<and>
    bs = map (small_get (i_addrs ip)) [0..<unat off] @ rd src 0 m \<and>
    dinode_at (disk_block s') (i_dev ip) (i_inum ip) = to_dinode (icache s' i) \<and> cache_ok s' H)"
  unfolding write_then_read_def
proof (rule run_bnd [OF writei_small [OF ok, of i off n dv src]])
  have off: "off \<le> 52" using o by order
  note len = small_len_law [OF off o(3)]
  show "i_type (icache s i) = T_SMALLFILE" "readable s H (i_dev (icache s i), IBLOCK (i_inum (icache s i)))" "off \<le> 52" "\<not> off + n < off"
    using t r off o(3) by (simp_all add: ip_def)
  let ?ip = "small_written src off (small_len off n) ip"
  fix w s1
  assume "w = int (unat (small_len off n)) \<and> fkept s H s1 \<and> icache s1 = (icache s)(i := small_written src off (small_len off n) (icache s i)) \<and>
    disk_block s1 = put_dinode (disk_block s) (i_dev (icache s i)) (i_inum (icache s i)) (to_dinode (small_written src off (small_len off n) (icache s i)))"
  then have a: "w = int m" "cache_ok s1 H" "icache s1 i = ?ip" "disk_block s1 = put_dinode (disk_block s) (i_dev ip) (i_inum ip) (to_dinode ?ip)"
    using len(3) m by (simp_all add: fkept_def ip_def)
  have lm: "unat (small_len off n) = m" "unat (i_size ?ip) = unat off + m" "unat off + m \<le> 52" using len m by (simp_all add: small_written_def)
  then have le: "i_size (icache s1 i) \<le> 52" unfolding a(3) by (simp add: word_le_nat_alt)
  have "readi dv i 0 52 s1 = Ret ((int (unat off + m), map (small_get (i_addrs ?ip)) [0..<unat off + m]), s1)"
    using readi_small [of s1 i 0 52 "unat off + m" dv] t le lm(2,3) by (simp add: a(3) small_written_def)
  moreover have "map (small_get (i_addrs ?ip)) [0..<unat off + m] = map (small_get (i_addrs ip)) [0..<unat off] @ rd src 0 m"
    using small_puts_bytes [OF l lm(3), of src] by (simp add: small_written_def lm(1))
  moreover have "dinode_valid (to_dinode ?ip)" using small_puts_law [OF l lm(3), of src] by (simp add: dinode_valid_def to_dinode_def small_written_def lm(1))
  then have "dinode_at (disk_block s1) (i_dev ip) (i_inum ip) = to_dinode (icache s1 i)" unfolding a(3,4) by (rule dinode_at_put(1))
  ultimately show "run (bnd (readi dv i 0 52) (\<lambda>(r, bs). ret (w, r, bs))) s1 (\<lambda>(w, r, bs) s'. w = int m \<and> r = int (unat off + m) \<and>
    bs = map (small_get (i_addrs ip)) [0..<unat off] @ rd src 0 m \<and>
    dinode_at (disk_block s') (i_dev ip) (i_inum ip) = to_dinode (icache s' i) \<and> cache_ok s' H)"
    using a(1,2) by (simp add: run_def)
qed

theorem small_file_roundtrip_witness:
  "run (write_then_read (\<lambda>_. \<lparr>dev_read = None, dev_write = None\<rparr>) 4 (wr (\<lambda>_. 0) 0 [104, 105]) 0 2 0 52) (ready small_disk (\<lambda>_. a_file T_SMALLFILE))
     (\<lambda>(w, r, bs) s'. w = 2 \<and> r = 2 \<and> bs = [104, 105])"
proof -
  have "rd (wr (\<lambda>_. 0) 0 [104, 105]) 0 2 = [104, 105 :: u8]" by (simp add: rd_wr_same)
  then show ?thesis
    by (intro run_weaken [OF small_file_roundtrip [OF ready_facts(1), where m = 2]])
       (use a_file_block [of T_SMALLFILE] in \<open>auto simp: a_file_def zero_inode_def\<close>)
qed

text \<open>C0. Reading a small file behind its end: for every offset between the size and 52 \<open>readi\<close> reads nothing but returns
  the negative number size \<open>-\<close> offset instead of 0 or an error of \<open>-1\<close>.\<close>

theorem readi_small_past_end:
  fixes s :: "'a fsys_scheme" and i :: nat
  defines "ip \<equiv> icache s i"
  assumes t: "i_type ip = T_SMALLFILE" and o: "i_size ip < off" "off \<le> 52" "\<not> off + n < off"
  shows "readi dv i off n s = Ret ((int (unat (i_size ip)) - int (unat off), []), s)"
proof -
  note l = small_len_law [OF o(2,3)]
  have u: "unat (i_size ip) < unat off" "unat off \<le> 52" using o by (simp_all add: word_less_nat_alt word_le_nat_alt)
  have gt: "i_size ip < off + small_len off n" using l(1) u by (simp add: word_less_nat_alt)
  have "sint (i_size ip - off) = signed_take_bit 31 (int (unat (i_size ip)) - int (unat off))"
    using signed_of_int [where 'b = 32 and 'a = int, of "int (unat (i_size ip)) - int (unat off)"] by simp
  also have "\<dots> = int (unat (i_size ip)) - int (unat off)" 
  proof (rule signed_take_bit_int_eq_self)
    have "- 2147483648 \<le> int (unat (i_size ip)) - int (unat off)" "int (unat (i_size ip)) - int (unat off) < 2147483648" using u by linarith+
    then show "- (2 ^ 31) \<le> int (unat (i_size ip)) - int (unat off)" "int (unat (i_size ip)) - int (unat off) < 2 ^ 31" by simp_all
  qed
  finally have "sint (i_size ip - off) = int (unat (i_size ip)) - int (unat off)" .
  moreover have "\<not> 52 < off" using o(2) by simp
  ultimately show ?thesis using t o(3) gt u(1)
    by (simp add: readi_def the_inode_def Let_def small_len_def [symmetric] ip_def [symmetric])
qed

theorem readi_small_past_end_witness:
  "readi (\<lambda>_. \<lparr>dev_read = None, dev_write = None\<rparr>) 4 10 5 (ready small_disk (\<lambda>_. a_file T_SMALLFILE)) = Ret ((-10, []), ready small_disk (\<lambda>_. a_file T_SMALLFILE))"
  using readi_small_past_end [of "ready small_disk (\<lambda>_. a_file T_SMALLFILE)" 4 10 5] by (simp add: a_file_def zero_inode_def)

text \<open>The file has its blocks up to byte \<open>len\<close>, all different, none of them the indirect block or the block of the inode.\<close>

definition has_blocks :: "'a fsys_scheme \<Rightarrow> nat set \<Rightarrow> inode \<Rightarrow> nat \<Rightarrow> bool" where
  "has_blocks s H ip len \<longleftrightarrow> (\<exists>N. apart (disk_block s) ip N \<and> (\<forall>k<len. mapped s H ip (k div BSIZE) \<and> k div BSIZE < N))"

lemma mapped_after_write:
  assumes "fkept s H s'" and "written (disk_block s) ip N off len src tot (disk_block s')" and "n < N"
  shows "mapped s' H (grown e ip) n \<longleftrightarrow> mapped s H ip n"
  using assms by (simp add: mapped_def written_def readable_fkept)

text \<open>C0. Regular files: writing \<open>n\<close> bytes at an offset inside a file whose blocks are there returns \<open>n\<close>; the file's size becomes
  the larger of the old size and the end of the write; reading any part of the file afterwards gives the written
  bytes where the write was and the old bytes elsewhere, whatever blocks, direct or indirect, they are in. A size that
  grew is on the disk.\<close>

theorem file_write_read:
  fixes s :: "'a fsys_scheme" and i :: nat
  defines "ip \<equiv> icache s i"
  assumes ok: "cache_ok s H" and t: "i_type ip \<noteq> T_DEV" "i_type ip \<noteq> T_SMALLFILE" and l: "length (i_addrs ip) = 13"
    and r: "readable s H (i_dev ip, IBLOCK (i_inum ip))"
    and o: "off \<le> i_size ip" "unat off + unat n \<le> MAXFILE * BSIZE" "unat (i_size ip) \<le> MAXFILE * BSIZE"
    and e: "e = max (unat (i_size ip)) (unat off + unat n)" and b: "has_blocks s H ip e"
    and o': "unat off' \<le> e" "unat n' \<le> e - unat off'"
  shows "run (write_then_read dv i src off n off' n') s (\<lambda>(w, r, bs) s'. w = int (unat n) \<and> r = int (unat n') \<and>
    bs = map (\<lambda>k. if unat off \<le> k \<and> k < unat off + unat n then src (k - unat off) else file_byte (disk_block s) ip k) [unat off'..<unat off' + unat n'] \<and>
    unat (i_size (icache s' i)) = e \<and>
    (unat (i_size ip) < e \<longrightarrow> dinode_at (disk_block s') (i_dev ip) (i_inum ip) = to_dinode (icache s' i)) \<and> cache_ok s' H)"
  unfolding write_then_read_def
proof -
  obtain N where N: "apart (disk_block s) ip N" "\<And>k. k < e \<Longrightarrow> mapped s H ip (k div BSIZE) \<and> k div BSIZE < N"
    using b by (auto simp: has_blocks_def)
  have on: "unat (off + n) = unat off + unat n" using o(2) by (simp add: unat_word_ariths)
  have "run (writei dv i src off n) s (\<lambda>r s'. r = int (unat n) \<and> fkept s H s' \<and> icache s' = (icache s)(i := grown (off + n) ip) \<and>
      written (disk_block s) ip N (unat off) (unat n) src 0 (disk_block s') \<and>
      (off + n > i_size ip \<longrightarrow> dinode_at (disk_block s') (i_dev ip) (i_inum ip) = to_dinode (grown (off + n) ip)))"
    using writei_file [OF ok, of i off n N dv src] t l r o N e unfolding ip_def [symmetric] by simp
  then obtain s1 where s1: "writei dv i src off n s = Ret (int (unat n), s1)" "fkept s H s1" "icache s1 i = grown (off + n) ip"
      "written (disk_block s) ip N (unat off) (unat n) src 0 (disk_block s1)"
      "i_size ip < off + n \<Longrightarrow> dinode_at (disk_block s1) (i_dev ip) (i_inum ip) = to_dinode (grown (off + n) ip)"
    by (auto simp: run_def)
  have sz: "unat (i_size (icache s1 i)) = e" using on e by (simp add: s1(3) unat_size_grown)
  have no: "off' \<le> i_size (icache s1 i)" "\<not> off' + n' < off'" "unat (i_size (icache s1 i)) \<le> MAXFILE * BSIZE"
    "unat n' = min (unat n') (unat (i_size (icache s1 i)) - unat off')"
    using o' e o(2,3) by (simp_all add: sz word_le_nat_alt word_less_nat_alt unat_word_ariths)
  have m: "mapped s1 H (icache s1 i) (k div BSIZE)" if "k < unat (i_size (icache s1 i))" for k
    using N(2) [of k] that mapped_after_write [OF s1(2,4)] by (simp add: s1(3) sz [unfolded s1(3)])
  have f: "map (file_byte (disk_block s1) (icache s1 i)) [unat off'..<unat off' + unat n'] =
      map (\<lambda>k. if unat off \<le> k \<and> k < unat off + unat n then src (k - unat off) else file_byte (disk_block s) ip k) [unat off'..<unat off' + unat n']"
    using s1(4) N(2) o' by (intro map_cong) (auto simp: s1(3) written_def)
  have "run (readi dv i off' n') s1 (\<lambda>r s'. kept s1 H s' \<and> disk_block s' = disk_block s1 \<and>
      r = (int (unat n'), map (file_byte (disk_block s1) (icache s1 i)) [unat off'..<unat off' + unat n']))"
    by (rule readi_file [OF _ _ _ no(1-3) m no(4)]) (use s1(2) t in \<open>auto simp: fkept_def s1(3)\<close>)
  then obtain s2 where s2: "readi dv i off' n' s1 = Ret ((int (unat n'), map (file_byte (disk_block s1) (icache s1 i)) [unat off'..<unat off' + unat n']), s2)"
    "kept s1 H s2" "disk_block s2 = disk_block s1" by (auto simp: run_def)
  have i2: "icache s2 i = grown (off + n) ip" "cache_ok s2 H" using kept_fkept [OF s2(2)] s1(3) s2(2) by (simp_all add: kept_def)
  have "i_size ip < off + n" if "unat (i_size ip) < e" using that on e by (simp add: word_less_nat_alt max_def split: if_splits)
  then show "run (bnd (writei dv i src off n) (\<lambda>w. bnd (readi dv i off' n') (\<lambda>(r, bs). ret (w, r, bs)))) s (\<lambda>(w, r, bs) s'. w = int (unat n) \<and> r = int (unat n') \<and>
    bs = map (\<lambda>k. if unat off \<le> k \<and> k < unat off + unat n then src (k - unat off) else file_byte (disk_block s) ip k) [unat off'..<unat off' + unat n'] \<and>
    unat (i_size (icache s' i)) = e \<and>
    (unat (i_size ip) < e \<longrightarrow> dinode_at (disk_block s') (i_dev ip) (i_inum ip) = to_dinode (icache s' i)) \<and> cache_ok s' H)"
    using s1(1,5) s2(1) [unfolded f] s2(3) i2 sz by (simp add: run_def s1(3))
qed

text \<open>An empty file with twelve blocks; 600 bytes go into two of them.\<close>

definition blocks_file :: inode where
  "blocks_file = (a_file T_FILE)\<lparr>i_addrs := map (\<lambda>k. of_nat (20 + k)) [0..<12] @ [0]\<rparr>"

lemma blocks_file_blocks: "has_blocks (ready small_disk (\<lambda>_. blocks_file)) {} blocks_file 600"
proof -
  have ba: "baddr B blocks_file n = of_nat (20 + n)" if "n < 12" for B n using that by (simp add: baddr_def blocks_file_def nth_append)
  have u: "unat (of_nat (20 + n) :: u32) = 20 + n" if "n < 12" for n using that by (simp add: unat_of_nat del: of_nat_add)
  have inj: "(of_nat (20 + m) :: u32) = of_nat (20 + n) \<longleftrightarrow> m = n" if "m < 12" "n < 12" for m n
    using that by (simp add: word_unat_eq_iff u del: of_nat_add)
  have ib: "IBLOCK (i_inum blocks_file) = 3" by (simp add: blocks_file_def a_file_def IBLOCK_def)
  have big: "(of_nat (20 + n) :: u32) \<noteq> 3" "(of_nat (20 + n) :: u32) \<noteq> 0" "(of_nat (20 + n) :: u32) < 2 ^ 28" if "n < 12" for n
    using that by (simp_all add: word_unat_eq_iff word_less_nat_alt u del: of_nat_add)
  have "apart B blocks_file 12" for B
    using inj big(1) unfolding apart_def inj_on_def ib by (auto simp: ba)
  moreover have "mapped (ready small_disk (\<lambda>_. blocks_file)) {} blocks_file (k div BSIZE) \<and> k div BSIZE < 12" if "k < 600" for k
  proof -
    have k: "k div 512 < 12" using that by simp
    have "i_dev blocks_file = 1" by (simp add: blocks_file_def a_file_def)
    then show ?thesis using k big(2,3) [OF k] unfolding mapped_def ba [OF k] readable_free addressable_def by auto
  qed
  ultimately show ?thesis unfolding has_blocks_def by blast
qed

theorem file_write_read_witness:
  "run (write_then_read (\<lambda>_. \<lparr>dev_read = None, dev_write = None\<rparr>) 4 (\<lambda>k. of_nat k) 0 600 510 3) (ready small_disk (\<lambda>_. blocks_file))
     (\<lambda>(w, r, bs) s'. w = 600 \<and> r = 3 \<and> bs = [254, 255, 0])"
proof -
  have a: "i_type blocks_file = T_FILE" "i_size blocks_file = 0" "length (i_addrs blocks_file) = 13" "addressable (i_dev blocks_file, IBLOCK (i_inum blocks_file))"
    by (simp_all add: blocks_file_def a_file_def zero_inode_def addressable_def IBLOCK_def)
  have "[510..<513] = [510, 511, 512 :: nat]" by (simp add: upt_rec)
  then show ?thesis
    by (intro run_weaken [OF file_write_read [OF ready_facts(1), where e = 600]])
       (use a blocks_file_blocks in \<open>auto simp del: upt_rec_numeral\<close>)
qed

end
