(* ===== verification/Spinlock.thy ===== *)
theory Spinlock
  imports Kernel_Monad
begin

text \<open>
  Spin locks, \<open>kernel/spinlock.c\<close>. \<open>cpus\<close> are the processors with their interrupt flag (the bit \<open>FL_IF\<close> of
  \<open>eflags\<close>), \<open>locks\<close> the locks by name; a function takes the processor it runs on as an argument. The call stack that
  \<open>acquire\<close> records in \<open>pcs\<close> for debugging is left out. The functions are what one processor does while the others stand
  still: a lock that someone else has is spun on for ever. The step relation below interleaves any number of
  processors instruction by instruction.
\<close>

section \<open>Operations\<close>

record cpu =
  ncli :: int
  intena :: bool
  fl_if :: bool

record spinlock =
  locked :: bool
  lk_cpu :: "nat option"

record smp =
  cpus :: "nat \<Rightarrow> cpu"
  locks :: "nat \<Rightarrow> spinlock"

definition upd_cpu :: "nat \<Rightarrow> (cpu \<Rightarrow> cpu) \<Rightarrow> smp \<Rightarrow> smp" where
  "upd_cpu c f s = s\<lparr>cpus := (cpus s)(c := f (cpus s c))\<rparr>"

definition upd_lock :: "nat \<Rightarrow> (spinlock \<Rightarrow> spinlock) \<Rightarrow> smp \<Rightarrow> smp" where
  "upd_lock l f s = s\<lparr>locks := (locks s)(l := f (locks s l))\<rparr>"

definition initlock :: "nat \<Rightarrow> (smp, unit) km" where
  "initlock l = modify (upd_lock l (\<lambda>_. \<lparr>locked = False, lk_cpu = None\<rparr>))"

definition holding :: "nat \<Rightarrow> nat \<Rightarrow> smp \<Rightarrow> bool" where
  "holding c l s \<longleftrightarrow> locked (locks s l) \<and> lk_cpu (locks s l) = Some c"

definition pushcli :: "nat \<Rightarrow> (smp, unit) km" where
  "pushcli c =
     bnd (gets (\<lambda>s. fl_if (cpus s c))) (\<lambda>eflags.
     modify (upd_cpu c (\<lambda>x. (if ncli x = 0 then x\<lparr>intena := eflags\<rparr> else x)\<lparr>ncli := ncli x + 1, fl_if := False\<rparr>)))"

definition popcli :: "nat \<Rightarrow> (smp, unit) km" where
  "popcli c =
     bnd (gets (\<lambda>s. cpus s c)) (\<lambda>x.
     if fl_if x then panic ''popcli - interruptible''
     else if ncli x - 1 < 0 then panic ''popcli''
     else modify (upd_cpu c (\<lambda>x. x\<lparr>ncli := ncli x - 1, fl_if := (ncli x - 1 = 0 \<and> intena x)\<rparr>)))"

text \<open>The atomic exchange \<open>xchg(&lk->locked, v)\<close> gives back the old value.\<close>

definition xchg_locked :: "nat \<Rightarrow> bool \<Rightarrow> (smp, bool) km" where
  "xchg_locked l v = bnd (gets (\<lambda>s. locked (locks s l))) (\<lambda>old. seq (modify (upd_lock l (\<lambda>k. k\<lparr>locked := v\<rparr>))) (ret old))"

definition acquire :: "nat \<Rightarrow> nat \<Rightarrow> (smp, unit) km" where
  "acquire c l =
     seq (pushcli c)
     (bnd (gets (holding c l)) (\<lambda>h.
     if h then panic ''acquire''
     else
       bnd (xchg_locked l True) (\<lambda>old.
       if old then sleep_forever
       else modify (upd_lock l (\<lambda>k. k\<lparr>lk_cpu := Some c\<rparr>)))))"

definition release :: "nat \<Rightarrow> nat \<Rightarrow> (smp, unit) km" where
  "release c l =
     bnd (gets (holding c l)) (\<lambda>h.
     if \<not> h then panic ''release''
     else
       seq (modify (upd_lock l (\<lambda>k. k\<lparr>lk_cpu := None\<rparr>)))
       (bnd (xchg_locked l False) (\<lambda>_.
       popcli c)))"

section \<open>Nesting\<close>

text \<open>The processor was in state \<open>x\<close>, since then there were \<open>n\<close> more \<open>pushcli\<close> than \<open>popcli\<close>, and it is in state \<open>y\<close>.\<close>

definition inside :: "cpu \<Rightarrow> nat \<Rightarrow> cpu \<Rightarrow> bool" where
  "inside x n y \<longleftrightarrow> 0 \<le> ncli x \<and> (0 < ncli x \<longrightarrow> \<not> fl_if x) \<and> ncli y = ncli x + int n \<and>
     fl_if y = (n = 0 \<and> fl_if x) \<and> (0 < ncli x \<longrightarrow> intena y = intena x) \<and> (ncli x = 0 \<and> 0 < n \<longrightarrow> intena y = fl_if x)"

lemma pushcli_inside: "inside x n (cpus s c) \<Longrightarrow>
    \<exists>y. pushcli c s = Ret ((), s\<lparr>cpus := (cpus s)(c := y)\<rparr>) \<and> inside x (Suc n) y"
  by (auto simp: pushcli_def upd_cpu_def inside_def)

lemma popcli_inside: "inside x (Suc n) (cpus s c) \<Longrightarrow>
    \<exists>y. popcli c s = Ret ((), s\<lparr>cpus := (cpus s)(c := y)\<rparr>) \<and> inside x n y"
  by (auto simp: popcli_def upd_cpu_def inside_def)

text \<open>The locks \<open>L\<close>, and no others, are locked, and processor \<open>c\<close> has them.\<close>

definition holds_locks :: "nat \<Rightarrow> nat set \<Rightarrow> smp \<Rightarrow> bool" where
  "holds_locks c L s \<longleftrightarrow> (\<forall>l. locks s l = \<lparr>locked = (l \<in> L), lk_cpu = (if l \<in> L then Some c else None)\<rparr>)"

lemma acquire_law:
  assumes h: "holds_locks c L s" and l: "l \<notin> L" and i: "inside x n (cpus s c)"
  shows "run (acquire c l) s (\<lambda>_ s'. holds_locks c (insert l L) s' \<and> inside x (Suc n) (cpus s' c) \<and> (\<forall>d. d \<noteq> c \<longrightarrow> cpus s' d = cpus s d))"
proof -
  obtain y where y: "pushcli c s = Ret ((), s\<lparr>cpus := (cpus s)(c := y)\<rparr>)" "inside x (Suc n) y" using pushcli_inside [OF i] by blast
  let ?s = "s\<lparr>cpus := (cpus s)(c := y)\<rparr>"
  have "\<not> locked (locks ?s l)" using h l by (simp add: holds_locks_def)
  then have "acquire c l s = Ret ((), upd_lock l (\<lambda>k. k\<lparr>lk_cpu := Some c\<rparr>) (upd_lock l (\<lambda>k. k\<lparr>locked := True\<rparr>) ?s))"
    using y(1) by (simp add: acquire_def holding_def xchg_locked_def)
  then show ?thesis using y(2) h l by (auto simp: run_def upd_lock_def holds_locks_def)
qed

lemma release_law:
  assumes h: "holds_locks c L s" and l: "l \<in> L" and i: "inside x (Suc n) (cpus s c)"
  shows "run (release c l) s (\<lambda>_ s'. holds_locks c (L - {l}) s' \<and> inside x n (cpus s' c) \<and> (\<forall>d. d \<noteq> c \<longrightarrow> cpus s' d = cpus s d))"
proof -
  let ?s = "upd_lock l (\<lambda>k. k\<lparr>locked := False\<rparr>) (upd_lock l (\<lambda>k. k\<lparr>lk_cpu := None\<rparr>) s)"
  have c: "cpus ?s = cpus s" by (simp add: upd_lock_def)
  obtain y where y: "popcli c ?s = Ret ((), ?s\<lparr>cpus := (cpus ?s)(c := y)\<rparr>)" "inside x n y" using popcli_inside [of x n ?s c] i c by auto
  have "holding c l s" using h l by (simp add: holding_def holds_locks_def)
  then have "release c l s = Ret ((), ?s\<lparr>cpus := (cpus ?s)(c := y)\<rparr>)" using y(1) by (simp add: release_def xchg_locked_def)
  then show ?thesis using y(2) h l by (auto simp: run_def upd_lock_def holds_locks_def)
qed

datatype lock_op = Acquire nat | Release nat

text \<open>The locks held after a sequence of calls, starting with \<open>L\<close>; \<open>None\<close> when one is acquired twice or released without being held.\<close>

fun held_after :: "nat set \<Rightarrow> lock_op list \<Rightarrow> nat set option" where
  "held_after L [] = Some L"
| "held_after L (Acquire l # xs) = (if l \<in> L then None else held_after (insert l L) xs)"
| "held_after L (Release l # xs) = (if l \<in> L then held_after (L - {l}) xs else None)"

fun lock_ops :: "nat \<Rightarrow> lock_op list \<Rightarrow> (smp, unit) km" where
  "lock_ops c [] = ret ()"
| "lock_ops c (Acquire l # xs) = seq (acquire c l) (lock_ops c xs)"
| "lock_ops c (Release l # xs) = seq (release c l) (lock_ops c xs)"

lemma lock_ops_law:
  assumes "holds_locks c L s" and "finite L" and "inside x (card L) (cpus s c)" and "held_after L xs = Some L'"
  shows "run (lock_ops c xs) s (\<lambda>_ s'. holds_locks c L' s' \<and> finite L' \<and> inside x (card L') (cpus s' c) \<and> (\<forall>d. d \<noteq> c \<longrightarrow> cpus s' d = cpus s d))"
  using assms
proof (induction xs arbitrary: L s)
  case (Cons a xs)
  show ?case
  proof (cases a)
    case (Acquire l)
    with Cons.prems have l: "l \<notin> L" "held_after (insert l L) xs = Some L'" by (auto split: if_splits)
    show ?thesis unfolding Acquire lock_ops.simps
    proof (rule run_bnd [OF acquire_law [OF Cons.prems(1) l(1) Cons.prems(3)]], goal_cases)
      case (1 u s1)
      then show ?case using Cons.IH [of "insert l L" s1] Cons.prems(2) l by (auto elim: run_weaken)
    qed
  next
    case (Release l)
    with Cons.prems have l: "l \<in> L" "held_after (L - {l}) xs = Some L'" by (auto split: if_splits)
    have "card L = Suc (card (L - {l}))" using Cons.prems(2) l(1) by (metis card_Suc_Diff1)
    then have i: "inside x (Suc (card (L - {l}))) (cpus s c)" using Cons.prems(3) by simp
    show ?thesis unfolding Release lock_ops.simps
    proof (rule run_bnd [OF release_law [OF Cons.prems(1) l(1) i]], goal_cases)
      case (1 u s1)
      then show ?case using Cons.IH [of "L - {l}" s1] Cons.prems(2) l by (auto elim: run_weaken)
    qed
  qed
qed simp

lemma holding_iff: "holds_locks c L s \<Longrightarrow> holding c l s \<longleftrightarrow> l \<in> L"
  by (simp add: holds_locks_def holding_def)

section \<open>Several processors\<close>

text \<open>
  Where a processor is: running code outside these functions, in \<open>acquire\<close> before the test, at the exchange, or before it
  records itself in the lock, in \<open>release\<close> before the lock is cleared, before the exchange, or before \<open>popcli\<close>.
  \<open>held\<close> are the locks for which \<open>acquire\<close> has returned and \<open>release\<close> has not been called.
\<close>

datatype lock_pc = Outside | Acq_test nat | Acq_xchg nat | Acq_mark nat | Rel_clear nat | Rel_xchg nat | Rel_pop

record lsys =
  machine :: smp
  pcs :: "nat \<Rightarrow> lock_pc"
  held :: "nat \<Rightarrow> nat set"

definition goto :: "nat \<Rightarrow> lock_pc \<Rightarrow> smp \<Rightarrow> lsys \<Rightarrow> lsys" where
  "goto c p m s = s\<lparr>machine := m, pcs := (pcs s)(c := p)\<rparr>"

definition hold :: "nat \<Rightarrow> nat set \<Rightarrow> lsys \<Rightarrow> lsys" where
  "hold c L s = s\<lparr>held := (held s)(c := L)\<rparr>"

inductive lock_step :: "lsys \<Rightarrow> lsys \<Rightarrow> bool" where
  acq_push: "pcs s c = Outside \<Longrightarrow> l \<notin> held s c \<Longrightarrow> pushcli c (machine s) = Ret ((), m) \<Longrightarrow> lock_step s (goto c (Acq_test l) m s)"
| acq_test: "pcs s c = Acq_test l \<Longrightarrow> \<not> holding c l (machine s) \<Longrightarrow> lock_step s (goto c (Acq_xchg l) (machine s) s)"
| acq_spin: "pcs s c = Acq_xchg l \<Longrightarrow> xchg_locked l True (machine s) = Ret (True, m) \<Longrightarrow> lock_step s (goto c (Acq_xchg l) m s)"
| acq_win: "pcs s c = Acq_xchg l \<Longrightarrow> xchg_locked l True (machine s) = Ret (False, m) \<Longrightarrow> lock_step s (goto c (Acq_mark l) m s)"
| acq_mark: "pcs s c = Acq_mark l \<Longrightarrow> lock_step s (hold c (insert l (held s c)) (goto c Outside (upd_lock l (\<lambda>k. k\<lparr>lk_cpu := Some c\<rparr>) (machine s)) s))"
| rel_test: "pcs s c = Outside \<Longrightarrow> l \<in> held s c \<Longrightarrow> holding c l (machine s) \<Longrightarrow> lock_step s (hold c (held s c - {l}) (goto c (Rel_clear l) (machine s) s))"
| rel_clear: "pcs s c = Rel_clear l \<Longrightarrow> lock_step s (goto c (Rel_xchg l) (upd_lock l (\<lambda>k. k\<lparr>lk_cpu := None\<rparr>) (machine s)) s)"
| rel_xchg: "pcs s c = Rel_xchg l \<Longrightarrow> xchg_locked l False (machine s) = Ret (b, m) \<Longrightarrow> lock_step s (goto c Rel_pop m s)"
| rel_pop: "pcs s c = Rel_pop \<Longrightarrow> popcli c (machine s) = Ret ((), m) \<Longrightarrow> lock_step s (goto c Outside m s)"

text \<open>A processor whose next step is a panic.\<close>

definition panics :: "nat \<Rightarrow> lsys \<Rightarrow> bool" where
  "panics c s \<longleftrightarrow> (\<exists>l. pcs s c = Acq_test l \<and> holding c l (machine s)) \<or>
     (\<exists>l. pcs s c = Outside \<and> l \<in> held s c \<and> \<not> holding c l (machine s)) \<or>
     (pcs s c = Rel_pop \<and> \<not> run (popcli c) (machine s) (\<lambda>_ _. True))"

definition owns :: "nat \<Rightarrow> nat \<Rightarrow> lsys \<Rightarrow> bool" where
  "owns c l s \<longleftrightarrow> l \<in> held s c \<or> pcs s c \<in> {Acq_mark l, Rel_clear l, Rel_xchg l}"

text \<open>The machine before anything is locked, with the processors in the states \<open>X\<close>.\<close>

definition lock_init :: "(nat \<Rightarrow> cpu) \<Rightarrow> lsys" where
  "lock_init X = \<lparr>machine = \<lparr>cpus = X, locks = (\<lambda>_. \<lparr>locked = False, lk_cpu = None\<rparr>)\<rparr>, pcs = (\<lambda>_. Outside), held = (\<lambda>_. {})\<rparr>"

definition depth :: "nat \<Rightarrow> lsys \<Rightarrow> nat" where
  "depth c s = card (held s c) + (if pcs s c = Outside then 0 else 1)"

lemma xchg_locked_eq: "xchg_locked l v m = Ret (locked (locks m l), upd_lock l (\<lambda>k. k\<lparr>locked := v\<rparr>) m)"
  by (simp add: xchg_locked_def)

lemma cpus_upd_lock [simp]: "cpus (upd_lock l f m) = cpus m" "locks (upd_lock l f m) = (locks m)(l := f (locks m l))"
  by (simp_all add: upd_lock_def)

lemma goto_simps [simp]: "machine (goto c p m s) = m" "pcs (goto c p m s) = (pcs s)(c := p)" "held (goto c p m s) = held s"
  "machine (hold c L s) = machine s" "pcs (hold c L s) = pcs s" "held (hold c L s) = (held s)(c := L)"
  by (simp_all add: goto_def hold_def)

definition depth_ok :: "(nat \<Rightarrow> cpu) \<Rightarrow> lsys \<Rightarrow> bool" where
  "depth_ok X s \<longleftrightarrow> (\<forall>c. finite (held s c) \<and> inside (X c) (depth c s) (cpus (machine s) c))"

text \<open>A lock is locked exactly when some processor owns it, and then one processor does.\<close>

definition owner_ok :: "lsys \<Rightarrow> bool" where
  "owner_ok s \<longleftrightarrow> (\<forall>l. locked (locks (machine s) l) \<longleftrightarrow> (\<exists>c. owns c l s)) \<and> (\<forall>c d l. owns c l s \<longrightarrow> owns d l s \<longrightarrow> c = d)"

text \<open>The lock names the processor from the end of \<open>acquire\<close> to the test in \<open>release\<close>; a lock being acquired or released is not held.\<close>

definition mark_ok :: "lsys \<Rightarrow> bool" where
  "mark_ok s \<longleftrightarrow> (\<forall>c l. lk_cpu (locks (machine s) l) = Some c \<longleftrightarrow> l \<in> held s c \<or> pcs s c = Rel_clear l) \<and>
     (\<forall>c l. pcs s c \<in> {Acq_test l, Acq_xchg l, Acq_mark l, Rel_clear l, Rel_xchg l} \<longrightarrow> l \<notin> held s c)"

definition lock_inv :: "(nat \<Rightarrow> cpu) \<Rightarrow> lsys \<Rightarrow> bool" where
  "lock_inv X s \<longleftrightarrow> depth_ok X s \<and> owner_ok s \<and> mark_ok s"

lemma lock_inv_init: "\<forall>c. inside (X c) 0 (X c) \<Longrightarrow> lock_inv X (lock_init X)"
  by (simp add: lock_inv_def depth_ok_def owner_ok_def mark_ok_def lock_init_def owns_def depth_def)

text \<open>A step of processor \<open>c\<close> leaves the depth of the others alone.\<close>

lemma depth_ok_step:
  assumes d: "depth_ok X s" and o: "\<And>e. e \<noteq> c \<Longrightarrow> cpus (machine s') e = cpus (machine s) e \<and> pcs s' e = pcs s e \<and> held s' e = held s e"
    and c: "finite (held s' c)" "inside (X c) (depth c s') (cpus (machine s') c)"
  shows "depth_ok X s'"
  unfolding depth_ok_def
proof
  fix e
  show "finite (held s' e) \<and> inside (X e) (depth e s') (cpus (machine s') e)"
    using assms by (cases "e = c") (auto simp: depth_ok_def depth_def)
qed

lemma depth_okD: "depth_ok X s \<Longrightarrow> inside (X c) (depth c s) (cpus (machine s) c)"
  by (simp add: depth_ok_def)

lemma depth_ok_goto:
  assumes "depth_ok X s" and "pcs s c \<noteq> Outside" and "p \<noteq> Outside" and "cpus m = cpus (machine s)"
  shows "depth_ok X (goto c p m s)"
proof -
  have "depth e (goto c p m s) = depth e s" for e using assms(2,3) by (simp add: depth_def)
  then show ?thesis using assms(1,4) by (simp add: depth_ok_def)
qed

lemma lock_step_depth:
  assumes "lock_step s s'" and "depth_ok X s" and "mark_ok s"
  shows "depth_ok X s'"
  using assms(1)
proof cases
  case (acq_push c l m)
  have "inside (X c) (depth c s) (cpus (machine s) c)" using assms(2) by (simp add: depth_ok_def)
  then obtain y where "m = (machine s)\<lparr>cpus := (cpus (machine s))(c := y)\<rparr>" "inside (X c) (Suc (depth c s)) y"
    using pushcli_inside [of "X c" "depth c s" "machine s" c] acq_push(4) by auto
  then show ?thesis using acq_push assms(2) by (intro depth_ok_step [OF assms(2), of c]) (auto simp: depth_def depth_ok_def)
next
  case (rel_pop c m)
  have "inside (X c) (depth c s) (cpus (machine s) c)" using assms(2) by (simp add: depth_ok_def)
  then have "inside (X c) (Suc (card (held s c))) (cpus (machine s) c)" using rel_pop(2) by (simp add: depth_def)
  then obtain y where "m = (machine s)\<lparr>cpus := (cpus (machine s))(c := y)\<rparr>" "inside (X c) (card (held s c)) y"
    using popcli_inside [of "X c" _ "machine s" c] rel_pop(3) by auto
  then show ?thesis using rel_pop assms(2) by (intro depth_ok_step [OF assms(2), of c]) (auto simp: depth_def depth_ok_def)
next
  case (acq_mark c l)
  then have "l \<notin> held s c" using assms(3) by (auto simp: mark_ok_def)
  moreover have "inside (X c) (Suc (card (held s c))) (cpus (machine s) c)" using depth_okD [OF assms(2), of c] acq_mark(2) by (simp add: depth_def)
  ultimately show ?thesis using acq_mark assms(2) by (intro depth_ok_step [OF assms(2), of c]) (auto simp: depth_def depth_ok_def)
next
  case (rel_test c l)
  then have "card (held s c) = Suc (card (held s c - {l}))" using assms(2) by (metis card_Suc_Diff1 depth_ok_def)
  moreover have "inside (X c) (depth c s) (cpus (machine s) c)" using assms(2) by (simp add: depth_ok_def)
  ultimately have "inside (X c) (Suc (card (held s c - {l}))) (cpus (machine s) c)" using rel_test(2) by (simp add: depth_def)
  then show ?thesis using rel_test assms(2) by (intro depth_ok_step [OF assms(2), of c]) (auto simp: depth_def depth_ok_def)
qed (use assms(2) in \<open>auto simp: xchg_locked_eq intro: depth_ok_goto\<close>)

lemma owner_ok_same:
  assumes "owner_ok s" and "\<And>d k. owns d k s' \<longleftrightarrow> owns d k s" and "\<And>k. locked (locks (machine s') k) \<longleftrightarrow> locked (locks (machine s) k)"
  shows "owner_ok s'"
  using assms by (simp add: owner_ok_def)

lemma owner_ok_win:
  assumes "owner_ok s" and "\<not> locked (locks (machine s) l)" and "\<And>d k. owns d k s' \<longleftrightarrow> owns d k s \<or> (d = c \<and> k = l)"
    and "\<And>k. locked (locks (machine s') k) \<longleftrightarrow> locked (locks (machine s) k) \<or> k = l"
  shows "owner_ok s'"
proof -
  have "\<not> owns d l s" for d using assms(1,2) by (simp add: owner_ok_def)
  then show ?thesis using assms(1) unfolding owner_ok_def assms(3,4) by auto
qed

lemma owner_ok_free:
  assumes "owner_ok s" and "owns c l s" and "\<And>d k. owns d k s' \<longleftrightarrow> owns d k s \<and> k \<noteq> l"
    and "\<And>k. locked (locks (machine s') k) \<longleftrightarrow> locked (locks (machine s) k) \<and> k \<noteq> l"
  shows "owner_ok s'"
  using assms(1,2) unfolding owner_ok_def assms(3,4) by auto

lemma cli_locks: "pushcli c m = Ret (u, m') \<Longrightarrow> locks m' = locks m" "popcli c m = Ret (u, m') \<Longrightarrow> locks m' = locks m"
  by (auto simp: pushcli_def popcli_def upd_cpu_def bnd_apply split: if_splits)

lemma lock_step_owner:
  assumes "lock_step s s'" and o: "owner_ok s" and m: "mark_ok s"
  shows "owner_ok s'"
  using assms(1)
proof cases
  case (acq_win c l m)
  then have "\<not> locked (locks (machine s) l)" "m = upd_lock l (\<lambda>k. k\<lparr>locked := True\<rparr>) (machine s)" by (auto simp: xchg_locked_eq)
  then show ?thesis using acq_win by (intro owner_ok_win [OF o]) (auto simp: owns_def)
next
  case (rel_xchg c l b m')
  have ow: "owns c l s" using rel_xchg by (simp add: owns_def)
  have un: "d = c" if "owns d l s" for d using that ow o by (auto simp: owner_ok_def)
  have nh: "l \<notin> held s c" using m rel_xchg(2) by (simp add: mark_ok_def)
  have "owns d k s' \<longleftrightarrow> owns d k s \<and> k \<noteq> l" for d k
  proof (cases "d = c")
    case True
    then show ?thesis using rel_xchg(1,2) nh by (auto simp: owns_def)
  next
    case False
    then have "owns d k s' \<longleftrightarrow> owns d k s" using rel_xchg(1) by (simp add: owns_def)
    then show ?thesis using un [of d] False by blast
  qed
  then show ?thesis using rel_xchg by (intro owner_ok_free [OF o ow]) (auto simp: xchg_locked_eq split: if_splits)
qed (rule owner_ok_same [OF o]; auto simp: owns_def xchg_locked_eq cli_locks split: if_splits)+

lemma lock_step_mark:
  assumes "lock_step s s'" and o: "owner_ok s" and m: "mark_ok s"
  shows "mark_ok s'"
  using assms(1)
proof cases
  case (acq_mark c l)
  then have "owns c l s" by (simp add: owns_def)
  then have "d = c" if "owns d l s" for d using that o by (auto simp: owner_ok_def)
  then show ?thesis using acq_mark m by (auto simp: mark_ok_def owns_def split: if_splits)
next
  case (rel_clear c l)
  then have "owns c l s" by (simp add: owns_def)
  then have "d = c" if "owns d l s" for d using that o by (auto simp: owner_ok_def)
  then show ?thesis using rel_clear m by (auto simp: mark_ok_def owns_def split: if_splits)
qed (use m in \<open>auto simp: mark_ok_def xchg_locked_eq cli_locks split: if_splits\<close>)

lemma lock_reachable_inv:
  assumes "lock_step\<^sup>*\<^sup>* (lock_init X) s" and "\<forall>c. inside (X c) 0 (X c)"
  shows "lock_inv X s"
  using assms(1)
proof (induction rule: rtranclp_induct)
  case base
  show ?case by (rule lock_inv_init [OF assms(2)])
next
  case (step s s')
  then show ?case using lock_step_depth lock_step_owner lock_step_mark by (auto simp: lock_inv_def)
qed

lemma lock_inv_facts:
  assumes "lock_inv X s"
  shows "owns c l s \<Longrightarrow> owns d l s \<Longrightarrow> c = d" and "\<not> panics c s" and "owns c l s \<Longrightarrow> \<not> fl_if (cpus (machine s) c)"
    and "pcs s c = Outside \<Longrightarrow> held s c = {} \<Longrightarrow> inside (X c) 0 (cpus (machine s) c)"
proof -
  have i: "inside (X c) (depth c s) (cpus (machine s) c)" and o: "owner_ok s" and m: "mark_ok s" and f: "finite (held s c)"
    using assms by (auto simp: lock_inv_def depth_ok_def)
  show "owns c l s \<Longrightarrow> owns d l s \<Longrightarrow> c = d" using o by (auto simp: owner_ok_def)
  have "0 < depth c s" if "owns c l s" using that f by (auto simp: owns_def depth_def card_gt_0_iff)
  then show "owns c l s \<Longrightarrow> \<not> fl_if (cpus (machine s) c)" using i by (auto simp: inside_def)
  show "pcs s c = Outside \<Longrightarrow> held s c = {} \<Longrightarrow> inside (X c) 0 (cpus (machine s) c)" using i by (simp add: depth_def)
  have h: "l \<in> held s c \<Longrightarrow> holding c l (machine s)" for l using o m by (auto simp: holding_def owner_ok_def mark_ok_def owns_def)
  have n: "pcs s c = Acq_test l \<Longrightarrow> \<not> holding c l (machine s)" for l using m by (auto simp: holding_def mark_ok_def)
  have "run (popcli c) (machine s) (\<lambda>_ _. True)" if "pcs s c = Rel_pop"
    using popcli_inside [of "X c" "card (held s c)" "machine s" c] i that by (auto simp: depth_def run_def)
  then show "\<not> panics c s" using h n by (auto simp: panics_def)
qed

section \<open>Properties\<close>

text \<open>C0. Mutual exclusion: with any number of processors and locks and any interleaving of the instructions of \<open>acquire\<close> and
  \<open>release\<close>, where no processor acquires a lock it has or releases one it has not, two processors never own the same lock; a
  processor that owns a lock has its interrupts off; no processor ever panics; and one that holds no lock has the
  nesting depth and the interrupt flag it started with.\<close>

theorem mutual_exclusion:
  assumes "lock_step\<^sup>*\<^sup>* (lock_init X) s" and "\<forall>c. ncli (X c) = 0"
  shows "(owns c l s \<and> owns d l s \<longrightarrow> c = d) \<and> \<not> panics c s \<and> (owns c l s \<longrightarrow> \<not> fl_if (cpus (machine s) c)) \<and>
    (pcs s c = Outside \<and> held s c = {} \<longrightarrow> ncli (cpus (machine s) c) = 0 \<and> fl_if (cpus (machine s) c) = fl_if (X c))"
proof -
  have "\<forall>c. inside (X c) 0 (X c)" using assms(2) by (simp add: inside_def)
  note f = lock_inv_facts [OF lock_reachable_inv [OF assms(1) this]]
  show ?thesis using f(1) [of c l d] f(2,3) [of c] f(4) [of c] assms(2) by (auto simp: inside_def)
qed

definition idle_cpu :: cpu where
  "idle_cpu = \<lparr>ncli = 0, intena = False, fl_if = True\<rparr>"

theorem mutual_exclusion_witness:
  "\<exists>s. lock_step\<^sup>*\<^sup>* (lock_init (\<lambda>_. idle_cpu)) s \<and> owns 0 7 s \<and> \<not> panics 0 s \<and> \<not> fl_if (cpus (machine s) 0) \<and> (\<forall>d. owns d 7 s \<longrightarrow> d = 0)"
proof -
  let ?s0 = "lock_init (\<lambda>_. idle_cpu)"
  obtain m where m: "pushcli 0 (machine ?s0) = Ret ((), m)" by (simp add: pushcli_def)
  let ?s1 = "goto 0 (Acq_test 7) m ?s0"
  let ?s2 = "goto 0 (Acq_xchg 7) (machine ?s1) ?s1"
  let ?m = "upd_lock 7 (\<lambda>k. k\<lparr>locked := True\<rparr>) (machine ?s2)"
  let ?s3 = "goto 0 (Acq_mark 7) ?m ?s2"
  have l: "locks m = (\<lambda>_. \<lparr>locked = False, lk_cpu = None\<rparr>)" using cli_locks(1) [OF m] by (simp add: lock_init_def)
  have "lock_step ?s0 ?s1" using m by (intro lock_step.acq_push) (simp_all add: lock_init_def)
  moreover have "lock_step ?s1 ?s2" by (rule lock_step.acq_test) (simp_all add: holding_def l)
  moreover have "lock_step ?s2 ?s3" by (rule lock_step.acq_win) (simp_all add: xchg_locked_eq l)
  ultimately have r: "lock_step\<^sup>*\<^sup>* ?s0 ?s3" by (meson rtranclp.rtrancl_refl rtranclp.rtrancl_into_rtrancl)
  have o: "owns 0 7 ?s3" by (simp add: owns_def)
  have z: "\<forall>c. ncli idle_cpu = 0" by (simp add: idle_cpu_def)
  have "\<not> panics 0 ?s3 \<and> \<not> fl_if (cpus (machine ?s3) 0)" using mutual_exclusion [OF r z, of 0 7 0] o by blast
  moreover have "\<forall>d. owns d 7 ?s3 \<longrightarrow> d = 0" using mutual_exclusion [OF r z, of _ 7 0] o by blast
  ultimately show ?thesis using r o by blast
qed

text \<open>C0. Lock discipline on one processor: any sequence of \<open>acquire\<close> and \<open>release\<close>, nested in any order, that acquires only locks not
  held and releases only locks held runs to its end without a panic or a spin; afterwards exactly the locks that should be are held,
  and when none is, interrupts are on again exactly if they were on before.\<close>

theorem lock_discipline:
  assumes "holds_locks c {} s" and "ncli (cpus s c) = 0" and "held_after {} xs = Some L"
  shows "run (lock_ops c xs) s (\<lambda>_ s'. (\<forall>l. holding c l s' \<longleftrightarrow> l \<in> L) \<and> ncli (cpus s' c) = int (card L) \<and>
    fl_if (cpus s' c) = (L = {} \<and> fl_if (cpus s c)))"
proof -
  have i: "inside (cpus s c) (card {}) (cpus s c)" using assms(2) by (simp add: inside_def)
  show ?thesis
    by (rule run_weaken [OF lock_ops_law [OF assms(1) finite.emptyI i assms(3)]])
       (use assms(2) in \<open>auto simp: holding_iff inside_def\<close>)
qed

theorem lock_discipline_witness:
  "run (lock_ops 0 [Acquire 1, Acquire 2, Release 1, Release 2]) (machine (lock_init (\<lambda>_. idle_cpu))) (\<lambda>_ s'. ncli (cpus s' 0) = 0 \<and> fl_if (cpus s' 0))"
  by (rule run_weaken [OF lock_discipline [where L = "{}"]]) (auto simp: holds_locks_def lock_init_def idle_cpu_def)

end
