(* ===== verification/Umalloc.thy ===== *)
theory Umalloc
  imports Kernel_Monad
begin

text \<open>
  The memory allocator of the user library, \<open>user/umalloc.c\<close>. A pointer to a \<open>Header\<close> is the number of the eight bytes it
  points to, so that \<open>p + 1\<close> is the next header; the sizes in the headers and the size asked for are unsigned 32-bit integers.
  \<open>base\<close> is the place of the static variable of that name. \<open>sbrk\<close> is the system call as \<open>kernel/sysproc.c\<close> has it:
  it returns the old end of the memory of the process, or \<open>-1\<close> when the kernel does not grant the request; \<open>grant\<close> says
  when it does. The loops take fuel; there are fewer than \<open>2^29\<close> headers in the address space.
\<close>

section \<open>The code\<close>

record heap =
  h_ptr :: "nat \<Rightarrow> nat"
  h_size :: "nat \<Rightarrow> u32"
  freep :: "nat option"
  brk :: u32

definition set_ptr :: "nat \<Rightarrow> nat \<Rightarrow> heap \<Rightarrow> heap" where
  "set_ptr p q s = s\<lparr>h_ptr := (h_ptr s)(p := q)\<rparr>"

definition set_size :: "nat \<Rightarrow> u32 \<Rightarrow> heap \<Rightarrow> heap" where
  "set_size p n s = s\<lparr>h_size := (h_size s)(p := n)\<rparr>"

definition sbrk :: "(u32 \<Rightarrow> int \<Rightarrow> bool) \<Rightarrow> int \<Rightarrow> (heap, u32) km" where
  "sbrk grant n = (\<lambda>s. if grant (brk s) n then Ret (brk s, s\<lparr>brk := brk s + of_int n\<rparr>) else Ret (-1, s))"

text \<open>The search in \<open>free\<close> for the place of \<open>bp\<close> in the list.\<close>

fun free_loop :: "nat \<Rightarrow> nat \<Rightarrow> nat \<Rightarrow> heap \<Rightarrow> nat res" where
  "free_loop 0 bp p s = NoRet"
| "free_loop (Suc fuel) bp p s =
     (if bp > p \<and> bp < h_ptr s p then Ret p
      else if p \<ge> h_ptr s p \<and> (bp > p \<or> bp < h_ptr s p) then Ret p
      else free_loop fuel bp (h_ptr s p) s)"

text \<open>Putting \<open>bp\<close> behind \<open>p\<close>, joined with its neighbours where they touch.\<close>

definition join_next :: "nat \<Rightarrow> nat \<Rightarrow> heap \<Rightarrow> heap" where
  "join_next bp p s =
     (if bp + unat (h_size s bp) = h_ptr s p then
        let s = set_size bp (h_size s bp + h_size s (h_ptr s p)) s in set_ptr bp (h_ptr s (h_ptr s p)) s
      else set_ptr bp (h_ptr s p) s)"

definition join_prev :: "nat \<Rightarrow> nat \<Rightarrow> heap \<Rightarrow> heap" where
  "join_prev bp p s =
     (if p + unat (h_size s p) = bp then
        let s = set_size p (h_size s p + h_size s bp) s in set_ptr p (h_ptr s bp) s
      else set_ptr p bp s)"

definition free :: "nat \<Rightarrow> (heap, unit) km" where
  "free ap = (\<lambda>s. let bp = ap - 1 in
     case freep s of
       None \<Rightarrow> Fault
     | Some p \<Rightarrow>
         rbind (free_loop (2 ^ 30) bp p s) (\<lambda>p.
         Ret ((), (join_prev bp p (join_next bp p s))\<lparr>freep := Some p\<rparr>)))"

definition morecore :: "(u32 \<Rightarrow> int \<Rightarrow> bool) \<Rightarrow> u32 \<Rightarrow> (heap, nat option) km" where
  "morecore grant nu =
     (let nu = (if nu < 4096 then 4096 else nu) in
      bnd (sbrk grant (sint (nu * 8))) (\<lambda>p.
      if p = -1 then ret None
      else
        let hp = unat p div 8 in
        seq (modify (set_size hp nu))
        (seq (free (hp + 1))
        (gets freep))))"

text \<open>Taking \<open>nunits\<close> units from the block at \<open>p\<close>, whose predecessor is \<open>prevp\<close>: all of it, or its tail.\<close>

definition take_block :: "u32 \<Rightarrow> nat \<Rightarrow> nat \<Rightarrow> (heap, nat) km" where
  "take_block nunits prevp p = (\<lambda>s.
     if h_size s p = nunits then Ret (p + 1, (set_ptr prevp (h_ptr s p) s)\<lparr>freep := Some prevp\<rparr>)
     else
       let s = set_size p (h_size s p - nunits) s;
           p = p + unat (h_size s p)
       in Ret (p + 1, (set_size p nunits s)\<lparr>freep := Some prevp\<rparr>))"

fun malloc_loop :: "(u32 \<Rightarrow> int \<Rightarrow> bool) \<Rightarrow> nat \<Rightarrow> u32 \<Rightarrow> nat \<Rightarrow> nat \<Rightarrow> (heap, nat option) km" where
  "malloc_loop grant 0 nunits prevp p = sleep_forever"
| "malloc_loop grant (Suc fuel) nunits prevp p =
     bnd (gets (\<lambda>s. (h_size s p, freep s))) (\<lambda>(sz, fp).
     if sz \<ge> nunits then bnd (take_block nunits prevp p) (\<lambda>r. ret (Some r))
     else if fp = Some p then
       bnd (morecore grant nunits) (\<lambda>r. case r of
         None \<Rightarrow> ret None
       | Some p \<Rightarrow> bnd (gets (\<lambda>s. h_ptr s p)) (\<lambda>q. malloc_loop grant fuel nunits p q))
     else bnd (gets (\<lambda>s. h_ptr s p)) (\<lambda>q. malloc_loop grant fuel nunits p q))"

definition malloc :: "(u32 \<Rightarrow> int \<Rightarrow> bool) \<Rightarrow> nat \<Rightarrow> u32 \<Rightarrow> (heap, nat option) km" where
  "malloc grant base nbytes =
     (let nunits = (nbytes + 8 - 1) div 8 + 1 in
      bnd (gets freep) (\<lambda>fp.
      bnd (case fp of
             None \<Rightarrow> seq (modify (\<lambda>s. set_size base 0 (set_ptr base base s)\<lparr>freep := Some base\<rparr>)) (ret base)
           | Some p \<Rightarrow> ret p) (\<lambda>prevp.
      bnd (gets (\<lambda>s. h_ptr s prevp)) (\<lambda>p.
      malloc_loop grant (2 ^ 31) nunits prevp p))))"

section \<open>The free list\<close>

text \<open>The links lead from \<open>a\<close> through \<open>xs\<close> to \<open>b\<close>.\<close>

fun path :: "(nat \<Rightarrow> nat) \<Rightarrow> nat \<Rightarrow> nat list \<Rightarrow> nat \<Rightarrow> bool" where
  "path nx a [] b \<longleftrightarrow> nx a = b"
| "path nx a (x # xs) b \<longleftrightarrow> nx a = x \<and> path nx x xs b"

text \<open>Blocks of positive size in ascending order behind \<open>a\<close>, no two of them touching.\<close>

fun ordered :: "(nat \<Rightarrow> u32) \<Rightarrow> nat \<Rightarrow> nat list \<Rightarrow> bool" where
  "ordered sz a [] \<longleftrightarrow> True"
| "ordered sz a (x # xs) \<longleftrightarrow> a < x \<and> 0 < unat (sz x) \<and> ordered sz (x + unat (sz x)) xs"

definition units :: "(nat \<Rightarrow> u32) \<Rightarrow> nat list \<Rightarrow> nat set" where
  "units sz xs = (\<Union>x\<in>set xs. {x..<x + unat (sz x)})"

text \<open>The list of the free blocks \<open>xs\<close>, which goes round through \<open>base\<close>; all of them lie below \<open>lim\<close>.\<close>

definition heap_list :: "nat \<Rightarrow> nat \<Rightarrow> heap \<Rightarrow> nat list \<Rightarrow> bool" where
  "heap_list lim base s xs \<longleftrightarrow> path (h_ptr s) base xs base \<and> ordered (h_size s) base xs \<and> h_size s base = 0 \<and>
     (\<forall>x\<in>set xs. x + unat (h_size s x) \<le> lim) \<and> (\<exists>p\<in>set (base # xs). freep s = Some p)"

lemma path_append: "path nx a (xs @ y # ys) b \<longleftrightarrow> path nx a xs y \<and> path nx y ys b"
  by (induction xs arbitrary: a) auto

lemma path_upd: "x \<notin> set (a # xs) \<Longrightarrow> path (nx(x := y)) a xs b \<longleftrightarrow> path nx a xs b"
  by (induction xs arbitrary: a) auto

lemma path_set_last: "path nx a xs b \<Longrightarrow> distinct (a # xs) \<Longrightarrow> path (nx(last (a # xs) := c)) a xs c"
  by (induction xs arbitrary: a) auto

lemma ordered_mono: "ordered sz a xs \<Longrightarrow> b \<le> a \<Longrightarrow> ordered sz b xs"
  by (cases xs) auto

lemma ordered_cong: "(\<And>x. x \<in> set xs \<Longrightarrow> sz x = sz' x) \<Longrightarrow> ordered sz a xs \<longleftrightarrow> ordered sz' a xs"
  by (induction xs arbitrary: a) auto

lemma ordered_upd: "x \<notin> set xs \<Longrightarrow> ordered (sz(x := n)) a xs \<longleftrightarrow> ordered sz a xs"
  by (rule ordered_cong) auto

lemma ordered_gt: "ordered sz a xs \<Longrightarrow> x \<in> set xs \<Longrightarrow> a < x"
  by (induction xs arbitrary: a) fastforce+

lemma ordered_pos: "ordered sz a xs \<Longrightarrow> x \<in> set xs \<Longrightarrow> 0 < unat (sz x)"
  by (induction xs arbitrary: a) auto

lemma ordered_distinct: "ordered sz a xs \<Longrightarrow> distinct (a # xs)"
proof (induction xs arbitrary: a)
  case (Cons x xs)
  then have "ordered sz (x + unat (sz x)) xs" "ordered sz x xs" "a < x" by (auto intro: ordered_mono)
  then show ?case using Cons.IH [of x] ordered_gt [of sz x xs a] by auto
qed simp

text \<open>The end of the last block.\<close>

definition block_end :: "(nat \<Rightarrow> u32) \<Rightarrow> nat \<Rightarrow> nat list \<Rightarrow> nat" where
  "block_end sz a xs = (if xs = [] then a else last xs + unat (sz (last xs)))"

lemma ordered_append: "ordered sz a (xs @ ys) \<longleftrightarrow> ordered sz a xs \<and> ordered sz (block_end sz a xs) ys"
  by (induction xs arbitrary: a) (auto simp: block_end_def)

lemma ordered_below: "ordered sz a xs \<Longrightarrow> x \<in> set xs \<Longrightarrow> x + unat (sz x) \<le> block_end sz a xs"
proof (induction xs arbitrary: a)
  case (Cons y xs)
  then have o: "ordered sz (y + unat (sz y)) xs" by simp
  show ?case
  proof (cases "x = y")
    case True
    show ?thesis
    proof (cases xs)
      case (Cons z zs)
      then have "last xs \<in> set xs" by simp
      then have "y + unat (sz y) < last xs" using ordered_gt [OF o] by blast
      then show ?thesis using True Cons by (simp add: block_end_def)
    qed (simp add: True block_end_def)
  next
    case False
    then show ?thesis using Cons.IH [OF o] Cons.prems(2) by (auto simp: block_end_def)
  qed
qed simp

lemma units_append [simp]: "units sz (xs @ ys) = units sz xs \<union> units sz ys" "units sz [] = {}" "units sz (x # xs) = {x..<x + unat (sz x)} \<union> units sz xs"
  by (auto simp: units_def)

lemma units_cong: "(\<And>x. x \<in> set xs \<Longrightarrow> sz x = sz' x) \<Longrightarrow> units sz xs = units sz' xs"
  by (auto simp: units_def)

lemma units_upd: "x \<notin> set xs \<Longrightarrow> units (sz(x := n)) xs = units sz xs"
  by (rule units_cong) auto

section \<open>Freeing\<close>

text \<open>The search, from a header below the block and from one above it.\<close>

lemma free_loop_low:
  assumes "path (h_ptr s) p us q" and "ordered (h_size s) p us" and "p < bp" "\<forall>u\<in>set us. u < bp" and "bp < q \<or> q \<le> last (p # us)"
    and "length us < fuel"
  shows "free_loop fuel bp p s = Ret (last (p # us))"
  using assms
proof (induction us arbitrary: p fuel)
  case Nil
  then show ?case by (cases fuel) auto
next
  case (Cons u us)
  then obtain f where f: "fuel = Suc f" "length us < f" by (cases fuel) auto
  have "free_loop f bp u s = Ret (last (u # us))" using Cons.prems f(2) by (intro Cons.IH) (auto intro: ordered_mono)
  then show ?case using Cons.prems f(1) by simp
qed

lemma free_loop_high:
  assumes "path (h_ptr s) p us base" and "ordered (h_size s) p us" and "bp < p" and "base < bp"
  shows "free_loop (Suc (length us) + fuel) bp p s = free_loop fuel bp base s"
  using assms
proof (induction us arbitrary: p)
  case (Cons u us)
  then have "free_loop (Suc (length us) + fuel) bp u s = free_loop fuel bp base s" by (intro Cons.IH) (auto intro: ordered_mono)
  then show ?case using Cons.prems by simp
qed auto

text \<open>The blocks before and after \<open>bp\<close>.\<close>

lemma split_blocks:
  assumes o: "ordered sz base xs" and bp: "base < bp" "0 < n" and d: "{bp..<bp + n} \<inter> units sz xs = {}"
  obtains ys zs where "xs = ys @ zs" "\<forall>y\<in>set ys. y < bp" "block_end sz base ys \<le> bp" "\<forall>z\<in>set zs. bp + n \<le> z"
proof
  let ?ys = "takeWhile (\<lambda>x. x < bp) xs" and ?zs = "dropWhile (\<lambda>x. x < bp) xs"
  show x: "xs = ?ys @ ?zs" by simp
  show lt: "\<forall>y\<in>set ?ys. y < bp" by (auto dest: set_takeWhileD)
  have out: "x + unat (sz x) \<le> bp \<or> bp + n \<le> x" if "x \<in> set xs" for x
  proof (rule ccontr)
    assume "\<not> ?thesis"
    then have lt: "bp < x + unat (sz x)" "x < bp + n" by auto
    have "{x..<x + unat (sz x)} \<subseteq> units sz xs" using that by (auto simp: units_def)
    moreover have "max bp x \<in> {bp..<bp + n} \<inter> {x..<x + unat (sz x)}" using lt bp(2) ordered_pos [OF o that] by auto
    ultimately show False using d by blast
  qed
  show "block_end sz base ?ys \<le> bp"
  proof (cases "?ys = []")
    case False
    then have l: "last ?ys \<in> set ?ys" by simp
    then have "last ?ys \<in> set xs" "last ?ys < bp" using lt by (auto dest: set_takeWhileD)
    then show ?thesis using out [of "last ?ys"] bp(2) False by (auto simp: block_end_def)
  qed (use bp in \<open>simp add: block_end_def\<close>)
  show "\<forall>z\<in>set ?zs. bp + n \<le> z"
  proof
    fix z
    assume z: "z \<in> set ?zs"
    then have zx: "z \<in> set xs" by (rule set_dropWhileD)
    have ne: "?zs \<noteq> []" using z by (metis empty_iff list.set(1))
    have "bp \<le> hd ?zs" using hd_dropWhile [OF ne] by simp
    moreover have "hd ?zs \<le> z"
    proof -
      have "ordered sz (block_end sz base ?ys) ?zs" using o x ordered_append by metis
      then show ?thesis using z by (cases ?zs) (auto dest: ordered_gt)
    qed
    ultimately have "bp \<le> z" by simp
    then show "bp + n \<le> z" using out [OF zx] ordered_pos [OF o zx] by auto
  qed
qed

lemma path_from: "path nx a xs b \<Longrightarrow> a # xs = us @ p # vs \<Longrightarrow> path nx p vs b"
  by (cases us) (auto simp: path_append)

lemma ordered_from: "ordered sz a xs \<Longrightarrow> a # xs = us @ p # vs \<Longrightarrow> ordered sz p vs"
  by (cases us) (auto simp: ordered_append intro: ordered_mono)

lemma free_search:
  assumes p: "path (h_ptr s) base (ys @ zs) base" and o: "ordered (h_size s) base (ys @ zs)"
    and b: "base < bp" "\<forall>y\<in>set ys. y < bp" "\<forall>z\<in>set zs. bp < z" and f: "length (ys @ zs) + 1 < fuel" and m: "m \<in> set (base # ys @ zs)"
  shows "free_loop fuel bp m s = Ret (last (base # ys))"
proof -
  define q where "q = (case zs of [] \<Rightarrow> base | z # _ \<Rightarrow> z)"
  have py: "path (h_ptr s) base ys q" using p by (cases zs) (auto simp: q_def path_append)
  have oy: "ordered (h_size s) base ys" using o by (simp add: ordered_append)
  have "base \<le> last (base # ys)" using ordered_gt [OF oy] by (auto simp: less_imp_le)
  then have q: "bp < q \<or> q \<le> last (base # ys)" using b(3) by (cases zs) (auto simp: q_def)
  have low: "free_loop g bp m s = Ret (last (base # ys))" if mem: "m \<in> set (base # ys)" and len: "length ys < g" for m g
  proof -
    obtain us vs where uv: "base # ys = us @ m # vs" using split_list [OF mem] by blast
    have in_low: "\<forall>v\<in>set (base # ys). v < bp" using b(1,2) by simp
    have "Suc (length ys) = length us + Suc (length vs)" using arg_cong [OF uv, of length] by simp
    then have "last (base # ys) = last (m # vs)" "length vs \<le> length ys" by (simp_all only: uv) auto
    moreover have "\<forall>v\<in>set vs. v < bp" "m < bp" using in_low unfolding uv by simp_all
    ultimately show ?thesis using free_loop_low [OF path_from [OF py uv] ordered_from [OF oy uv]] q len by auto
  qed
  show ?thesis
  proof (cases "m \<in> set (base # ys)")
    case True
    then show ?thesis using low f by simp
  next
    case False
    then have mz: "m \<in> set zs" using m by simp
    then obtain us vs where uv: "zs = us @ m # vs" using split_list [OF mz] by blast
    then have uv': "base # ys @ zs = (base # ys @ us) @ m # vs" by simp
    have "length vs < length zs" using uv by simp
    then obtain g where g: "fuel = Suc (length vs) + g" "length ys < g" using f
      by (intro that [of "fuel - Suc (length vs)"]) auto
    have "free_loop (Suc (length vs) + g) bp m s = free_loop g bp base s"
      using b(1,3) mz by (intro free_loop_high [OF path_from [OF p uv'] ordered_from [OF o uv']]) auto
    then show ?thesis using low g by simp
  qed
qed

text \<open>The block and those behind it, joined where they touch.\<close>

lemma join_next_law:
  assumes pz: "path (h_ptr s) p zs base" and oz: "ordered (h_size s) 0 zs" and z: "\<forall>z\<in>set zs. bp + unat (h_size s bp) \<le> z"
    and lim: "\<forall>z\<in>set zs. z + unat (h_size s z) \<le> lim" "lim < 2 ^ 32" and bp: "0 < unat (h_size s bp)" "base < bp" and p: "p < bp"
  shows "\<exists>zs' n. join_next bp p s = s\<lparr>h_ptr := (h_ptr s)(bp := hd (zs' @ [base])), h_size := (h_size s)(bp := n)\<rparr> \<and>
    path ((h_ptr s)(bp := hd (zs' @ [base]))) bp zs' base \<and> ordered ((h_size s)(bp := n)) (bp + unat n) zs' \<and> set zs' \<subseteq> set zs \<and>
    unat (h_size s bp) \<le> unat n \<and> (bp + unat n \<le> lim \<or> n = h_size s bp) \<and>
    {bp..<bp + unat n} \<union> units (h_size s) zs' = {bp..<bp + unat (h_size s bp)} \<union> units (h_size s) zs"
proof (cases zs)
  case Nil
  then show ?thesis using pz bp by (intro exI [of _ "[]"] exI [of _ "h_size s bp"]) (auto simp: join_next_def set_ptr_def)
next
  case (Cons y ys)
  have nb: "bp \<notin> set zs" using z bp(1) by auto
  have hp: "h_ptr s p = y" and py: "path (h_ptr s) y ys base" using pz Cons by auto
  have oy: "ordered (h_size s) (y + unat (h_size s y)) ys" and ypos: "0 < unat (h_size s y)" using oz Cons by auto
  show ?thesis
  proof (cases "bp + unat (h_size s bp) = y")
    case False
    have "ordered ((h_size s)(bp := h_size s bp)) (bp + unat (h_size s bp)) zs" using Cons z False oy ypos by (auto simp: le_less)
    then show ?thesis using Cons hp False pz nb path_upd [of bp y ys "h_ptr s"] py
      by (intro exI [of _ zs] exI [of _ "h_size s bp"]) (auto simp: join_next_def set_ptr_def)
  next
    case True
    let ?n = "h_size s bp + h_size s y"
    have "y + unat (h_size s y) \<le> lim" using lim(1) Cons by simp
    then have n: "unat ?n = unat (h_size s bp) + unat (h_size s y)" "bp + unat ?n \<le> lim" using True lim(2) by (simp_all add: unat_word_ariths)
    have "hd (ys @ [base]) = h_ptr s y" using py by (cases ys) auto
    then have "join_next bp p s = s\<lparr>h_ptr := (h_ptr s)(bp := hd (ys @ [base])), h_size := (h_size s)(bp := ?n)\<rparr>"
      using hp True by (simp add: join_next_def set_ptr_def set_size_def)
    moreover have "path ((h_ptr s)(bp := hd (ys @ [base]))) bp ys base" using py nb Cons by (cases ys) (auto simp: path_upd)
    moreover have "y + unat (h_size s y) = bp + unat ?n" using n(1) True by simp
    then have "ordered ((h_size s)(bp := ?n)) (bp + unat ?n) ys" using oy nb Cons by (simp add: ordered_upd)
    moreover have "{bp..<bp + unat ?n} = {bp..<bp + unat (h_size s bp)} \<union> {y..<y + unat (h_size s y)}" using n(1) True by auto
    ultimately show ?thesis using n Cons by (intro exI [of _ ys] exI [of _ ?n]) auto
  qed
qed

lemma path_join: "path nx a ys (hd (zs @ [b])) \<Longrightarrow> zs = [] \<or> path nx (hd zs) (tl zs) b \<Longrightarrow> path nx a (ys @ zs) b"
  by (cases zs) (auto simp: path_append)

lemma path_start: "path nx a zs b \<Longrightarrow> zs = [] \<or> path nx (hd zs) (tl zs) b"
  by (cases zs) auto

lemma join_prev_law:
  assumes py: "path (h_ptr s) base ys q" and oy: "ordered (h_size s) base ys" and e: "block_end (h_size s) base ys \<le> bp" and b: "base < bp" "h_size s base = 0"
    and pz: "path (h_ptr s) bp zs base" "hd (zs @ [base]) = h_ptr s bp" and oz: "ordered (h_size s) (bp + unat (h_size s bp)) zs" and n: "0 < unat (h_size s bp)"
    and l: "bp + unat (h_size s bp) \<le> lim" "lim < 2 ^ 32"
  shows "\<exists>xs. path (h_ptr (join_prev bp (last (base # ys)) s)) base xs base \<and> ordered (h_size (join_prev bp (last (base # ys)) s)) base xs \<and>
    last (base # ys) \<in> set (base # xs) \<and> (\<exists>x\<in>set xs. unat (h_size s bp) \<le> unat (h_size (join_prev bp (last (base # ys)) s) x)) \<and>
    (\<forall>y. y \<notin> set ys \<longrightarrow> h_size (join_prev bp (last (base # ys)) s) y = h_size s y) \<and>
    (\<forall>x\<in>set xs. x \<in> set ys \<union> set zs \<and> h_size (join_prev bp (last (base # ys)) s) x = h_size s x \<or> x + unat (h_size (join_prev bp (last (base # ys)) s) x) \<le> lim) \<and>
    units (h_size (join_prev bp (last (base # ys)) s)) xs = units (h_size s) ys \<union> {bp..<bp + unat (h_size s bp)} \<union> units (h_size s) zs"
proof -
  let ?p = "last (base # ys)"
  have ylt: "y < bp" if "y \<in> set ys" for y using ordered_below [OF oy that] ordered_pos [OF oy that] e by simp
  have zgt: "bp < z" if "z \<in> set zs" for z using ordered_gt [OF oz that] by simp
  have p: "?p \<in> set (base # ys)" "?p < bp" using ylt b(1) by auto
  have nz: "?p \<notin> set zs" "bp \<notin> set zs" "bp \<notin> set (base # ys)" using p(2) zgt ylt b(1) by fastforce+
  have d: "distinct (base # ys)" using ordered_distinct [OF oy] .
  show ?thesis
  proof (cases "?p + unat (h_size s ?p) = bp")
    case False
    let ?s = "set_ptr ?p bp s"
    have j: "join_prev bp ?p s = ?s" using False by (simp add: join_prev_def)
    have "path (h_ptr ?s) base ys bp" using path_set_last [OF py d] by (simp add: set_ptr_def)
    moreover have "path (h_ptr ?s) bp zs base" using pz(1) nz p(2) by (simp add: set_ptr_def path_upd)
    ultimately have "path (h_ptr ?s) base (ys @ bp # zs) base" by (simp add: path_append)
    moreover have "block_end (h_size s) base ys < bp" using e False b by (cases ys rule: rev_cases) (auto simp: block_end_def)
    then have "ordered (h_size s) base (ys @ bp # zs)" using oy oz n by (simp add: ordered_append)
    ultimately show ?thesis unfolding j using p(1) l by (intro exI [of _ "ys @ bp # zs"]) (auto simp: set_ptr_def)
  next
    case True
    then obtain us v where us: "ys = us @ [v]" using b by (cases ys rule: rev_cases) auto
    then have v: "?p = v" by simp
    have du: "v \<notin> set us" "v \<noteq> base" "us \<noteq> [] \<Longrightarrow> last us \<noteq> v" using d us by (auto dest: last_in_set)
    let ?m = "h_size s v + h_size s bp" let ?s = "set_ptr v (h_ptr s bp) (set_size v ?m s)"
    have vb: "v + unat (h_size s v) = bp" using True v by simp
    have j: "join_prev bp ?p s = ?s" unfolding v using vb p(2) by (simp add: join_prev_def set_size_def)
    have m: "unat ?m = unat (h_size s v) + unat (h_size s bp)" "v + unat ?m \<le> lim" using vb l by (simp_all add: unat_word_ariths)
    have "path (h_ptr ?s) base ys (hd (zs @ [base]))" using path_set_last [OF py d, unfolded v] pz(2) by (simp add: set_ptr_def set_size_def)
    moreover have "zs = [] \<or> path (h_ptr ?s) (hd zs) (tl zs) base"
      using path_start [OF pz(1)] nz(1) [unfolded v] by (cases zs) (auto simp: set_ptr_def set_size_def path_upd)
    ultimately have "path (h_ptr ?s) base (ys @ zs) base" by (rule path_join)
    moreover have "ordered (h_size ?s) base (ys @ zs)"
      using oy oz m(1) vb nz(1) [unfolded v] du n unfolding us
      by (auto simp: ordered_append ordered_upd set_ptr_def set_size_def block_end_def add.assoc [symmetric])
    moreover have "units (h_size ?s) (ys @ zs) = units (h_size s) ys \<union> {bp..<bp + unat (h_size s bp)} \<union> units (h_size s) zs"
    proof -
      have "{v..<v + unat ?m} = {v..<v + unat (h_size s v)} \<union> {bp..<bp + unat (h_size s bp)}" using m(1) vb by auto
      then show ?thesis using nz(1) [unfolded v] du unfolding us by (auto simp: units_upd set_ptr_def set_size_def)
    qed
    ultimately show ?thesis unfolding j using m v us by (intro exI [of _ "ys @ zs"]) (auto simp: set_ptr_def set_size_def)
  qed
qed

lemma ordered_length:
  assumes "ordered sz a xs" and "\<forall>x\<in>set xs. x + unat (sz x) \<le> lim"
  shows "length xs \<le> lim"
proof -
  have "x < lim" if "x \<in> set xs" for x using assms(2) ordered_pos [OF assms(1) that] that by fastforce
  then have "set xs \<subseteq> {..<lim}" by auto
  then have "card (set xs) \<le> card {..<lim}" by (rule card_mono [rotated]) simp
  moreover have "distinct xs" using ordered_distinct [OF assms(1)] by simp
  ultimately show ?thesis by (simp add: distinct_card)
qed

lemma free_law:
  assumes h: "heap_list lim base s xs" and lim: "lim \<le> 2 ^ 29" and bp: "base < bp" "0 < unat (h_size s bp)" "bp + unat (h_size s bp) \<le> lim"
    and d: "{bp..<bp + unat (h_size s bp)} \<inter> units (h_size s) xs = {}"
  shows "run (free (bp + 1)) s (\<lambda>_ s'. \<exists>xs'. heap_list lim base s' xs' \<and> brk s' = brk s \<and>
    units (h_size s') xs' = units (h_size s) xs \<union> {bp..<bp + unat (h_size s bp)} \<and>
    (\<exists>x\<in>set xs'. unat (h_size s bp) \<le> unat (h_size s' x)) \<and> (\<forall>y. y \<notin> insert bp (set xs) \<longrightarrow> h_size s' y = h_size s y))"
proof -
  have p: "path (h_ptr s) base xs base" and o: "ordered (h_size s) base xs" and b0: "h_size s base = 0"
    and l: "\<forall>x\<in>set xs. x + unat (h_size s x) \<le> lim" using h by (auto simp: heap_list_def)
  obtain f where f: "freep s = Some f" "f \<in> set (base # xs)" using h by (auto simp: heap_list_def)
  obtain ys zs where yz: "xs = ys @ zs" "\<forall>y\<in>set ys. y < bp" "block_end (h_size s) base ys \<le> bp" "\<forall>z\<in>set zs. bp + unat (h_size s bp) \<le> z"
    using split_blocks [OF o bp(1,2) d] by blast
  let ?p = "last (base # ys)"
  have "free_loop (2 ^ 30) bp f s = Ret ?p"
    using p o yz bp f(2) ordered_length [OF o l] lim by (intro free_search [of s base ys zs]) auto
  moreover define s1 where "s1 = join_next bp ?p s" 
  ultimately have fr: "free (bp + 1) s = Ret ((), (join_prev bp ?p s1)\<lparr>freep := Some ?p\<rparr>)" using f(1) by (simp add: free_def)
  define q where "q = (case zs of [] \<Rightarrow> base | z # _ \<Rightarrow> z)"
  have py: "path (h_ptr s) base ys q" using p yz(1) by (cases zs) (auto simp: q_def path_append)
  have oy: "ordered (h_size s) base ys" and oz: "ordered (h_size s) (block_end (h_size s) base ys) zs" using o yz(1) by (simp_all add: ordered_append)
  have pz: "path (h_ptr s) ?p zs base"
    using p unfolding yz(1) by (cases ys rule: rev_cases) (auto simp: path_append)
  have lt: "?p < bp" "lim < 2 ^ 32" using yz(2) bp(1) lim by auto
  obtain zs' n where zn: "s1 = s\<lparr>h_ptr := (h_ptr s)(bp := hd (zs' @ [base])), h_size := (h_size s)(bp := n)\<rparr>"
      "path ((h_ptr s)(bp := hd (zs' @ [base]))) bp zs' base" "ordered ((h_size s)(bp := n)) (bp + unat n) zs'" "set zs' \<subseteq> set zs"
      "unat (h_size s bp) \<le> unat n" "bp + unat n \<le> lim"
      "{bp..<bp + unat n} \<union> units (h_size s) zs' = {bp..<bp + unat (h_size s bp)} \<union> units (h_size s) zs"
    using join_next_law [OF pz ordered_mono [OF oz] yz(4) _ lt(2) bp(2,1) lt(1)] l yz(1) bp(3) unfolding s1_def by auto
  have nb: "bp \<notin> set ys" "bp \<notin> set zs'" "bp \<noteq> base" using yz(2,4) zn(4) bp by (auto dest!: subsetD)
  have nl: "ys \<noteq> [] \<Longrightarrow> last ys \<noteq> bp" using nb(1) by (auto dest: last_in_set)
  have s1: "path (h_ptr s1) base ys q" "ordered (h_size s1) base ys" "block_end (h_size s1) base ys \<le> bp" "h_size s1 base = 0"
      "path (h_ptr s1) bp zs' base" "hd (zs' @ [base]) = h_ptr s1 bp" "ordered (h_size s1) (bp + unat (h_size s1 bp)) zs'"
      "0 < unat (h_size s1 bp)" "bp + unat (h_size s1 bp) \<le> lim"
    using py oy yz(3) b0 zn nb nl bp by (auto simp: path_upd ordered_upd block_end_def)
  have u1: "units (h_size s1) ys = units (h_size s) ys" "units (h_size s1) zs' = units (h_size s) zs'" "h_size s1 bp = n"
    using nb zn(1) by (simp_all add: units_upd)
  obtain xs' where xs': "path (h_ptr (join_prev bp ?p s1)) base xs' base" "ordered (h_size (join_prev bp ?p s1)) base xs'"
      "?p \<in> set (base # xs')" "\<exists>x\<in>set xs'. unat n \<le> unat (h_size (join_prev bp ?p s1) x)"
      "\<forall>y. y \<notin> set ys \<longrightarrow> h_size (join_prev bp ?p s1) y = h_size s1 y"
      "\<forall>x\<in>set xs'. x \<in> set ys \<union> set zs' \<and> h_size (join_prev bp ?p s1) x = h_size s1 x \<or> x + unat (h_size (join_prev bp ?p s1) x) \<le> lim"
      "units (h_size (join_prev bp ?p s1)) xs' = units (h_size s) xs \<union> {bp..<bp + unat (h_size s bp)}"
    using join_prev_law [OF s1(1-3) bp(1) s1(4-9) lt(2)] unfolding u1 yz(1) units_append using zn(7) by blast
  have hs: "h_size s1 y = h_size s y" if "y \<noteq> bp" for y using that by (simp add: zn(1))
  have brk: "brk (join_prev bp ?p s1) = brk s" by (simp add: join_prev_def set_ptr_def set_size_def zn(1) Let_def)
  have "\<forall>x\<in>set xs'. x + unat (h_size (join_prev bp ?p s1) x) \<le> lim" using xs'(6) l yz(1) zn(4) hs nb by (metis UnE Un_iff set_append subsetD)
  moreover have "h_size (join_prev bp ?p s1) base = 0" using xs'(5) s1(4) ordered_gt [OF oy, of base] by (metis less_irrefl)
  ultimately have "heap_list lim base ((join_prev bp ?p s1)\<lparr>freep := Some ?p\<rparr>) xs'" using xs'(1-3) by (auto simp: heap_list_def)
  moreover have "\<exists>x\<in>set xs'. unat (h_size s bp) \<le> unat (h_size (join_prev bp ?p s1) x)" using xs'(4) zn(5) by (meson order_trans)
  moreover have "\<forall>y. y \<notin> insert bp (set xs) \<longrightarrow> h_size (join_prev bp ?p s1) y = h_size s y" using xs'(5) hs yz(1) by simp
  ultimately show ?thesis unfolding run_def fr using xs'(7) brk
    by (intro exI [of _ "()"] exI [of _ "(join_prev bp ?p s1)\<lparr>freep := Some ?p\<rparr>"] conjI exI [of _ xs']) simp_all
qed

section \<open>Allocating\<close>

lemma path_succ:
  assumes "path nx a xs b" and "q \<in> set (a # xs)"
  shows "nx q \<in> insert b (set xs)" and "nx q = b \<Longrightarrow> b \<notin> set xs \<Longrightarrow> q = last (a # xs)"
  using assms by (induction xs arbitrary: a) (auto split: if_splits)

lemma path_pred:
  assumes "path nx a (us @ p # vs) a" and "distinct (a # us @ p # vs)" and "q \<in> set (a # us @ p # vs)" and "nx q = p"
  shows "q = last (a # us)"
proof -
  have p: "path nx a us p" "path nx p vs a" using assms(1) by (simp_all add: path_append)
  show ?thesis
  proof (cases "q \<in> set (a # us)")
    case True
    then show ?thesis using path_succ(2) [OF p(1) True] assms(2,4) by simp
  next
    case False
    then have "q \<in> set (p # vs)" using assms(3) by auto
    from path_succ(1) [OF p(2) this] show ?thesis using assms(2,4) by auto
  qed
qed

lemma path_rotate:
  assumes "path nx a xs a" and "f \<in> set (a # xs)" and "distinct (a # xs)"
  obtains ws where "path nx f ws f" "set (ws @ [f]) = set (a # xs)" "f \<notin> set ws" "length ws = length xs"
proof (cases "f = a")
  case True
  then show ?thesis using assms that [of xs] by auto
next
  case False
  then have "f \<in> set xs" using assms(2) by simp
  then obtain us vs where "xs = us @ f # vs" by (blast dest: split_list)
  then show ?thesis using assms(1,3) False that [of "vs @ a # us"] by (auto simp: path_append)
qed

text \<open>One round through the list: a block that is large enough is taken, or all are too small and more memory is asked for.\<close>

lemma malloc_scan:
  assumes "path (h_ptr s) prevp ws f" and "freep s = Some f" and "f \<notin> set ws"
  shows "(\<exists>q p. h_ptr s q = p \<and> q \<in> set (prevp # ws) \<and> p \<in> set (ws @ [f]) \<and> nunits \<le> h_size s p \<and>
      malloc_loop grant (length ws + Suc k) nunits prevp (hd (ws @ [f])) s = bnd (take_block nunits q p) (\<lambda>r. ret (Some r)) s) \<or>
    ((\<forall>x\<in>set (ws @ [f]). h_size s x < nunits) \<and>
      malloc_loop grant (length ws + Suc k) nunits prevp (hd (ws @ [f])) s = bnd (morecore grant nunits) (\<lambda>r. case r of
        None \<Rightarrow> ret None | Some p \<Rightarrow> bnd (gets (\<lambda>s. h_ptr s p)) (\<lambda>q. malloc_loop grant k nunits p q)) s)"
  using assms
proof (induction ws arbitrary: prevp)
  case Nil
  then show ?case by (cases "nunits \<le> h_size s f") (auto simp: not_le ret_def)
next
  case (Cons w ws)
  show ?case
  proof (cases "nunits \<le> h_size s w")
    case True
    then show ?thesis using Cons.prems by (intro disjI1 exI [of _ prevp] exI [of _ w]) (auto simp: ret_def)
  next
    case False
    have hw: "h_ptr s w = hd (ws @ [f])" using Cons.prems(1) by (cases ws) auto
    have step: "malloc_loop grant (length (w # ws) + Suc k) nunits prevp (hd ((w # ws) @ [f])) s =
        malloc_loop grant (length ws + Suc k) nunits w (hd (ws @ [f])) s" using False Cons.prems hw by simp
    have "path (h_ptr s) w ws f" "f \<notin> set ws" using Cons.prems by auto
    from Cons.IH [OF this(1) assms(2) this(2)] show ?thesis
    proof (elim disjE exE conjE)
      fix q p
      assume "h_ptr s q = p" "q \<in> set (w # ws)" "p \<in> set (ws @ [f])" "nunits \<le> h_size s p"
        "malloc_loop grant (length ws + Suc k) nunits w (hd (ws @ [f])) s = bnd (take_block nunits q p) (\<lambda>r. ret (Some r)) s"
      then show ?thesis unfolding step by (intro disjI1 exI [of _ q] exI [of _ p] conjI) (assumption | simp)+
    next
      assume "\<forall>x\<in>set (ws @ [f]). h_size s x < nunits" and e: "malloc_loop grant (length ws + Suc k) nunits w (hd (ws @ [f])) s =
        bnd (morecore grant nunits) (\<lambda>r. case r of None \<Rightarrow> ret None | Some p \<Rightarrow> bnd (gets (\<lambda>s. h_ptr s p)) (\<lambda>q. malloc_loop grant k nunits p q)) s"
      then have "\<forall>x\<in>set ((w # ws) @ [f]). h_size s x < nunits" using False by (simp add: not_le)
      then show ?thesis unfolding step e by blast
    qed
  qed
qed

lemma ordered_shrink: "ordered sz a xs \<Longrightarrow> 0 < unat n \<Longrightarrow> unat n \<le> unat (sz p) \<Longrightarrow> ordered (sz(p := n)) a xs"
proof (induction xs arbitrary: a)
  case (Cons x xs)
  have "ordered (sz(p := n)) (x + unat (sz x)) xs" using Cons.prems by (intro Cons.IH) auto
  then show ?case using Cons.prems by (auto simp: fun_upd_def intro: ordered_mono)
qed simp

lemma units_mem: "y \<in> units sz xs \<longleftrightarrow> (\<exists>x\<in>set xs. x \<le> y \<and> y < x + unat (sz x))"
  by (auto simp: units_def)

text \<open>A block overlaps no other.\<close>

lemma ordered_apart:
  assumes "ordered sz a (us @ p # vs)" and "p \<le> y" "y < p + unat (sz p)"
  shows "y \<notin> units sz (us @ vs)"
proof -
  have o: "ordered sz a us" "block_end sz a us < p" "ordered sz (p + unat (sz p)) vs" using assms(1) by (auto simp: ordered_append)
  have "x + unat (sz x) < p" if "x \<in> set us" for x using ordered_below [OF o(1) that] o(2) by simp
  moreover have "p + unat (sz p) < x" if "x \<in> set vs" for x using ordered_gt [OF o(3) that] .
  ultimately show ?thesis using assms(2,3) by (fastforce simp: units_mem)
qed

lemma take_block_law:
  assumes h: "heap_list lim base s xs" and q: "q \<in> set (base # xs)" "h_ptr s q = p" and p: "p \<in> set (base # xs)"
    and n: "0 < unat nunits" "nunits \<le> h_size s p"
  shows "run (take_block nunits q p) s (\<lambda>r s'. \<exists>xs' bp. r = bp + 1 \<and> heap_list lim base s' xs' \<and> brk s' = brk s \<and> h_size s' bp = nunits \<and>
    {bp..<bp + unat nunits} \<subseteq> units (h_size s) xs \<and> units (h_size s') xs' = units (h_size s) xs - {bp..<bp + unat nunits} \<and>
    (\<forall>y. y \<notin> units (h_size s) xs \<longrightarrow> h_size s' y = h_size s y))"
proof -
  have pa: "path (h_ptr s) base xs base" and o: "ordered (h_size s) base xs" and b0: "h_size s base = 0"
    and l: "\<forall>x\<in>set xs. x + unat (h_size s x) \<le> lim" using h by (auto simp: heap_list_def)
  have le: "unat nunits \<le> unat (h_size s p)" using n(2) by (simp add: word_le_nat_alt)
  have d: "distinct (base # xs)" by (rule ordered_distinct [OF o])
  have "p \<noteq> base" using le n(1) b0 by auto
  then have px: "p \<in> set xs" using p by simp
  then obtain us vs where uv: "xs = us @ p # vs" by (blast dest: split_list)
  have ql: "q = last (base # us)" using path_pred [of "h_ptr s" base us p vs q] pa d q uv by simp
  have pin: "{p..<p + unat (h_size s p)} \<subseteq> units (h_size s) xs" using px by (auto simp: units_def)
  have nin: "{p..<p + unat (h_size s p)} \<inter> units (h_size s) (us @ vs) = {}" using ordered_apart [of "h_size s" base us p vs] o uv by auto
  show ?thesis
  proof (cases "h_size s p = nunits")
    case True
    let ?s = "(set_ptr q (h_ptr s p) s)\<lparr>freep := Some q\<rparr>"
    have pp: "path (h_ptr s) base us p" "path (h_ptr s) p vs base" using pa uv by (simp_all add: path_append)
    have qv: "q \<notin> set vs" using ql d uv by (cases us rule: rev_cases) auto
    have "hd (vs @ [base]) = h_ptr s p" using pp(2) by (cases vs) auto
    then have "path (h_ptr ?s) base us (hd (vs @ [base]))" using path_set_last [OF pp(1)] d uv ql by (simp add: set_ptr_def)
    moreover have "vs = [] \<or> path (h_ptr ?s) (hd vs) (tl vs) base" using path_start [OF pp(2)] qv by (cases vs) (auto simp: set_ptr_def path_upd)
    ultimately have "path (h_ptr ?s) base (us @ vs) base" by (rule path_join)
    moreover have "ordered (h_size s) base (us @ vs)"
      using o uv by (auto simp: ordered_append intro: ordered_mono)
    moreover have "units (h_size s) (us @ vs) = units (h_size s) xs - {p..<p + unat nunits}" using nin uv True by auto
    ultimately show ?thesis using True pin l uv b0 ql
      by (intro runI [of _ _ "p + 1" ?s]) (auto simp: take_block_def heap_list_def set_ptr_def intro!: exI [of _ "us @ vs"] exI [of _ p])
  next
    case False
    let ?m = "h_size s p - nunits" let ?bp = "p + unat ?m"
    have m: "unat ?m = unat (h_size s p) - unat nunits" using n(2) by (simp add: unat_sub)
    have lt: "unat nunits < unat (h_size s p)" using le False by (metis le_less word_unat_eq_iff)
    have bp: "?bp + unat nunits = p + unat (h_size s p)" "p < ?bp" "?bp < p + unat (h_size s p)" using m lt n(1) by auto
    let ?z = "(h_size s)(p := ?m, ?bp := nunits)"
    let ?s = "s\<lparr>h_size := ?z, freep := Some q\<rparr>"
    have "?bp \<in> {p..<p + unat (h_size s p)}" using bp by simp
    then have "?bp \<notin> units (h_size s) (us @ vs)" using nin by blast
    then have nb: "?bp \<notin> set us" "?bp \<notin> set vs" "?bp \<noteq> p" using ordered_pos [OF o] uv bp by (auto simp: units_mem)
    then have nx: "?bp \<notin> set xs" using uv by simp
    have "base < p" using ordered_gt [OF o px] .
    then have bb: "?bp \<noteq> base" by simp
    have os: "ordered ?z base xs" using ordered_shrink [OF o, of ?m p] m lt nx by (simp add: ordered_upd)
    have uz: "units ?z us = units (h_size s) us" "units ?z vs = units (h_size s) vs" using nb d uv by (simp_all add: units_upd)
    have "{p..<p + unat (h_size s p)} = {p..<?bp} \<union> {?bp..<?bp + unat nunits}" "{p..<?bp} \<inter> {?bp..<?bp + unat nunits} = {}" using bp by auto
    moreover have "units ?z xs = units (h_size s) us \<union> {p..<?bp} \<union> units (h_size s) vs" using nb(3) unfolding uv units_append uz by auto
    ultimately have "units ?z xs = units (h_size s) xs - {?bp..<?bp + unat nunits}" using nin unfolding uv units_append by blast
    moreover have "{?bp..<?bp + unat nunits} \<subseteq> units (h_size s) xs" using pin bp(1) by auto
    moreover have "heap_list lim base ?s xs" unfolding heap_list_def
      using pa os b0 q(1) l bb \<open>base < p\<close> m nx by (auto simp: less_imp_le)
    moreover have "take_block nunits q p s = Ret (?bp + 1, ?s)" using False by (simp add: take_block_def set_size_def Let_def)
    moreover have "p \<in> units (h_size s) xs" "?bp \<in> units (h_size s) xs" by (rule subsetD [OF pin]; use bp in simp)+
    then have "\<forall>y. y \<notin> units (h_size s) xs \<longrightarrow> ?z y = h_size s y" by auto
    ultimately show ?thesis by (intro runI [of _ _ "?bp + 1" ?s]) (auto intro!: exI [of _ xs] exI [of _ ?bp])
  qed
qed

text \<open>The kernel lets no process grow beyond \<open>USERTOP\<close> (\<open>allocuvm\<close> in \<open>kernel/vm.c\<close>).\<close>

abbreviation USERTOP :: nat where "USERTOP \<equiv> 655360"

definition within_usertop :: "(u32 \<Rightarrow> int \<Rightarrow> bool) \<Rightarrow> bool" where
  "within_usertop grant \<longleftrightarrow> (\<forall>b n. grant b n \<longrightarrow> 0 < n \<longrightarrow> int (unat b) + n \<le> int USERTOP)"

text \<open>The free units are \<open>F\<close>; all of them are memory of the process. Before the first call there is no list.\<close>

definition heap_inv :: "nat \<Rightarrow> heap \<Rightarrow> nat set \<Rightarrow> bool" where
  "heap_inv base s F \<longleftrightarrow> (if freep s = None then F = {} else \<exists>xs. heap_list (unat (brk s) div 8) base s xs \<and> units (h_size s) xs = F) \<and>
     unat (brk s) mod 8 = 0 \<and> base < unat (brk s) div 8 \<and> unat (brk s) \<le> USERTOP"

lemma heap_list_mono: "heap_list lim base s xs \<Longrightarrow> lim \<le> lim' \<Longrightarrow> heap_list lim' base s xs"
  by (auto simp: heap_list_def intro: order_trans)

lemma heap_list_new:
  assumes "heap_list lim base s xs" and "lim \<le> hp" and "base < lim"
  shows "heap_list lim base (set_size hp n (s\<lparr>brk := b\<rparr>)) xs" and "units ((h_size s)(hp := n)) xs = units (h_size s) xs"
proof -
  have "hp \<notin> set xs" "hp \<noteq> base" using assms ordered_pos [of "h_size s" base xs hp] by (auto simp: heap_list_def)
  then show "heap_list lim base (set_size hp n (s\<lparr>brk := b\<rparr>)) xs" "units ((h_size s)(hp := n)) xs = units (h_size s) xs"
    using assms(1) by (auto simp: heap_list_def set_size_def ordered_upd units_upd)
qed

lemma morecore_law:
  assumes h: "heap_list (unat (brk s) div 8) base s xs" "unat (brk s) mod 8 = 0" "base < unat (brk s) div 8" "unat (brk s) \<le> USERTOP"
    and g: "within_usertop grant" and nu: "unat nu < 2 ^ 28"
  shows "run (morecore grant nu) s (\<lambda>r s'. case r of None \<Rightarrow> s' = s
    | Some p \<Rightarrow> \<exists>xs'. heap_list (unat (brk s') div 8) base s' xs' \<and> freep s' = Some p \<and> unat (brk s') mod 8 = 0 \<and> unat (brk s) \<le> unat (brk s') \<and>
        unat (brk s') \<le> USERTOP \<and> units (h_size s') xs' = units (h_size s) xs \<union> {unat (brk s) div 8..<unat (brk s') div 8} \<and>
        (\<exists>x\<in>set xs'. nu \<le> h_size s' x) \<and> (\<forall>y. y \<notin> set xs \<and> y < unat (brk s) div 8 \<longrightarrow> h_size s' y = h_size s y))"
proof -
  define m where "m = (if nu < 4096 then 4096 else nu)"
  have m: "0 < unat m" "unat m < 2 ^ 28" "nu \<le> m" using nu by (auto simp: m_def word_less_nat_alt word_le_nat_alt)
  have m8: "unat (m * 8) = unat m * 8" using m(2) by (simp add: unat_word_ariths)
  then have sm: "sint (m * 8) = int (unat m * 8)" using m(2) by (subst sint_small) simp_all
  let ?hp = "unat (brk s) div 8" let ?b = "brk s + m * 8"
  show ?thesis
  proof (cases "grant (brk s) (int (unat m * 8))")
    case False
    then show ?thesis unfolding morecore_def Let_def m_def [symmetric] sm run_bnd_iff by (simp add: sbrk_def run_def)
  next
    case True
    have "0 < int (unat m * 8)" using m(1) by linarith
    then have "int (unat (brk s)) + int (unat m * 8) \<le> int USERTOP" using g True unfolding within_usertop_def by blast
    then have top: "unat (brk s) + unat m * 8 \<le> USERTOP" by linarith
    then have b: "unat ?b = unat (brk s) + unat m * 8" by (simp add: unat_word_ariths m8)
    then have bd: "unat ?b div 8 = ?hp + unat m" "unat ?b mod 8 = 0" using h(2) by auto
    define s1 where "s1 = set_size ?hp m (s\<lparr>brk := ?b\<rparr>)"
    have hs1: "h_size s1 = (h_size s)(?hp := m)" "brk s1 = ?b" by (simp_all add: s1_def set_size_def)
    note new = heap_list_new(1) [OF h(1) order_refl h(3), of m ?b, folded s1_def] heap_list_new(2) [OF h(1) order_refl h(3), of m]
    have un: "{?hp..<?hp + unat m} \<inter> units (h_size s) xs = {}" using h(1) by (fastforce simp: heap_list_def units_mem)
    have "run (free (?hp + 1)) s1 (\<lambda>_ s'. \<exists>xs'. heap_list (unat ?b div 8) base s' xs' \<and> brk s' = brk s1 \<and>
        units (h_size s') xs' = units (h_size s1) xs \<union> {?hp..<?hp + unat (h_size s1 ?hp)} \<and>
        (\<exists>x\<in>set xs'. unat (h_size s1 ?hp) \<le> unat (h_size s' x)) \<and> (\<forall>y. y \<notin> insert ?hp (set xs) \<longrightarrow> h_size s' y = h_size s1 y))"
      using top un m(1) h(3) b bd by (intro free_law heap_list_mono [OF new(1)]) (auto simp: hs1 new(2))
    then obtain s2 xs' where s2: "free (?hp + 1) s1 = Ret ((), s2)" "heap_list (unat ?b div 8) base s2 xs'" "brk s2 = ?b"
        "units (h_size s2) xs' = units (h_size s) xs \<union> {?hp..<?hp + unat m}" "\<exists>x\<in>set xs'. unat m \<le> unat (h_size s2 x)"
        "\<forall>y. y \<notin> insert ?hp (set xs) \<longrightarrow> h_size s2 y = h_size s1 y"
      by (auto simp: run_def hs1 new(2))
    obtain p where p: "freep s2 = Some p" using s2(2) by (auto simp: heap_list_def)
    have nb: "brk s \<noteq> -1" using h(4) by (auto simp: unsigned_minus_1_eq_mask mask_eq_exp_minus_1)
    have "\<exists>x\<in>set xs'. nu \<le> h_size s2 x" using s2(5) m(3) by (meson order_trans word_le_nat_alt)
    moreover have "\<forall>y. y \<notin> set xs \<and> y < ?hp \<longrightarrow> h_size s2 y = h_size s y" using s2(6) by (simp add: hs1)
    moreover have "of_int (int (unat m * 8)) = m * 8" by simp
    then have "morecore grant nu s = Ret (Some p, s2)"
      unfolding morecore_def Let_def m_def [symmetric] sm using True nb s2(1) p by (simp add: sbrk_def s1_def set_size_def)
    moreover have "unat (brk s2) div 8 = ?hp + unat m" "unat (brk s2) mod 8 = 0" "unat (brk s2) = unat (brk s) + unat m * 8"
      using s2(3) b bd by simp_all
    ultimately show ?thesis unfolding run_def using s2(2,4) p top bd(1)
      by (intro exI [of _ "Some p"] exI [of _ s2] conjI) (simp_all, intro exI [of _ xs'], simp add: add.commute)
  qed
qed

definition malloc_post :: "nat \<Rightarrow> heap \<Rightarrow> nat set \<Rightarrow> u32 \<Rightarrow> nat option \<Rightarrow> heap \<Rightarrow> bool" where
  "malloc_post base s F nunits r s' \<longleftrightarrow> (\<forall>y. y \<notin> F \<and> y \<noteq> base \<and> y < unat (brk s) div 8 \<longrightarrow> h_size s' y = h_size s y) \<and>
     (case r of
        None \<Rightarrow> brk s' = brk s \<and> heap_inv base s' F
      | Some ap \<Rightarrow> \<exists>bp F'. ap = bp + 1 \<and> unat (brk s) \<le> unat (brk s') \<and> F' = F \<union> {unat (brk s) div 8..<unat (brk s') div 8} \<and>
          {bp..<bp + unat nunits} \<subseteq> F' \<and> h_size s' bp = nunits \<and> heap_inv base s' (F' - {bp..<bp + unat nunits}))"

lemma units_headers: "ordered sz a xs \<Longrightarrow> set xs \<subseteq> units sz xs"
  using ordered_pos by (fastforce simp: units_mem)

lemma round_found:
  assumes h: "heap_list lim base s xs" and f: "freep s = Some f" and x: "\<exists>x\<in>set xs. nunits \<le> h_size s x" and n: "0 < unat nunits" and fuel: "length xs < fuel"
  shows "run (malloc_loop grant fuel nunits f (h_ptr s f)) s (\<lambda>r s'. \<exists>xs' bp. r = Some (bp + 1) \<and> heap_list lim base s' xs' \<and> brk s' = brk s \<and> h_size s' bp = nunits \<and>
    {bp..<bp + unat nunits} \<subseteq> units (h_size s) xs \<and> units (h_size s') xs' = units (h_size s) xs - {bp..<bp + unat nunits} \<and>
    (\<forall>y. y \<notin> units (h_size s) xs \<longrightarrow> h_size s' y = h_size s y))" (is "run _ s ?Q")
proof -
  have pa: "path (h_ptr s) base xs base" "distinct (base # xs)" "f \<in> set (base # xs)"
    using h f ordered_distinct by (auto simp: heap_list_def)
  obtain ws where ws: "path (h_ptr s) f ws f" "set (ws @ [f]) = set (base # xs)" "f \<notin> set ws" "length ws = length xs"
    by (rule path_rotate [OF pa(1,3,2)])
  have hd: "hd (ws @ [f]) = h_ptr s f" using ws(1) by (cases ws) auto
  obtain k where k: "fuel = length ws + Suc k" using fuel ws(4) by (metis less_iff_Suc_add add_Suc_right)
  have "\<exists>x\<in>set (ws @ [f]). nunits \<le> h_size s x" using x ws(2) by auto
  then have "\<not> (\<forall>x\<in>set (ws @ [f]). h_size s x < nunits)" by (meson not_le)
  then obtain q p where qp: "h_ptr s q = p" "q \<in> set (f # ws)" "p \<in> set (ws @ [f])" "nunits \<le> h_size s p"
      "malloc_loop grant fuel nunits f (h_ptr s f) s = bnd (take_block nunits q p) (\<lambda>r. ret (Some r)) s"
    using malloc_scan [OF ws(1) f ws(3), of nunits grant k] unfolding k hd by blast
  have "q \<in> set (base # xs)" "p \<in> set (base # xs)" using qp(2,3) ws(2) by auto
  then have "run (bnd (take_block nunits q p) (\<lambda>r. ret (Some r))) s ?Q"
    by (intro run_bnd [OF take_block_law [OF h _ qp(1) _ n qp(4)]]) auto
  then show ?thesis by (simp only: run_def qp(5))
qed

lemma malloc_loop_law:
  assumes h: "heap_list (unat (brk s) div 8) base s xs" "unat (brk s) mod 8 = 0" "base < unat (brk s) div 8" "unat (brk s) \<le> USERTOP"
    and f: "freep s = Some f" and g: "within_usertop grant" and nu: "unat nunits < 2 ^ 28" "0 < unat nunits"
  shows "run (malloc_loop grant (2 ^ 31) nunits f (h_ptr s f)) s (malloc_post base s (units (h_size s) xs) nunits)"
proof (cases "\<exists>x\<in>set xs. nunits \<le> h_size s x")
  case True
  have "length xs < 2 ^ 31" using ordered_length [of "h_size s" base xs "unat (brk s) div 8"] h by (auto simp: heap_list_def)
  show ?thesis
    by (rule run_weaken [OF round_found [OF h(1) f True nu(2) \<open>length xs < 2 ^ 31\<close>]])
       (use h(2-4) in \<open>auto simp: malloc_post_def heap_inv_def heap_list_def\<close>)
next
  case False
  have o: "ordered (h_size s) base xs" "length xs \<le> USERTOP" and b0: "h_size s base = 0"
    using ordered_length [of "h_size s" base xs "unat (brk s) div 8"] h by (auto simp: heap_list_def)
  have pa: "path (h_ptr s) base xs base" "distinct (base # xs)" "f \<in> set (base # xs)" using h(1) f ordered_distinct by (auto simp: heap_list_def)
  obtain ws where ws: "path (h_ptr s) f ws f" "set (ws @ [f]) = set (base # xs)" "f \<notin> set ws" "length ws = length xs"
    by (rule path_rotate [OF pa(1,3,2)])
  have hd: "hd (ws @ [f]) = h_ptr s f" using ws(1) by (cases ws) auto
  define k where "k = 2 ^ 31 - Suc (length xs)"
  have k: "2 ^ 31 = length ws + Suc k" "USERTOP < k" using o(2) ws(4) by (auto simp: k_def)
  have lt: "\<not> nunits \<le> h_size s x" if "x \<in> set (ws @ [f])" for x
    using that False b0 nu(2) unfolding ws(2) by (auto simp: word_le_nat_alt)
  have loop: "malloc_loop grant (2 ^ 31) nunits f (h_ptr s f) s = bnd (morecore grant nunits) (\<lambda>r. case r of
      None \<Rightarrow> ret None | Some p \<Rightarrow> bnd (gets (\<lambda>s. h_ptr s p)) (\<lambda>q. malloc_loop grant k nunits p q)) s"
    using malloc_scan [OF ws(1) f ws(3), of nunits grant k] unfolding k(1) hd
    by (elim disjE exE conjE) (erule (1) notE [OF lt], assumption)
  have "run (bnd (morecore grant nunits) (\<lambda>r. case r of
      None \<Rightarrow> ret None | Some p \<Rightarrow> bnd (gets (\<lambda>s. h_ptr s p)) (\<lambda>q. malloc_loop grant k nunits p q))) s (malloc_post base s (units (h_size s) xs) nunits)"
  proof (rule run_bnd [OF morecore_law [OF h g nu(1)]], goal_cases)
    case (1 r s1)
    show ?case
    proof (cases r)
      case None
      then show ?thesis using 1 h f by (auto simp: malloc_post_def heap_inv_def)
    next
      case (Some p)
      from 1 [unfolded Some option.case] obtain xs1 where s1: "heap_list (unat (brk s1) div 8) base s1 xs1" "freep s1 = Some p" "unat (brk s1) mod 8 = 0" "unat (brk s) \<le> unat (brk s1)"
          "unat (brk s1) \<le> USERTOP" "units (h_size s1) xs1 = units (h_size s) xs \<union> {unat (brk s) div 8..<unat (brk s1) div 8}"
          "\<exists>x\<in>set xs1. nunits \<le> h_size s1 x" "\<forall>y. y \<notin> set xs \<and> y < unat (brk s) div 8 \<longrightarrow> h_size s1 y = h_size s y" by (elim exE conjE) (rule that; assumption)
      have "length xs1 < k" using ordered_length [of "h_size s1" base xs1 "unat (brk s1) div 8"] s1(1,5) k(2) by (auto simp: heap_list_def)
      have le: "unat (brk s) div 8 \<le> unat (brk s1) div 8" using s1(4) by (rule div_le_mono)
      show ?thesis unfolding Some option.case run_bnd_iff run_simps
        by (rule run_weaken [OF round_found [OF s1(1,2,7) nu(2) \<open>length xs1 < k\<close>]])
           (use s1 h(3) le units_headers [OF o(1)] in \<open>auto simp: malloc_post_def heap_inv_def heap_list_def\<close>)
    qed
  qed
  then show ?thesis by (simp only: run_def loop)
qed

lemma malloc_law:
  assumes h: "heap_inv base s F" and g: "within_usertop grant" and nu: "unat nunits < 2 ^ 28" "0 < unat nunits" and n: "nunits = (nbytes + 8 - 1) div 8 + 1"
  shows "run (malloc grant base nbytes) s (malloc_post base s F nunits)"
proof (cases "freep s")
  case (Some f)
  then obtain xs where xs: "heap_list (unat (brk s) div 8) base s xs" "units (h_size s) xs = F" using h by (auto simp: heap_inv_def)
  have "run (malloc_loop grant (2 ^ 31) nunits f (h_ptr s f)) s (malloc_post base s (units (h_size s) xs) nunits)"
    using h by (intro malloc_loop_law [OF xs(1) _ _ _ Some g nu]) (auto simp: heap_inv_def)
  then show ?thesis unfolding malloc_def n [symmetric] Let_def run_bnd_iff run_simps Some by (simp add: xs(2))
next
  case None
  let ?s = "set_size base 0 (set_ptr base base s)\<lparr>freep := Some base\<rparr>"
  have hi: "F = {}" "unat (brk s) mod 8 = 0" "base < unat (brk s) div 8" "unat (brk s) \<le> USERTOP" using h None by (simp_all add: heap_inv_def)
  have s: "brk ?s = brk s" "freep ?s = Some base" "h_ptr ?s base = base" by (simp_all add: set_size_def set_ptr_def)
  have "heap_list (unat (brk ?s) div 8) base ?s []" by (simp add: heap_list_def set_size_def set_ptr_def)
  then have "run (malloc_loop grant (2 ^ 31) nunits base (h_ptr ?s base)) ?s (malloc_post base ?s (units (h_size ?s) []) nunits)"
    using hi by (intro malloc_loop_law [OF _ _ _ _ s(2) g nu]) (auto simp: s(1))
  then have "run (malloc_loop grant (2 ^ 31) nunits base (h_ptr ?s base)) ?s (malloc_post base s F nunits)"
    by (rule run_weaken) (auto simp: malloc_post_def hi(1) set_size_def set_ptr_def split: option.splits)
  then show ?thesis unfolding malloc_def n [symmetric] Let_def run_bnd_iff run_simps None by (simp add: run_bnd_iff)
qed

lemma nunits_law:
  assumes "unat nbytes < 2 ^ 30"
  shows "unat ((nbytes + 8 - 1) div 8 + 1 :: u32) = (unat nbytes + 7) div 8 + 1"
proof -
  have "unat (nbytes + 8 - 1) = unat nbytes + 7" using assms by (simp add: unat_word_ariths)
  then have "unat ((nbytes + 8 - 1) div 8) = (unat nbytes + 7) div 8" by (simp add: unat_div)
  then show ?thesis using assms by (simp add: unat_word_ariths)
qed

section \<open>Properties\<close>

text \<open>C0. \<open>malloc\<close> of any reasonable size, with the free units \<open>F\<close>, always returns. When it returns a pointer, the header in front of it
  and the block behind it are units that were free or have just been got from the kernel, the block has room for the bytes
  asked for, its header says its size, exactly these units have left the free list, and no header of another allocated block has changed;
  when it returns the null pointer the free units are what they were. The list stays sorted, circular and without
  adjacent blocks.\<close>

theorem malloc_correct:
  assumes "heap_inv base s F" and "within_usertop grant" and "unat nbytes < 2 ^ 30" and "n = (unat nbytes + 7) div 8 + 1"
  shows "run (malloc grant base nbytes) s (\<lambda>r s'. (\<forall>y. y \<notin> F \<and> y \<noteq> base \<and> y < unat (brk s) div 8 \<longrightarrow> h_size s' y = h_size s y) \<and>
    (case r of
       None \<Rightarrow> heap_inv base s' F
     | Some ap \<Rightarrow> \<exists>bp F'. ap = bp + 1 \<and> F' = F \<union> {unat (brk s) div 8..<unat (brk s') div 8} \<and> {bp..<bp + n} \<subseteq> F' \<and>
         unat nbytes \<le> 8 * (n - 1) \<and> unat (h_size s' bp) = n \<and> heap_inv base s' (F' - {bp..<bp + n})))"
proof -
  define nunits :: u32 where "nunits = (nbytes + 8 - 1) div 8 + 1"
  have n: "unat nunits = n" using nunits_law [OF assms(3)] assms(4) by (simp add: nunits_def)
  have "unat nunits < 2 ^ 28" "0 < unat nunits" "unat nbytes \<le> 8 * (n - 1)" using assms(3,4) n by auto
  then show ?thesis
    by (intro run_weaken [OF malloc_law [OF assms(1,2) _ _ nunits_def]]) (auto simp: malloc_post_def n [symmetric] split: option.splits)
qed

text \<open>The heap of a process before its first call: four pages, the static variable in one of them.\<close>

definition fresh_heap :: heap where
  "fresh_heap = \<lparr>h_ptr = (\<lambda>_. 0), h_size = (\<lambda>_. 0), freep = None, brk = 16384\<rparr>"

definition small_grant :: "u32 \<Rightarrow> int \<Rightarrow> bool" where
  "small_grant b n \<longleftrightarrow> 0 < n \<and> int (unat b) + n \<le> 655360"

lemma fresh_heap_inv: "heap_inv 512 fresh_heap {}" "within_usertop small_grant"
  by (simp_all add: heap_inv_def fresh_heap_def within_usertop_def small_grant_def)

theorem malloc_correct_witness:
  "run (malloc small_grant 512 100) fresh_heap (\<lambda>r s'. case r of None \<Rightarrow> heap_inv 512 s' {}
     | Some ap \<Rightarrow> \<exists>bp. ap = bp + 1 \<and> {bp..<bp + 14} \<subseteq> {2048..<unat (brk s') div 8} \<and> unat (h_size s' bp) = 14)"
  by (rule run_weaken [OF malloc_correct [OF fresh_heap_inv, of 100 14]]) (auto simp: fresh_heap_def split: option.splits)

text \<open>C0. \<open>free\<close> of an allocated block: the call returns, the free units become exactly the old ones and those of the block, so that
  \<open>free\<close> undoes \<open>malloc\<close>; the list stays sorted, circular and coalesced, and the headers of the blocks still allocated are
  untouched.\<close>

theorem free_correct:
  assumes "heap_inv base s F" and "freep s \<noteq> None" and "base < bp" and "0 < unat (h_size s bp)" and "bp + unat (h_size s bp) \<le> unat (brk s) div 8"
    and "{bp..<bp + unat (h_size s bp)} \<inter> F = {}"
  shows "run (free (bp + 1)) s (\<lambda>_ s'. heap_inv base s' (F \<union> {bp..<bp + unat (h_size s bp)}) \<and>
    (\<forall>y. y \<notin> F \<and> y \<noteq> bp \<longrightarrow> h_size s' y = h_size s y))"
proof -
  obtain xs where xs: "heap_list (unat (brk s) div 8) base s xs" "units (h_size s) xs = F" using assms(1,2) by (auto simp: heap_inv_def)
  have lim: "unat (brk s) div 8 \<le> 2 ^ 29" using assms(1) by (auto simp: heap_inv_def)
  have hd: "set xs \<subseteq> F" using units_headers [of "h_size s" base xs] xs by (auto simp: heap_list_def)
  show ?thesis
    by (rule run_weaken [OF free_law [OF xs(1) lim assms(3-5)]])
       (use assms(1,6) xs(2) hd in \<open>auto simp: heap_inv_def heap_list_def\<close>)
qed

theorem free_correct_witness:
  "run (free 3001) (fresh_heap\<lparr>freep := Some 512, h_ptr := (\<lambda>_. 512), h_size := (\<lambda>_. 0)(3000 := 10), brk := 65536\<rparr>) (\<lambda>_ s'. heap_inv 512 s' {3000..<3010})"
proof -
  let ?s = "fresh_heap\<lparr>freep := Some 512, h_ptr := (\<lambda>_. 512), h_size := (\<lambda>_. 0)(3000 := 10), brk := 65536\<rparr>"
  have "heap_inv 512 ?s {}" by (auto simp: heap_inv_def heap_list_def intro!: exI [of _ "[]"])
  from run_weaken [OF free_correct [OF this, of 3000]] show ?thesis by simp
qed

text \<open>The size computation wraps around: for the seven largest sizes \<open>malloc\<close> returns a block without room for a single byte.\<close>

lemma malloc_huge_wraps: "k \<in> {1..7} \<Longrightarrow> malloc grant base (- k) = malloc grant base 0"
proof -
  assume k: "k \<in> {1..7}"
  have "(- k + 8 - 1) div 8 = (0 :: u32)"
  proof -
    have "- k + 8 - 1 = 7 - k" by simp
    moreover have "7 - k < 8" using k by (auto simp: word_le_nat_alt word_less_nat_alt unat_sub)
    then have "(7 - k) div 8 = 0" by (simp add: word_arith_nat_div word_less_nat_alt)
    ultimately show ?thesis by simp
  qed
  then show ?thesis by (simp add: malloc_def)
qed

end
