(* ===== verification/Console.thy ===== *)
theory Console
  imports File
begin

unbundle bit_operations_syntax

text \<open>
  The console, \<open>kernel/console.c\<close>: formatted output, the text screen, and the line editing of the keyboard input. The
  serial port is a list of the bytes sent (\<open>uartputc\<close> of \<open>kernel/uart.c\<close> without its wait), the screen the array at
  \<open>0xb8000\<close> and the cursor registers. A call of \<open>wakeup(&input.r)\<close> is counted in \<open>woken\<close>; the process
  listing of \<open>^P\<close> is a parameter. A read that would sleep does not return in \<open>consoleread\<close>; \<open>consoleread_from\<close> is one run of
  a reader between two sleeps. The abstract line editor is at the end.
\<close>

section \<open>State\<close>

abbreviation INPUT_BUF :: nat where "INPUT_BUF \<equiv> 128"
abbreviation BACKSPACE :: int where "BACKSPACE \<equiv> 0x100"

record screen =
  crt :: "int \<Rightarrow> u16"
  cursor :: u16

record input =
  in_buf :: bytes
  in_r :: u32
  in_w :: u32
  in_e :: u32

record console =
  panicked :: bool
  uart :: bool
  uart_out :: "u8 list"
  scr :: screen
  inp :: input
  woken :: nat

section \<open>Output\<close>

definition uartputc :: "u8 \<Rightarrow> (console, unit) km" where
  "uartputc c = modify (\<lambda>s. if uart s then s\<lparr>uart_out := uart_out s @ [c]\<rparr> else s)"

text \<open>Scrolling by a line. For a position beyond the last line the length of the \<open>memset\<close> would be negative, that is, nearly all of
  memory: \<open>None\<close>.\<close>

definition cga_scroll :: "int \<Rightarrow> (int \<Rightarrow> u16) \<Rightarrow> (int \<times> (int \<Rightarrow> u16)) option" where
  "cga_scroll pos m =
     (if pos div 80 \<ge> 24 then
        let m = (\<lambda>i. if 0 \<le> i \<and> i < 23 * 80 then m (i + 80) else m i);
            pos = pos - 80
        in if pos \<le> 24 * 80 then Some (pos, \<lambda>i. if pos \<le> i \<and> i < 24 * 80 then 0 else m i) else None
      else Some (pos, m))"

definition cgaputc :: "int \<Rightarrow> screen \<Rightarrow> screen option" where
  "cgaputc c s =
     (let pos = uint (cursor s);
          (pos, m) = (if c = 10 then (pos + (80 - pos mod 80), crt s)
                      else if c = BACKSPACE then (if pos > 0 then pos - 1 else pos, crt s)
                      else (pos + 1, (crt s)(pos := of_int (c mod 256) OR 0x0700)))
      in case cga_scroll pos m of
           None \<Rightarrow> None
         | Some (pos, m) \<Rightarrow> Some \<lparr>crt = m(pos := 32 OR 0x0700), cursor = of_int pos\<rparr>)"

definition consputc :: "int \<Rightarrow> (console, unit) km" where
  "consputc c =
     bnd (gets panicked) (\<lambda>p.
     if p then sleep_forever
     else
       seq (if c = BACKSPACE then seq (uartputc 8) (seq (uartputc 32) (uartputc 8)) else uartputc (of_int c))
       (bnd (gets (\<lambda>s. cgaputc c (scr s))) (\<lambda>r.
       case r of
         None \<Rightarrow> fault
       | Some d \<Rightarrow> modify (\<lambda>s. s\<lparr>scr := d\<rparr>))))"

definition cons_digits :: "u8 list" where
  "cons_digits = [48, 49, 50, 51, 52, 53, 54, 55, 56, 57, 97, 98, 99, 100, 101, 102, 0]"

text \<open>The digits of \<open>x\<close>, lowest first, into what is left of the 16 bytes of \<open>buf\<close>.\<close>

fun cons_digits_loop :: "nat \<Rightarrow> u32 \<Rightarrow> u32 \<Rightarrow> u8 list res" where
  "cons_digits_loop 0 x base = Fault"
| "cons_digits_loop (Suc left) x base =
     rbind (arr_get cons_digits (uint (x mod base))) (\<lambda>d.
     rbind (if x div base \<noteq> 0 then cons_digits_loop left (x div base) base else Ret []) (\<lambda>ds.
     Ret (d # ds)))"

definition lift_res :: "'a res \<Rightarrow> ('s, 'a) km" where
  "lift_res r = (\<lambda>s. rbind r (\<lambda>a. Ret (a, s)))"

fun cons_puts :: "u8 list \<Rightarrow> (console, unit) km" where
  "cons_puts [] = ret ()"
| "cons_puts (c # cs) = seq (consputc (uint c)) (cons_puts cs)"

definition cons_printint :: "u32 \<Rightarrow> u32 \<Rightarrow> bool \<Rightarrow> (console, unit) km" where
  "cons_printint xx base sign =
     (let neg = (sign \<and> sint xx < 0); x = (if neg then - xx else xx) in
      bnd (lift_res (cons_digits_loop 16 x base)) (\<lambda>buf.
      if neg then (if length buf < 16 then cons_puts (rev (buf @ [45])) else fault)
      else cons_puts (rev buf)))"

text \<open>\<open>args\<close> are the words behind \<open>fmt\<close> on the stack, \<open>argp\<close> the index of the next one, \<open>strs p\<close> the string at \<open>p\<close>.\<close>

fun cprintf_loop :: "(u32 \<Rightarrow> u8 list) \<Rightarrow> (nat \<Rightarrow> u32) \<Rightarrow> u8 list \<Rightarrow> nat \<Rightarrow> (console, unit) km" where
  "cprintf_loop strs args [] argp = ret ()"
| "cprintf_loop strs args [c] argp = (if c = 0 \<or> c = 37 then ret () else consputc (uint c))"
| "cprintf_loop strs args (c # d # fmt) argp =
     (if c = 0 then ret ()
      else if c \<noteq> 37 then seq (consputc (uint c)) (cprintf_loop strs args (d # fmt) argp)
      else if d = 0 then ret ()
      else if d = 100 then seq (cons_printint (args argp) 10 True) (cprintf_loop strs args fmt (Suc argp))
      else if d = 120 \<or> d = 112 then seq (cons_printint (args argp) 16 False) (cprintf_loop strs args fmt (Suc argp))
      else if d = 115 then
        seq (cons_puts (if args argp = 0 then [40, 110, 117, 108, 108, 41] else takeWhile (\<lambda>c. c \<noteq> 0) (strs (args argp))))
        (cprintf_loop strs args fmt (Suc argp))
      else if d = 37 then seq (consputc 37) (cprintf_loop strs args fmt argp)
      else seq (consputc 37) (seq (consputc (uint d)) (cprintf_loop strs args fmt argp)))"

definition cprintf :: "(u32 \<Rightarrow> u8 list) \<Rightarrow> u8 list \<Rightarrow> (nat \<Rightarrow> u32) \<Rightarrow> (console, unit) km" where
  "cprintf strs fmt args = cprintf_loop strs args fmt 0"

section \<open>Input\<close>

definition upd_inp :: "(input \<Rightarrow> input) \<Rightarrow> (console, unit) km" where
  "upd_inp f = modify (\<lambda>s. s\<lparr>inp := f (inp s)\<rparr>)"

definition in_last :: "input \<Rightarrow> u8" where
  "in_last i = in_buf i (unat (in_e i - 1) mod INPUT_BUF)"

text \<open>Erasing the line. At most \<open>in_e - in_w\<close> characters are erased; the fuel is one more, for the test that ends the loop.\<close>

fun kill_line :: "nat \<Rightarrow> (console, unit) km" where
  "kill_line 0 = sleep_forever"
| "kill_line (Suc n) =
     bnd (gets inp) (\<lambda>i.
     if in_e i \<noteq> in_w i \<and> in_last i \<noteq> 10 then
       seq (upd_inp (\<lambda>i. i\<lparr>in_e := in_e i - 1\<rparr>))
       (seq (consputc BACKSPACE)
       (kill_line n))
     else ret ())"

text \<open>Storing and echoing a character; the end of a line, or a full buffer, hands the text to the readers.\<close>

definition store_char :: "u8 \<Rightarrow> (console, unit) km" where
  "store_char c =
     seq (upd_inp (\<lambda>i. i\<lparr>in_buf := (in_buf i)(unat (in_e i) mod INPUT_BUF := c), in_e := in_e i + 1\<rparr>))
     (seq (consputc (uint c))
     (bnd (gets inp) (\<lambda>i.
     if c = 10 \<or> c = 4 \<or> in_e i = in_r i + 128 then
       seq (upd_inp (\<lambda>i. i\<lparr>in_w := in_e i\<rparr>))
       (modify (\<lambda>s. s\<lparr>woken := woken s + 1\<rparr>))
     else ret ())))"

definition intr_char :: "(console, unit) km \<Rightarrow> u8 \<Rightarrow> (console, unit) km" where
  "intr_char procdump c =
     bnd (gets inp) (\<lambda>i.
     if c = 16 then procdump
     else if c = 21 then kill_line (Suc (unat (in_e i - in_w i)))
     else if c = 8 \<or> c = 127 then
       if in_e i \<noteq> in_w i then seq (upd_inp (\<lambda>i. i\<lparr>in_e := in_e i - 1\<rparr>)) (consputc BACKSPACE) else ret ()
     else if c \<noteq> 0 \<and> in_e i - in_r i < 128 then store_char (if c = 13 then 10 else c)
     else ret ())"

text \<open>The characters are what \<open>getc\<close> returns until it is negative.\<close>

fun consoleintr :: "(console, unit) km \<Rightarrow> u8 list \<Rightarrow> (console, unit) km" where
  "consoleintr procdump [] = ret ()"
| "consoleintr procdump (c # cs) = seq (intr_char procdump c) (consoleintr procdump cs)"

datatype cres = CDone "u8 list" | CFail | CSleep "u8 list"

text \<open>A reader that asked for \<open>target\<close> bytes, has got \<open>got\<close> and wants \<open>n\<close> more.\<close>

fun consoleread_from :: "bool \<Rightarrow> nat \<Rightarrow> u8 list \<Rightarrow> nat \<Rightarrow> input \<Rightarrow> cres \<times> input" where
  "consoleread_from killed target got 0 i = (CDone got, i)"
| "consoleread_from killed target got (Suc n) i =
     (if in_r i = in_w i then (if killed then CFail else CSleep got, i)
      else
        let c = in_buf i (unat (in_r i) mod INPUT_BUF); j = i\<lparr>in_r := in_r i + 1\<rparr> in
        if c = 4 then (CDone got, if Suc n < target then j\<lparr>in_r := in_r j - 1\<rparr> else j)
        else if c = 10 then (CDone (got @ [c]), j)
        else consoleread_from killed target (got @ [c]) n j)"

record kcons = kstate +
  k_cons :: console

definition with_cons :: "(console, 'b) km \<Rightarrow> ('a kcons_scheme, 'b) km" where
  "with_cons m = (\<lambda>s. rbind (m (k_cons s)) (\<lambda>(a, k). Ret (a, s\<lparr>k_cons := k\<rparr>)))"

definition consoleread :: "nat \<Rightarrow> u32 \<Rightarrow> ('a kcons_scheme, int \<times> u8 list) km" where
  "consoleread ip n =
     seq (iunlock ip)
     (bnd (gets (\<lambda>s. consoleread_from (u_killed (k_proc s)) (nat (sint n)) [] (nat (sint n)) (inp (k_cons s)))) (\<lambda>(r, i).
     seq (with_cons (upd_inp (\<lambda>_. i)))
     (case r of
        CSleep _ \<Rightarrow> sleep_forever
      | CFail \<Rightarrow> seq (ilock ip) (ret (-1, []))
      | CDone bs \<Rightarrow> seq (ilock ip) (ret (int (length bs), bs)))))"

definition consolewrite :: "nat \<Rightarrow> bytes \<Rightarrow> u32 \<Rightarrow> ('a kcons_scheme, int) km" where
  "consolewrite ip buf n =
     seq (iunlock ip)
     (seq (with_cons (cons_puts (rd buf 0 (nat (sint n)))))
     (seq (ilock ip)
     (ret (sint n))))"

text \<open>The device switch after \<open>consoleinit\<close>.\<close>

definition consoleinit :: "('a kcons_scheme) devtab" where
  "consoleinit = (\<lambda>_. \<lparr>dev_read = None, dev_write = None\<rparr>)(1 := \<lparr>dev_read = Some consoleread, dev_write = Some consolewrite\<rparr>)"

section \<open>The line editor\<close>

text \<open>What the input is: the text that readers may take, and the line being edited.\<close>

type_synonym lines = "u8 list \<times> u8 list"

definition typed :: "u8 \<Rightarrow> lines \<Rightarrow> lines" where
  "typed c = (\<lambda>(C, P).
     if c = 16 then (C, P)
     else if c = 21 then (C, [])
     else if c = 8 \<or> c = 127 then (C, butlast P)
     else if c \<noteq> 0 \<and> length C + length P < INPUT_BUF then
       let c = (if c = 13 then 10 else c) in
       if c = 10 \<or> c = 4 \<or> length C + length P + 1 = INPUT_BUF then (C @ P @ [c], []) else (C, P @ [c])
     else (C, P))"

text \<open>What a reader does with the text: it takes up to \<open>n\<close> characters, not beyond the end of a line; \<open>^D\<close> ends a read and is kept for
  the next one if something was read.\<close>

fun line_read :: "bool \<Rightarrow> nat \<Rightarrow> u8 list \<Rightarrow> nat \<Rightarrow> u8 list \<Rightarrow> cres \<times> u8 list" where
  "line_read killed target got 0 C = (CDone got, C)"
| "line_read killed target got (Suc n) [] = (if killed then CFail else CSleep got, [])"
| "line_read killed target got (Suc n) (c # C) =
     (if c = 4 then (CDone got, if Suc n < target then c # C else C)
      else if c = 10 then (CDone (got @ [c]), C)
      else line_read killed target (got @ [c]) n C)"

definition text_of :: "input \<Rightarrow> lines" where
  "text_of i = (seg INPUT_BUF (in_buf i) (in_r i) (in_w i), seg INPUT_BUF (in_buf i) (in_w i) (in_e i))"

definition input_ok :: "input \<Rightarrow> bool" where
  "input_ok i \<longleftrightarrow> unat (in_e i - in_r i) = unat (in_w i - in_r i) + unat (in_e i - in_w i) \<and> unat (in_e i - in_r i) \<le> INPUT_BUF \<and>
     10 \<notin> set (snd (text_of i))"

lemma ring_size_128: "ring_size INPUT_BUF"
  by (simp add: ring_size_def)

lemma lengths: "length (fst (text_of i)) = unat (in_w i - in_r i)" "length (snd (text_of i)) = unat (in_e i - in_w i)"
  by (simp_all add: text_of_def)

lemma in_r_step:
  assumes "input_ok i" and "in_r i \<noteq> in_w i"
  shows "input_ok (i\<lparr>in_r := in_r i + 1\<rparr>)" and "text_of i = (in_buf i (unat (in_r i) mod INPUT_BUF) # fst (text_of (i\<lparr>in_r := in_r i + 1\<rparr>)), snd (text_of i))"
    and "snd (text_of (i\<lparr>in_r := in_r i + 1\<rparr>)) = snd (text_of i)"
proof -
  have e: "in_r i \<noteq> in_e i" using assms unat_diff_pred [OF assms(2)] by (auto simp: input_ok_def)
  show "input_ok (i\<lparr>in_r := in_r i + 1\<rparr>)" using assms unat_diff_pred [OF assms(2)] unat_diff_pred [OF e] by (auto simp: input_ok_def text_of_def)
  show "text_of i = (in_buf i (unat (in_r i) mod INPUT_BUF) # fst (text_of (i\<lparr>in_r := in_r i + 1\<rparr>)), snd (text_of i))"
    using seg_get [OF assms(2), of INPUT_BUF "in_buf i"] by (simp add: text_of_def)
  show "snd (text_of (i\<lparr>in_r := in_r i + 1\<rparr>)) = snd (text_of i)" by (simp add: text_of_def)
qed

lemma consoleread_from_law:
  assumes "input_ok i"
  shows "fst (consoleread_from killed target got n i) = fst (line_read killed target got n (fst (text_of i))) \<and>
    input_ok (snd (consoleread_from killed target got n i)) \<and>
    text_of (snd (consoleread_from killed target got n i)) = (snd (line_read killed target got n (fst (text_of i))), snd (text_of i))"
  using assms
proof (induction n arbitrary: got i)
  case (Suc n)
  show ?case
  proof (cases "in_r i = in_w i")
    case True
    then have "fst (text_of i) = []" by (simp add: text_of_def)
    then show ?thesis using True Suc.prems by (simp add: prod_eq_iff)
  next
    case False
    let ?j = "i\<lparr>in_r := in_r i + 1\<rparr>" let ?c = "in_buf i (unat (in_r i) mod INPUT_BUF)"
    note r = in_r_step [OF Suc.prems False]
    have t: "fst (text_of i) = ?c # fst (text_of ?j)" using r(2) by (metis fst_conv)
    show ?thesis unfolding t using False Suc.prems Suc.IH [OF r(1), of "got @ [?c]"] r(1,3) by (auto simp: Let_def prod_eq_iff t)
  qed
qed (simp add: prod_eq_iff)

text \<open>The cursor stays on the first 24 lines; output leaves the input alone.\<close>

definition con_ok :: "console \<Rightarrow> bool" where
  "con_ok s \<longleftrightarrow> \<not> panicked s \<and> uint (cursor (scr s)) < 24 * 80"

definition same_input :: "console \<Rightarrow> console \<Rightarrow> bool" where
  "same_input s s' \<longleftrightarrow> inp s' = inp s \<and> con_ok s'"

lemma con_ok_inp [simp]: "con_ok (s\<lparr>inp := i\<rparr>) = con_ok s" "con_ok (s\<lparr>woken := n\<rparr>) = con_ok s"
  by (simp_all add: con_ok_def)

text \<open>The position behind a character, before and after scrolling.\<close>

definition cga_next :: "int \<Rightarrow> int \<Rightarrow> int" where
  "cga_next c pos = (if c = 10 then (pos div 80 + 1) * 80 else if c = BACKSPACE then (if pos > 0 then pos - 1 else pos) else pos + 1)"

definition cga_cell :: "int \<Rightarrow> screen \<Rightarrow> int \<Rightarrow> u16" where
  "cga_cell c s = (if c = 10 \<or> c = BACKSPACE then crt s else (crt s)(uint (cursor s) := of_int (c mod 256) OR 0x0700))"

lemma cgaputc_law:
  assumes "uint (cursor s) < 24 * 80"
  shows "cgaputc c s = Some (let p = cga_next c (uint (cursor s)); m = cga_cell c s in
    if p < 24 * 80 then \<lparr>crt = m(p := 32 OR 0x0700), cursor = of_int p\<rparr>
    else \<lparr>crt = (\<lambda>i. if i = p - 80 then 32 OR 0x0700 else if p - 80 < i \<and> i < 24 * 80 then 0 else if 0 \<le> i \<and> i < p - 80 then m (i + 80) else m i),
          cursor = of_int (p - 80)\<rparr>)"
    and "0 \<le> cga_next c (uint (cursor s))" and "cga_next c (uint (cursor s)) \<le> 24 * 80"
proof -
  define pos where "pos = uint (cursor s)"
  have p: "0 \<le> pos" "pos < 1920" "pos + (80 - pos mod 80) = (pos div 80 + 1) * 80"
    using assms minus_mod_eq_div_mult [of pos 80] by (simp_all add: pos_def)
  show 1: "0 \<le> cga_next c (uint (cursor s))" "cga_next c (uint (cursor s)) \<le> 24 * 80"
    using p by (auto simp: cga_next_def simp flip: pos_def)
  define q where "q = cga_next c pos"
  have q: "q \<le> 1920" "0 \<le> q" using 1 by (simp_all add: q_def pos_def)
  have e: "(if c = 10 then (pos + (80 - pos mod 80), crt s) else if c = BACKSPACE then (if pos > 0 then pos - 1 else pos, crt s)
      else (pos + 1, (crt s)(pos := of_int (c mod 256) OR 0x0700))) = (q, cga_cell c s)"
    by (auto simp: q_def cga_next_def cga_cell_def p(3) simp flip: pos_def)
  have d: "q div 80 \<ge> 24 \<longleftrightarrow> q = 1920" using q by auto
  show "cgaputc c s = Some (let p = cga_next c (uint (cursor s)); m = cga_cell c s in
    if p < 24 * 80 then \<lparr>crt = m(p := 32 OR 0x0700), cursor = of_int p\<rparr>
    else \<lparr>crt = (\<lambda>i. if i = p - 80 then 32 OR 0x0700 else if p - 80 < i \<and> i < 24 * 80 then 0 else if 0 \<le> i \<and> i < p - 80 then m (i + 80) else m i),
          cursor = of_int (p - 80)\<rparr>)"
    using q unfolding cgaputc_def Let_def pos_def [symmetric] e q_def [symmetric] by (auto simp: cga_scroll_def d Let_def fun_eq_iff)
qed

lemma cgaputc_inside:
  assumes "uint (cursor s) < 24 * 80"
  obtains s' where "cgaputc c s = Some s'" and "uint (cursor s') < 24 * 80" and "\<And>i. i < 0 \<or> 24 * 80 \<le> i \<Longrightarrow> crt s' i = crt s i"
proof -
  have w: "uint (of_int x :: u16) = x" if "0 \<le> x" "x < 24 * 80" for x using that by (simp add: uint_word_of_int)
  have m: "cga_cell c s i = crt s i" if "i < 0 \<or> 24 * 80 \<le> i" for i
    using that assms uint_ge_0 [of "cursor s"] by (auto simp: cga_cell_def simp del: uint_ge_0)
  note n = cgaputc_law(2,3) [OF assms, of c]
  show thesis
  proof (cases "cga_next c (uint (cursor s)) < 24 * 80")
    case True
    show ?thesis by (rule that, unfold cgaputc_law(1) [OF assms] Let_def, rule refl) (use True n m w in auto)
  next
    case False
    show ?thesis by (rule that, unfold cgaputc_law(1) [OF assms] Let_def, rule refl) (use False n m w in auto)
  qed
qed

lemma consputc_law:
  assumes "con_ok s"
  shows "run (consputc c) s (\<lambda>_ s'. same_input s s')"
proof -
  obtain d where "cgaputc c (scr s) = Some d" "uint (cursor d) < 24 * 80" using assms cgaputc_inside [of "scr s" c] by (metis con_ok_def)
  then show ?thesis using assms by (auto simp: consputc_def uartputc_def run_def same_input_def con_ok_def)
qed

lemma run_upd_inp [simp]: "run (upd_inp f) s P \<longleftrightarrow> P () (s\<lparr>inp := f (inp s)\<rparr>)"
  by (simp add: upd_inp_def)

lemma in_e_back:
  assumes "input_ok i" and "in_e i \<noteq> in_w i"
  shows "input_ok (i\<lparr>in_e := in_e i - 1\<rparr>)" and "text_of (i\<lparr>in_e := in_e i - 1\<rparr>) = (fst (text_of i), butlast (snd (text_of i)))"
    and "in_last i = last (snd (text_of i))" and "unat (in_e i - in_w i) = Suc (unat (in_e i - 1 - in_w i))"
proof -
  have u: "seg INPUT_BUF (in_buf i) (in_w i) (in_e i) = seg INPUT_BUF (in_buf i) (in_w i) (in_e i - 1) @ [in_last i]"
    using seg_unput [of "in_w i" "in_e i" INPUT_BUF "in_buf i"] assms(2) by (simp add: in_last_def)
  then show t: "text_of (i\<lparr>in_e := in_e i - 1\<rparr>) = (fst (text_of i), butlast (snd (text_of i)))" "in_last i = last (snd (text_of i))"
    by (simp_all add: text_of_def)
  show n: "unat (in_e i - in_w i) = Suc (unat (in_e i - 1 - in_w i))" using arg_cong [OF u, of length] by simp
  have "unat (in_e i - in_r i) \<noteq> 0" using assms n by (simp add: input_ok_def)
  then have "in_r i \<noteq> in_e i" by auto
  then have "unat (in_e i - in_r i) = Suc (unat (in_e i - 1 - in_r i))" using unat_diff_pred [of "in_r i" "in_e i"] by (simp add: algebra_simps)
  then show "input_ok (i\<lparr>in_e := in_e i - 1\<rparr>)" using assms(1) n t(1) by (auto simp: input_ok_def dest: in_set_butlastD)
qed

lemma kill_line_law:
  assumes "con_ok s" and "input_ok (inp s)" and "n = unat (in_e (inp s) - in_w (inp s))"
  shows "run (kill_line (Suc n)) s (\<lambda>_ s'. con_ok s' \<and> input_ok (inp s') \<and> text_of (inp s') = (fst (text_of (inp s)), []))"
  using assms
proof (induction n arbitrary: s)
  case 0
  then have "in_e (inp s) = in_w (inp s)" by (metis unat_eq_0 right_minus_eq)
  then show ?case using 0 unfolding kill_line.simps run_bnd_iff [of "gets _"] run_simps by (simp add: text_of_def)
next
  case (Suc n)
  let ?i = "inp s"
  have ne: "in_e ?i \<noteq> in_w ?i" using Suc.prems(3) by auto
  note b = in_e_back [OF Suc.prems(2) ne]
  have "snd (text_of ?i) \<noteq> []" using ne by (simp add: text_of_def)
  then have "in_last ?i \<in> set (snd (text_of ?i))" unfolding b(3) by simp
  then have nl: "in_last ?i \<noteq> 10" using Suc.prems(2) by (auto simp: input_ok_def)
  have "run (seq (consputc BACKSPACE) (kill_line (Suc n))) (s\<lparr>inp := ?i\<lparr>in_e := in_e ?i - 1\<rparr>\<rparr>)
      (\<lambda>_ s'. con_ok s' \<and> input_ok (inp s') \<and> text_of (inp s') = (fst (text_of ?i), []))"
  proof (rule run_bnd [OF consputc_law])
    fix s1
    assume "same_input (s\<lparr>inp := ?i\<lparr>in_e := in_e ?i - 1\<rparr>\<rparr>) s1"
    then have s1: "inp s1 = ?i\<lparr>in_e := in_e ?i - 1\<rparr>" "con_ok s1" using Suc.prems(1) by (simp_all add: same_input_def)
    show "run (kill_line (Suc n)) s1 (\<lambda>_ s'. con_ok s' \<and> input_ok (inp s') \<and> text_of (inp s') = (fst (text_of ?i), []))"
      by (rule run_weaken [OF Suc.IH [OF s1(2)]]) (use b Suc.prems(3) in \<open>auto simp: s1(1)\<close>)
  qed (use Suc.prems(1) in simp)
  then show ?case using ne nl unfolding kill_line.simps(2) [of "Suc n"] run_bnd_iff [of "gets _"] run_simps by (simp add: run_bnd_iff del: kill_line.simps)
qed

text \<open>A character is stored, and the line is handed over.\<close>

lemma in_put:
  fixes i :: input and c :: u8
  assumes ok: "input_ok i" and r: "unat (in_e i - in_r i) < INPUT_BUF"
  defines "j \<equiv> i\<lparr>in_buf := (in_buf i)(unat (in_e i) mod INPUT_BUF := c), in_e := in_e i + 1\<rparr>"
  shows "text_of j = (fst (text_of i), snd (text_of i) @ [c])" and "unat (in_e j - in_r j) = Suc (unat (in_e i - in_r i))"
    and "unat (in_e j - in_r j) = unat (in_w j - in_r j) + unat (in_e j - in_w j)"
    and "seg INPUT_BUF (in_buf j) (in_r j) (in_e j) = fst (text_of i) @ snd (text_of i) @ [c]"
proof -
  let ?b = "(in_buf i)(unat (in_e i) mod INPUT_BUF := c)"
  have le: "unat (in_e i - in_w i) < INPUT_BUF" using ok r by (simp add: input_ok_def)
  have s: "seg INPUT_BUF b (in_r i) (in_e i) = seg INPUT_BUF b (in_r i) (in_w i) @ seg INPUT_BUF b (in_w i) (in_e i)" for b
    using ok by (intro seg_split) (simp add: input_ok_def)
  have p: "seg INPUT_BUF ?b (in_r i) (in_e i + 1) = seg INPUT_BUF (in_buf i) (in_r i) (in_e i) @ [c]" by (rule seg_put [OF ring_size_128 r])
  have q: "seg INPUT_BUF ?b (in_w i) (in_e i + 1) = seg INPUT_BUF (in_buf i) (in_w i) (in_e i) @ [c]" by (rule seg_put [OF ring_size_128 le])
  show u: "unat (in_e j - in_r j) = Suc (unat (in_e i - in_r i))" using arg_cong [OF p, of length] by (simp add: j_def)
  have v: "unat (in_e j - in_w j) = Suc (unat (in_e i - in_w i))" using arg_cong [OF q, of length] by (simp add: j_def)
  show "unat (in_e j - in_r j) = unat (in_w j - in_r j) + unat (in_e j - in_w j)" using u v ok by (simp add: input_ok_def j_def)
  show "seg INPUT_BUF (in_buf j) (in_r j) (in_e j) = fst (text_of i) @ snd (text_of i) @ [c]" using p s by (simp add: j_def text_of_def)
  have "seg INPUT_BUF ?b (in_r i) (in_w i) = seg INPUT_BUF (in_buf i) (in_r i) (in_w i)"
    using ok by (intro seg_put_other [OF ring_size_128 r]) (simp add: input_ok_def)
  then show "text_of j = (fst (text_of i), snd (text_of i) @ [c])" using q by (simp add: text_of_def j_def)
qed

lemma store_char_law:
  assumes np: "con_ok s" and ok: "input_ok (inp s)" and lt: "unat (in_e (inp s) - in_r (inp s)) < INPUT_BUF" and CP: "text_of (inp s) = (C, P)"
  shows "run (store_char c) s (\<lambda>_ s'. con_ok s' \<and> input_ok (inp s') \<and>
    text_of (inp s') = (if c = 10 \<or> c = 4 \<or> length C + length P + 1 = INPUT_BUF then (C @ P @ [c], []) else (C, P @ [c])))"
    (is "run _ s ?Q")
proof -
  define j where "j = (inp s)\<lparr>in_buf := (in_buf (inp s))(unat (in_e (inp s)) mod INPUT_BUF := c), in_e := in_e (inp s) + 1\<rparr>"
  note p = in_put [OF ok lt, of c, folded j_def]
  have "in_e j = in_r j + 128 \<longleftrightarrow> in_e j - in_r j = 128" by (auto simp: algebra_simps)
  also have "\<dots> \<longleftrightarrow> unat (in_e j - in_r j) = 128" by (simp add: word_unat_eq_iff)
  also have "\<dots> \<longleftrightarrow> length C + length P + 1 = INPUT_BUF" using p(2) ok lengths [of "inp s"] by (simp add: CP input_ok_def)
  finally have full: "in_e j = in_r j + 128 \<longleftrightarrow> length C + length P + 1 = INPUT_BUF" .
  have nl: "10 \<notin> set P" using ok CP by (simp add: input_ok_def)
  have 1: "input_ok (j\<lparr>in_w := in_e j\<rparr>)" "text_of (j\<lparr>in_w := in_e j\<rparr>) = (C @ P @ [c], [])"
    using p lt CP by (auto simp: input_ok_def text_of_def seg_def)
  have 2: "input_ok j" if "c \<noteq> 10" using p(1-3) lt nl that by (simp add: input_ok_def CP)
  have "run (bnd (gets inp) (\<lambda>i. if c = 10 \<or> c = 4 \<or> in_e i = in_r i + 128 then
      seq (upd_inp (\<lambda>i. i\<lparr>in_w := in_e i\<rparr>)) (modify (\<lambda>s. s\<lparr>woken := woken s + 1\<rparr>)) else ret ())) s1 ?Q"
    if s1: "inp s1 = j" "con_ok s1" for s1
    unfolding run_bnd_iff [of "gets _"] run_simps s1(1) full using s1 p(1) 1 2 by (auto simp: CP run_bnd_iff)
  then have "run (seq (consputc (uint c)) (bnd (gets inp) (\<lambda>i. if c = 10 \<or> c = 4 \<or> in_e i = in_r i + 128 then
      seq (upd_inp (\<lambda>i. i\<lparr>in_w := in_e i\<rparr>)) (modify (\<lambda>s. s\<lparr>woken := woken s + 1\<rparr>)) else ret ()))) (s\<lparr>inp := j\<rparr>) ?Q"
    using np by (intro run_bnd [OF consputc_law]) (auto simp: same_input_def)
  then show ?thesis unfolding store_char_def run_bnd_iff [of "upd_inp _"] run_upd_inp j_def .
qed

lemma intr_char_law:
  assumes np: "con_ok s" and ok: "input_ok (inp s)" and d: "run procdump s (\<lambda>_ s'. same_input s s')"
  shows "run (intr_char procdump c) s (\<lambda>_ s'. con_ok s' \<and> input_ok (inp s') \<and> text_of (inp s') = typed c (text_of (inp s)))"
    (is "run _ s ?Q")
proof -
  let ?i = "inp s"
  obtain C P where CP: "text_of ?i = (C, P)" by (cases "text_of ?i")
  have len: "length C + length P = unat (in_e ?i - in_r ?i)" using ok lengths [of ?i] by (simp add: CP input_ok_def)
  consider (dump) "c = 16" | (kill) "c = 21" | (erase) "c = 8 \<or> c = 127" | (other) "c \<noteq> 16" "c \<noteq> 21" "\<not> (c = 8 \<or> c = 127)" by blast
  then show ?thesis
  proof cases
    case dump
    then show ?thesis using d np ok unfolding intr_char_def run_bnd_iff run_simps by (auto simp: same_input_def typed_def CP elim!: run_weaken)
  next
    case kill
    then show ?thesis using kill_line_law [OF np ok refl] unfolding intr_char_def run_bnd_iff run_simps by (auto simp: typed_def CP)
  next
    case erase
    show ?thesis
    proof (cases "in_e ?i = in_w ?i")
      case True
      then have "P = []" using CP by (auto simp: text_of_def)
      then show ?thesis using erase True np ok unfolding intr_char_def run_bnd_iff run_simps by (auto simp: typed_def CP)
    next
      case False
      have "run (consputc BACKSPACE) (s\<lparr>inp := ?i\<lparr>in_e := in_e ?i - 1\<rparr>\<rparr>) ?Q"
        by (rule run_weaken [OF consputc_law]) (use np in_e_back [OF ok False] erase in \<open>auto simp: same_input_def typed_def CP\<close>)
      then show ?thesis using erase False unfolding intr_char_def run_bnd_iff [of "gets _"] run_simps by (auto simp: run_bnd_iff)
    qed
  next
    case other
    have t: "typed c (C, P) = (if c \<noteq> 0 \<and> in_e ?i - in_r ?i < 128 then
        let c = (if c = 13 then 10 else c) in
        if c = 10 \<or> c = 4 \<or> length C + length P + 1 = INPUT_BUF then (C @ P @ [c], []) else (C, P @ [c]) else (C, P))"
      using other len by (auto simp: typed_def word_less_nat_alt)
    show ?thesis using other np ok store_char_law [OF np ok _ CP, of "if c = 13 then 10 else c"]
      unfolding intr_char_def run_bnd_iff run_simps CP t by (auto simp: Let_def word_less_nat_alt CP)
  qed
qed

lemma consoleintr_law:
  assumes "\<And>s. con_ok s \<Longrightarrow> run procdump s (\<lambda>_ s'. same_input s s')" and "con_ok s" and "input_ok (inp s)"
  shows "run (consoleintr procdump cs) s (\<lambda>_ s'. con_ok s' \<and> input_ok (inp s') \<and> text_of (inp s') = fold typed cs (text_of (inp s)))"
  using assms(2,3)
proof (induction cs arbitrary: s)
  case (Cons c cs)
  show ?case unfolding consoleintr.simps
  proof (rule run_bnd [OF intr_char_law [OF Cons.prems assms(1) [OF Cons.prems(1)]]])
    fix a s' assume "con_ok s' \<and> input_ok (inp s') \<and> text_of (inp s') = typed c (text_of (inp s))"
    then show "run (consoleintr procdump cs) s' (\<lambda>_ s''. con_ok s'' \<and> input_ok (inp s'') \<and> text_of (inp s'') = fold typed (c # cs) (text_of (inp s)))"
      using Cons.IH [of s'] by simp
  qed
qed simp

section \<open>Properties\<close>

definition con_start :: console where
  "con_start = \<lparr>panicked = False, uart = True, uart_out = [], scr = \<lparr>crt = \<lambda>_. 0, cursor = 0\<rparr>,
     inp = \<lparr>in_buf = \<lambda>_. 0, in_r = 0xFFFFFFFF, in_w = 0xFFFFFFFF, in_e = 0xFFFFFFFF\<rparr>, woken = 0\<rparr>"

text \<open>C0. The circular input buffer implements a line editor. Whatever the characters that an interrupt delivers, \<open>consoleintr\<close> runs through and
  changes the text available to readers and the line being edited as the abstract editor does: backspace drops the last character
  of the line, \<open>^U\<close> the whole line, an end of line or \<open>^D\<close> or the 128th character hands the line over, and a full buffer ignores input.
  A reader gets what the abstract reader gets and leaves the line being edited alone. Text before the read index or after the edit
  index never appears, also where the 32-bit indices wrap around. The process listing may do anything but touch the input and break the screen.\<close>

theorem console_refines_editor:
  assumes "\<And>s. con_ok s \<Longrightarrow> run procdump s (\<lambda>_ s'. same_input s s')" and "con_ok s" and "input_ok (inp s)"
  shows "run (consoleintr procdump cs) s (\<lambda>_ s'.
      con_ok s' \<and> input_ok (inp s') \<and> text_of (inp s') = fold typed cs (text_of (inp s)) \<and>
      (\<forall>killed n. case consoleread_from killed n [] n (inp s') of (r, i) \<Rightarrow>
         input_ok i \<and> (r, fst (text_of i)) = line_read killed n [] n (fst (text_of (inp s'))) \<and> snd (text_of i) = snd (text_of (inp s'))))"
  by (rule run_weaken, rule consoleintr_law [OF _ assms(2,3)], erule assms(1))
    (intro conjI allI, simp_all add: case_prod_unfold prod_eq_iff consoleread_from_law)

theorem console_refines_editor_witness:
  "run (consoleintr (ret ()) [97, 8, 98, 13]) con_start (\<lambda>_ s'. text_of (inp s') = ([98, 10], []))"
proof -
  have i: "input_ok (inp con_start)" by (simp add: con_start_def input_ok_def text_of_def seg_def)
  have t: "fold typed [97, 8, 98, 13] (text_of (inp con_start)) = ([98, 10], [])"
    by (simp add: con_start_def text_of_def typed_def seg_def)
  have "run (consoleintr (ret ()) [97, 8, 98, 13]) con_start (\<lambda>_ s'.
      con_ok s' \<and> input_ok (inp s') \<and> text_of (inp s') = fold typed [97, 8, 98, 13] (text_of (inp con_start)) \<and>
      (\<forall>killed n. case consoleread_from killed n [] n (inp s') of (r, i) \<Rightarrow>
         input_ok i \<and> (r, fst (text_of i)) = line_read killed n [] n (fst (text_of (inp s'))) \<and> snd (text_of i) = snd (text_of (inp s'))))"
    by (rule console_refines_editor) (use i in \<open>simp_all add: same_input_def con_ok_def con_start_def\<close>)
  then show ?thesis unfolding t by (rule run_weaken) simp
qed

text \<open>C0. The screen. From a cursor on the first 24 lines, \<open>cgaputc\<close> never writes outside their 1920 cells, its \<open>memset\<close> never has a negative length,
  and the cursor is on these lines again: behind the character, with the last line scrolled in when the 24th is full.\<close>

theorem cgaputc_bounds:
  assumes "uint (cursor s) < 24 * 80"
  shows "\<exists>s'. cgaputc c s = Some s' \<and> uint (cursor s') < 24 * 80 \<and> (\<forall>i. i < 0 \<or> 24 * 80 \<le> i \<longrightarrow> crt s' i = crt s i)"
  using cgaputc_inside [OF assms, of c] by metis

theorem cgaputc_bounds_witness:
  "\<exists>s'. cgaputc 10 (scr con_start\<lparr>cursor := 1919\<rparr>) = Some s' \<and> uint (cursor s') < 24 * 80"
  using cgaputc_bounds [of "scr con_start\<lparr>cursor := 1919\<rparr>" 10] by auto

end
