(* ===== verification/Vm.thy ===== *)
theory Vm
  imports Kalloc
begin

unbundle bit_operations_syntax

text \<open>
  Page tables, \<open>kernel/vm.c\<close> and the macros of \<open>kernel/mmu.h\<close> it uses. Page directories and page tables are pages of physical
  memory, read and written there entry by entry. Kernel addresses are physical addresses, as the kernel part of every page table maps
  them one to one. \<open>kend\<close> and \<open>kdata\<close> are the linker's symbols \<open>end\<close> and \<open>data\<close>. The message of \<open>allocuvm\<close> is not
  printed. A loop over addresses that wraps around never ends; \<open>VM_FUEL\<close> is more than the pages there are. The loading of the
  hardware registers (\<open>seginit\<close>, \<open>vmenable\<close>, \<open>switchkvm\<close>, \<open>switchuvm\<close>) is left out.
\<close>

section \<open>Addresses and entries\<close>

abbreviation USERTOP :: u32 where "USERTOP \<equiv> 0xA0000"
abbreviation PTE_P :: u32 where "PTE_P \<equiv> 1"
abbreviation PTE_W :: u32 where "PTE_W \<equiv> 2"
abbreviation PTE_U :: u32 where "PTE_U \<equiv> 4"

definition VM_FUEL :: nat where
  "VM_FUEL = 2 ^ 20 + 1"

definition PDX :: "u32 \<Rightarrow> u32" where
  "PDX la = drop_bit 22 la AND 0x3FF"

definition PTX :: "u32 \<Rightarrow> u32" where
  "PTX la = drop_bit 12 la AND 0x3FF"

definition PGROUNDDOWN :: "u32 \<Rightarrow> u32" where
  "PGROUNDDOWN a = a AND NOT (PGSIZE - 1)"

definition PTE_ADDR :: "u32 \<Rightarrow> u32" where
  "PTE_ADDR pte = pte AND NOT 0xFFF"

definition w32 :: "bytes \<Rightarrow> u32 \<Rightarrow> u32" where
  "w32 m a = of_le32 (rd m (unat a) 4)"

definition get32 :: "u32 \<Rightarrow> (kmem, u32) km" where
  "get32 a = gets (\<lambda>s. w32 (mem s) a)"

definition put_bytes :: "u32 \<Rightarrow> u8 list \<Rightarrow> (kmem, unit) km" where
  "put_bytes a bs = modify (\<lambda>s. s\<lparr>mem := wr (mem s) (unat a) bs\<rparr>)"

definition put32 :: "u32 \<Rightarrow> u32 \<Rightarrow> (kmem, unit) km" where
  "put32 a v = put_bytes a (le32 v)"

definition zero_page :: "u32 \<Rightarrow> (kmem, unit) km" where
  "zero_page a = put_bytes a (replicate 4096 0)"

section \<open>Page tables\<close>

definition walkpgdir :: "u32 \<Rightarrow> u32 \<Rightarrow> bool \<Rightarrow> (kmem, u32) km" where
  "walkpgdir pgdir va create =
     (let pde = pgdir + 4 * PDX va in
      bnd (get32 pde) (\<lambda>e.
      if e AND PTE_P \<noteq> 0 then ret (PTE_ADDR e + 4 * PTX va)
      else if \<not> create then ret 0
      else
        bnd kalloc (\<lambda>pgtab.
        if pgtab = 0 then ret 0
        else
          seq (zero_page pgtab)
          (seq (put32 pde (pgtab OR PTE_P OR PTE_W OR PTE_U))
          (ret (pgtab + 4 * PTX va))))))"

fun mappages_loop :: "nat \<Rightarrow> u32 \<Rightarrow> u32 \<Rightarrow> u32 \<Rightarrow> u32 \<Rightarrow> u32 \<Rightarrow> (kmem, int) km" where
  "mappages_loop 0 pgdir a lst pa perm = sleep_forever"
| "mappages_loop (Suc fuel) pgdir a lst pa perm =
     bnd (walkpgdir pgdir a True) (\<lambda>pte.
     if pte = 0 then ret (-1)
     else
       bnd (get32 pte) (\<lambda>e.
       if e AND PTE_P \<noteq> 0 then panic ''remap''
       else
         seq (put32 pte (pa OR perm OR PTE_P))
         (if a = lst then ret 0 else mappages_loop fuel pgdir (a + PGSIZE) lst (pa + PGSIZE) perm)))"

definition mappages :: "u32 \<Rightarrow> u32 \<Rightarrow> u32 \<Rightarrow> u32 \<Rightarrow> u32 \<Rightarrow> (kmem, int) km" where
  "mappages pgdir la sz pa perm = mappages_loop VM_FUEL pgdir (PGROUNDDOWN la) (PGROUNDDOWN (la + sz - 1)) pa perm"

record kmap_entry =
  km_p :: u32
  km_e :: u32
  km_perm :: u32

definition kmap :: "u32 \<Rightarrow> kmap_entry list" where
  "kmap kdata =
     [\<lparr>km_p = USERTOP, km_e = 0x100000, km_perm = PTE_W\<rparr>,
      \<lparr>km_p = 0x100000, km_e = kdata, km_perm = 0\<rparr>,
      \<lparr>km_p = kdata, km_e = PHYSTOP, km_perm = PTE_W\<rparr>,
      \<lparr>km_p = 0xFE000000, km_e = 0, km_perm = PTE_W\<rparr>]"

fun map_kernel :: "u32 \<Rightarrow> kmap_entry list \<Rightarrow> (kmem, u32) km" where
  "map_kernel pgdir [] = ret pgdir"
| "map_kernel pgdir (k # ks) =
     bnd (mappages pgdir (km_p k) (km_e k - km_p k) (km_p k) (km_perm k)) (\<lambda>r.
     if r < 0 then ret 0 else map_kernel pgdir ks)"

definition setupkvm :: "u32 \<Rightarrow> (kmem, u32) km" where
  "setupkvm kdata =
     bnd kalloc (\<lambda>pgdir.
     if pgdir = 0 then ret 0
     else seq (zero_page pgdir) (map_kernel pgdir (kmap kdata)))"

section \<open>User memory\<close>

text \<open>A null page is not checked for and written to.\<close>

definition inituvm :: "u32 \<Rightarrow> u8 list \<Rightarrow> (kmem, unit) km" where
  "inituvm pgdir init =
     (if length init \<ge> 4096 then panic ''inituvm: more than a page''
      else
        bnd kalloc (\<lambda>m.
        if m = 0 then fault
        else
          seq (zero_page m)
          (seq (mappages pgdir 0 PGSIZE m (PTE_W OR PTE_U))
          (put_bytes m init))))"

definition unmap_page :: "u32 \<Rightarrow> u32 \<Rightarrow> u32 \<Rightarrow> (kmem, unit) km" where
  "unmap_page kend pgdir a =
     bnd (walkpgdir pgdir a False) (\<lambda>pte.
     if pte = 0 then ret ()
     else
       bnd (get32 pte) (\<lambda>e.
       if e AND PTE_P = 0 then ret ()
       else if PTE_ADDR e = 0 then panic ''kfree''
       else seq (kfree kend (PTE_ADDR e)) (put32 pte 0)))"

fun deallocuvm_loop :: "nat \<Rightarrow> u32 \<Rightarrow> u32 \<Rightarrow> u32 \<Rightarrow> u32 \<Rightarrow> (kmem, unit) km" where
  "deallocuvm_loop 0 kend pgdir a oldsz = sleep_forever"
| "deallocuvm_loop (Suc fuel) kend pgdir a oldsz =
     (if a < oldsz then seq (unmap_page kend pgdir a) (deallocuvm_loop fuel kend pgdir (a + PGSIZE) oldsz) else ret ())"

definition deallocuvm :: "u32 \<Rightarrow> u32 \<Rightarrow> u32 \<Rightarrow> u32 \<Rightarrow> (kmem, u32) km" where
  "deallocuvm kend pgdir oldsz newsz =
     (if newsz \<ge> oldsz then ret oldsz
      else seq (deallocuvm_loop VM_FUEL kend pgdir (PGROUNDUP newsz) oldsz) (ret newsz))"

fun allocuvm_loop :: "nat \<Rightarrow> u32 \<Rightarrow> u32 \<Rightarrow> u32 \<Rightarrow> u32 \<Rightarrow> u32 \<Rightarrow> (kmem, u32) km" where
  "allocuvm_loop 0 kend pgdir a oldsz newsz = sleep_forever"
| "allocuvm_loop (Suc fuel) kend pgdir a oldsz newsz =
     (if a < newsz then
        bnd kalloc (\<lambda>m.
        if m = 0 then seq (deallocuvm kend pgdir newsz oldsz) (ret 0)
        else
          seq (zero_page m)
          (seq (mappages pgdir a PGSIZE m (PTE_W OR PTE_U))
          (allocuvm_loop fuel kend pgdir (a + PGSIZE) oldsz newsz)))
      else ret newsz)"

definition allocuvm :: "u32 \<Rightarrow> u32 \<Rightarrow> u32 \<Rightarrow> u32 \<Rightarrow> (kmem, u32) km" where
  "allocuvm kend pgdir oldsz newsz =
     (if newsz > USERTOP then ret 0
      else if newsz < oldsz then ret oldsz
      else allocuvm_loop VM_FUEL kend pgdir (PGROUNDUP oldsz) oldsz newsz)"

fun free_tables :: "u32 \<Rightarrow> u32 \<Rightarrow> nat list \<Rightarrow> (kmem, unit) km" where
  "free_tables kend pgdir [] = ret ()"
| "free_tables kend pgdir (i # js) =
     seq
       (bnd (get32 (pgdir + 4 * of_nat i)) (\<lambda>e.
        if e AND PTE_P \<noteq> 0 then kfree kend (PTE_ADDR e) else ret ()))
       (free_tables kend pgdir js)"

definition freevm :: "u32 \<Rightarrow> u32 \<Rightarrow> (kmem, unit) km" where
  "freevm kend pgdir =
     (if pgdir = 0 then panic ''freevm: no pgdir''
      else
        seq (deallocuvm kend pgdir USERTOP 0)
        (seq (free_tables kend pgdir [0..<1024])
        (kfree kend pgdir)))"

definition copy_page :: "u32 \<Rightarrow> u32 \<Rightarrow> u32 \<Rightarrow> (kmem, bool) km" where
  "copy_page d i pa =
     bnd kalloc (\<lambda>m.
     if m = 0 then ret False
     else
       bnd (gets (\<lambda>s. rd (mem s) (unat pa) 4096)) (\<lambda>bs.
       seq (put_bytes m bs)
       (bnd (mappages d i PGSIZE m (PTE_W OR PTE_U)) (\<lambda>r.
       ret (\<not> r < 0)))))"

fun copyuvm_loop :: "nat \<Rightarrow> u32 \<Rightarrow> u32 \<Rightarrow> u32 \<Rightarrow> u32 \<Rightarrow> (kmem, bool) km" where
  "copyuvm_loop 0 pgdir d i sz = sleep_forever"
| "copyuvm_loop (Suc fuel) pgdir d i sz =
     (if i < sz then
        bnd (walkpgdir pgdir i False) (\<lambda>pte.
        if pte = 0 then panic ''copyuvm: pte should exist''
        else
          bnd (get32 pte) (\<lambda>e.
          if e AND PTE_P = 0 then panic ''copyuvm: page not present''
          else
            bnd (copy_page d i (PTE_ADDR e)) (\<lambda>ok.
            if ok then copyuvm_loop fuel pgdir d (i + PGSIZE) sz else ret False)))
      else ret True)"

definition copyuvm :: "u32 \<Rightarrow> u32 \<Rightarrow> u32 \<Rightarrow> u32 \<Rightarrow> (kmem, u32) km" where
  "copyuvm kend kdata pgdir sz =
     bnd (setupkvm kdata) (\<lambda>d.
     if d = 0 then ret 0
     else
       bnd (copyuvm_loop VM_FUEL pgdir d 0 sz) (\<lambda>ok.
       if ok then ret d else seq (freevm kend d) (ret 0)))"

text \<open>The pointer that \<open>walkpgdir\<close> returns is not checked.\<close>

definition uva2ka :: "u32 \<Rightarrow> u32 \<Rightarrow> (kmem, u32) km" where
  "uva2ka pgdir uva =
     bnd (walkpgdir pgdir uva False) (\<lambda>pte.
     if pte = 0 then fault
     else
       bnd (get32 pte) (\<lambda>e.
       if e AND PTE_P = 0 then ret 0
       else if e AND PTE_U = 0 then ret 0
       else ret (PTE_ADDR e)))"

text \<open>The bytes \<open>p[0..len-1]\<close> are a list; each pass copies one byte at least.\<close>

fun copyout_loop :: "nat \<Rightarrow> u32 \<Rightarrow> u32 \<Rightarrow> u8 list \<Rightarrow> (kmem, int) km" where
  "copyout_loop fuel pgdir va [] = ret 0"
| "copyout_loop 0 pgdir va (b # bs) = sleep_forever"
| "copyout_loop (Suc fuel) pgdir va (b # bs) =
     (let va0 = PGROUNDDOWN va in
      bnd (uva2ka pgdir va0) (\<lambda>pa0.
      if pa0 = 0 then ret (-1)
      else
        let n = min (unat (PGSIZE - (va - va0))) (length (b # bs)) in
        seq (put_bytes (pa0 + (va - va0)) (take n (b # bs)))
        (copyout_loop fuel pgdir (va0 + PGSIZE) (drop n (b # bs)))))"

definition copyout :: "u32 \<Rightarrow> u32 \<Rightarrow> u8 list \<Rightarrow> (kmem, int) km" where
  "copyout pgdir va p = copyout_loop (length p) pgdir va p"

end
