(* ===== verification/Vm_Spec.thy ===== *)
theory Vm_Spec
  imports Vm
begin

unbundle bit_operations_syntax

text \<open>
  What the operations of \<open>kernel/vm.c\<close> do to an address space. \<open>pgdir_ok\<close> reads the page directory and its tables as a map
  \<open>E\<close> from virtual page numbers to entries; \<open>aspace\<close> adds the allocator, whose free pages are none of the pages in use. Each
  operation is specified on the map, on the list of free pages, and by the pages it does not write (\<open>keeps\<close>).
\<close>

section \<open>Aligned addresses\<close>

lemma page_ok_mod: "page_ok kend p \<Longrightarrow> unat p mod 4096 = 0"
  by (auto simp: page_ok_def unat_mod simp flip: unat_eq_0)

lemma page_ok_less: "page_ok kend p \<Longrightarrow> unat p < 16777216"
  by (simp add: page_ok_def word_less_nat_alt)

lemma page_ok_top:
  assumes "page_ok kend p"
  shows "unat p + 4096 \<le> 16777216"
proof -
  obtain j where "unat p = 4096 * j" using page_ok_mod [OF assms] by (auto simp: mod_eq_0_iff_dvd elim!: dvdE)
  then show ?thesis using page_ok_less [OF assms] by simp
qed

lemma unat_entry: "page_ok kend p \<Longrightarrow> i < 1024 \<Longrightarrow> unat (p + 4 * of_nat i) = unat p + 4 * i"
  using page_ok_less [of kend p] by (simp add: unat_word_ariths unat_of_nat)

lemma aligned_bit:
  assumes "(p :: u32) mod 4096 = 0" and b: "bit p n"
  shows "12 \<le> n"
proof -
  have "take_bit 12 p = 0" using assms(1) by (simp add: take_bit_eq_mod)
  then have "\<not> bit p n" if "n < 12" using that by (metis bit_take_bit_iff bit_0_eq bot_fun_def bot_bool_def)
  with b show ?thesis by fastforce
qed

lemma small_bit:
  assumes "(k :: u32) < 4096" and "bit k n"
  shows "n < 12"
proof -
  have "k div 2 ^ 12 = 0" using assms(1) by (simp add: word_arith_nat_div word_less_nat_alt)
  then have "drop_bit 12 k = 0" by (simp add: drop_bit_eq_div)
  then have "\<not> bit (drop_bit 12 k) (n - 12)" by simp
  then have "\<not> bit k (12 + (n - 12))" by (simp add: bit_drop_bit_eq)
  then show ?thesis using assms(2) by (cases "n < 12") auto
qed

lemma mask_4095: "(0xFFF :: u32) = mask 12"
  by (simp add: mask_eq_exp_minus_1)

lemma PTE_ADDR_entry:
  assumes "p mod 4096 = 0" and "k < 4096"
  shows "PTE_ADDR (p OR k) = p"
  unfolding PTE_ADDR_def mask_4095 by (rule bit_eqI) (auto simp: bit_simps dest: aligned_bit [OF assms(1)] small_bit [OF assms(2)])

lemma flags_entry:
  assumes "(p :: u32) mod 4096 = 0" and "f < 4096"
  shows "(p OR k) AND f = k AND f"
  by (rule bit_eqI) (auto simp: bit_simps dest!: aligned_bit [OF assms(1)] dest: small_bit [OF assms(2)])

text \<open>Addresses by page number.\<close>

definition vpn :: "u32 \<Rightarrow> nat" where
  "vpn va = unat va div 4096"

lemma vpn_less [simp]: "vpn va < 1048576" "vpn va div 1024 < 1024"
proof -
  have "unat va < 4294967296" using unsigned_less [of va] by simp
  then show "vpn va < 1048576" "vpn va div 1024 < 1024" by (simp_all add: vpn_def less_mult_imp_div_less)
qed

lemma and_3FF: "(x :: u32) AND 0x3FF = of_nat (unat x mod 1024)"
proof -
  have "x AND mask 10 = take_bit 10 x" by (simp add: take_bit_eq_mask)
  also have "\<dots> = x mod 1024" by (simp add: take_bit_eq_mod)
  finally show ?thesis by (simp add: mask_eq_exp_minus_1 word_arith_nat_mod)
qed

lemma PDX_eq: "PDX va = of_nat (vpn va div 1024)"
proof -
  have "unat (drop_bit 22 va) = unat va div 4194304" by (simp add: drop_bit_eq_div unat_div)
  moreover have "unat va div 4194304 = vpn va div 1024" by (simp add: vpn_def flip: div_mult2_eq)
  ultimately show ?thesis using vpn_less(2) [of va] unfolding PDX_def and_3FF by (simp del: vpn_less)
qed

lemma PTX_eq: "PTX va = of_nat (vpn va mod 1024)"
proof -
  have "unat (drop_bit 12 va) = vpn va" by (simp add: drop_bit_eq_div unat_div vpn_def)
  then show ?thesis unfolding PTX_def and_3FF by simp
qed

section \<open>Writes that keep a page\<close>

definition same_page :: "bytes \<Rightarrow> bytes \<Rightarrow> u32 \<Rightarrow> bool" where
  "same_page m m' p \<longleftrightarrow> (\<forall>k<4096. m' (unat p + k) = m (unat p + k))"

definition keeps :: "u32 \<Rightarrow> u32 set \<Rightarrow> bytes \<Rightarrow> bytes \<Rightarrow> bool" where
  "keeps kend A m m' \<longleftrightarrow> (\<forall>p. page_ok kend p \<longrightarrow> p \<notin> A \<longrightarrow> same_page m m' p)"

lemma keeps_refl [simp]: "keeps kend A m m"
  by (simp add: keeps_def same_page_def)

lemma keeps_trans: "keeps kend A m m' \<Longrightarrow> keeps kend B m' m'' \<Longrightarrow> A \<subseteq> C \<Longrightarrow> B \<subseteq> C \<Longrightarrow> keeps kend C m m''"
  unfolding keeps_def same_page_def by (metis subsetD)

lemma keeps_mono: "keeps kend A m m' \<Longrightarrow> A \<subseteq> C \<Longrightarrow> keeps kend C m m'"
  by (auto simp: keeps_def)

lemma keeps_wr:
  assumes "page_ok kend v" and "off + length bs \<le> 4096"
  shows "keeps kend {v} m (wr m (unat v + off) bs)"
  unfolding keeps_def same_page_def
proof (intro allI impI)
  fix p k assume "page_ok kend p" "p \<notin> {v}" "k < (4096 :: nat)"
  then show "wr m (unat v + off) bs (unat p + k) = m (unat p + k)"
    using pages_apart [of kend p v] assms by (intro wr_apply_other) auto
qed

lemma w32_same: "same_page m m' p \<Longrightarrow> page_ok kend p \<Longrightarrow> i < 1024 \<Longrightarrow> w32 m' (p + 4 * of_nat i) = w32 m (p + 4 * of_nat i)"
  by (auto simp: w32_def unat_entry same_page_def add.assoc intro!: arg_cong [where f = of_le32] nth_equalityI)

lemma rd_same: "same_page m m' p \<Longrightarrow> rd m' (unat p) 4096 = rd m (unat p) 4096"
  by (rule nth_equalityI) (auto simp: same_page_def)

lemma w32_put:
  assumes "page_ok kend p" and "i < 1024" and "j < 1024"
  shows "w32 (wr m (unat (p + 4 * of_nat i)) (le32 v)) (p + 4 * of_nat j) = (if i = j then v else w32 m (p + 4 * of_nat j))"
  using assms by (auto simp: w32_def unat_entry rd_wr_same intro!: arg_cong [where f = of_le32] rd_wr_other)

lemma w32_zero:
  assumes "page_ok kend p" and "j < 1024"
  shows "w32 (wr m (unat p) (replicate 4096 0)) (p + 4 * of_nat j) = 0"
proof -
  have "rd (wr m (unat p) (replicate 4096 0)) (unat p + 4 * j) 4 = replicate 4 0"
    using assms by (intro nth_equalityI) (auto simp: wr_def)
  then show ?thesis using assms by (simp add: w32_def unat_entry of_le32_def)
qed

lemma chain_keeps:
  assumes "keeps kend A m m'" and "set xs \<inter> A = {}" and "\<forall>x\<in>set xs. page_ok kend x"
  shows "chain m' p xs = chain m p xs"
  using assms(2,3)
proof (induction xs arbitrary: p)
  case (Cons x xs)
  then have "same_page m m' x" using assms(1) by (auto simp: keeps_def)
  then have "rd m' (unat x) 4 = rd m (unat x) 4" by (intro nth_equalityI) (auto simp: same_page_def)
  with Cons show ?case by simp
qed simp

lemma free_list_keeps:
  assumes "free_list kend s xs" and "keeps kend A (mem s) (mem s')" and "freelist s' = freelist s" and "set xs \<inter> A = {}"
  shows "free_list kend s' xs"
  using assms chain_keeps [OF assms(2,4)] by (auto simp: free_list_def)

lemma kfree_law:
  assumes "free_list kend s xs" and "page_ok kend v" and "v \<notin> set xs"
  shows "run (kfree kend v) s (\<lambda>_ s'. free_list kend s' (v # xs) \<and> keeps kend {v} (mem s) (mem s'))"
proof -
  have k: "keeps kend {v} m (wr m (unat v) bs)" if "length bs \<le> 4096" for m bs using keeps_wr [OF assms(2), of 0 bs] that by simp
  have "keeps kend {v} (mem s) (wr (wr (mem s) (unat v) (replicate 4096 1)) (unat v) (le32 (freelist s)))"
    by (rule keeps_trans [OF k k subset_refl subset_refl]) simp_all
  then have "run (kfree kend v) s (\<lambda>_ s'. keeps kend {v} (mem s) (mem s'))"
    using assms(2) by (simp add: kfree_def page_ok_def run_bnd_iff not_less not_le)
  then show ?thesis using kfree_list [OF assms] by (rule run_conj [rotated])
qed

section \<open>Page directories\<close>

definition tables :: "u32 \<Rightarrow> (nat \<Rightarrow> u32 option) \<Rightarrow> u32 set" where
  "tables d T = insert d (ran T)"

definition pgdir_ok :: "u32 \<Rightarrow> bytes \<Rightarrow> u32 \<Rightarrow> (nat \<Rightarrow> u32 option) \<Rightarrow> (nat \<Rightarrow> u32) \<Rightarrow> bool" where
  "pgdir_ok kend m d T E \<longleftrightarrow>
     (\<forall>p\<in>tables d T. page_ok kend p) \<and> dom T \<subseteq> {..<1024} \<and> inj_on T (dom T) \<and> d \<notin> ran T \<and>
     (\<forall>i<1024. w32 m (d + 4 * of_nat i) = (case T i of None \<Rightarrow> 0 | Some t \<Rightarrow> t OR 7)) \<and>
     (\<forall>n. case T (n div 1024) of None \<Rightarrow> E n = 0 | Some t \<Rightarrow> w32 m (t + 4 * of_nat (n mod 1024)) = E n)"

definition aspace :: "u32 \<Rightarrow> kmem \<Rightarrow> u32 \<Rightarrow> (nat \<Rightarrow> u32 option) \<Rightarrow> (nat \<Rightarrow> u32) \<Rightarrow> u32 list \<Rightarrow> bool" where
  "aspace kend s d T E xs \<longleftrightarrow> pgdir_ok kend (mem s) d T E \<and> free_list kend s xs \<and> tables d T \<inter> set xs = {}"

lemma table_in: "T i = Some t \<Longrightarrow> t \<in> tables d T"
  by (auto simp: tables_def ran_def)

lemma pgdir_okD:
  assumes "pgdir_ok kend m d T E"
  shows "page_ok kend d" and "T i = Some t \<Longrightarrow> page_ok kend t" and "T i = Some t \<Longrightarrow> t \<noteq> d" and "T i = Some t \<Longrightarrow> i < 1024"
    and "T i = Some t \<Longrightarrow> T j = Some t \<Longrightarrow> i = j"
    and "i < 1024 \<Longrightarrow> w32 m (d + 4 * of_nat i) = (case T i of None \<Rightarrow> 0 | Some t \<Rightarrow> t OR 7)"
    and "T (n div 1024) = Some t \<Longrightarrow> w32 m (t + 4 * of_nat (n mod 1024)) = E n"
    and "T (n div 1024) = None \<Longrightarrow> E n = 0"
proof -
  note a = assms [unfolded pgdir_ok_def]
  show "page_ok kend d" "T i = Some t \<Longrightarrow> page_ok kend t" using a table_in [of T i t d] by (auto simp: tables_def)
  show "T i = Some t \<Longrightarrow> t \<noteq> d" using a by (auto simp: ran_def)
  show "T i = Some t \<Longrightarrow> i < 1024" using a by auto
  show "T i = Some t \<Longrightarrow> T j = Some t \<Longrightarrow> i = j" using a by (metis domI inj_onD)
  show "i < 1024 \<Longrightarrow> w32 m (d + 4 * of_nat i) = (case T i of None \<Rightarrow> 0 | Some t \<Rightarrow> t OR 7)" using a by blast
  have n: "case T (n div 1024) of None \<Rightarrow> E n = 0 | Some t \<Rightarrow> w32 m (t + 4 * of_nat (n mod 1024)) = E n" using a by blast
  show "T (n div 1024) = Some t \<Longrightarrow> w32 m (t + 4 * of_nat (n mod 1024)) = E n" using n by simp
  show "T (n div 1024) = None \<Longrightarrow> E n = 0" using n by simp
qed

lemma pgdir_ok_upd:
  assumes "pgdir_ok kend m d T E" and "\<And>i. i < 1024 \<Longrightarrow> w32 m' (d + 4 * of_nat i) = w32 m (d + 4 * of_nat i)"
    and "\<And>n t. T (n div 1024) = Some t \<Longrightarrow> w32 m' (t + 4 * of_nat (n mod 1024)) = E' n"
    and "\<And>n. T (n div 1024) = None \<Longrightarrow> E' n = 0"
  shows "pgdir_ok kend m' d T E'"
proof -
  have "case T (n div 1024) of None \<Rightarrow> E' n = 0 | Some t \<Rightarrow> w32 m' (t + 4 * of_nat (n mod 1024)) = E' n" for n
    using assms(3,4) by (simp split: option.split)
  then show ?thesis using assms(1,2) unfolding pgdir_ok_def by simp
qed

lemma pgdir_keeps:
  assumes "pgdir_ok kend m d T E" and "keeps kend A m m'" and "tables d T \<inter> A = {}"
  shows "pgdir_ok kend m' d T E"
proof -
  have s: "w32 m' (p + 4 * of_nat i) = w32 m (p + 4 * of_nat i)" if "p \<in> tables d T" "i < 1024" for p i
    using assms that by (intro w32_same [of _ _ _ kend]) (auto simp: keeps_def pgdir_ok_def)
  have "w32 m' (d + 4 * of_nat i) = w32 m (d + 4 * of_nat i)" if "i < 1024" for i using that by (intro s) (auto simp: tables_def)
  moreover have "w32 m' (t + 4 * of_nat (n mod 1024)) = w32 m (t + 4 * of_nat (n mod 1024))" if "T (n div 1024) = Some t" for n t
    using that by (intro s) (auto simp: table_in)
  ultimately show ?thesis using pgdir_okD(7,8) [OF assms(1)] by (intro pgdir_ok_upd [OF assms(1)]) auto
qed

lemma aspace_keeps:
  assumes "aspace kend s d T E xs" and "keeps kend A (mem s) (mem s')" and "freelist s' = freelist s" and "(tables d T \<union> set xs) \<inter> A = {}"
  shows "aspace kend s' d T E xs"
  using assms pgdir_keeps [of kend "mem s" d T E A "mem s'"] free_list_keeps [of kend s xs A s'] by (auto simp: aspace_def)

lemma entry_addr_0: "page_ok kend t \<Longrightarrow> j < 1024 \<Longrightarrow> t + 4 * of_nat j \<noteq> 0"
  using unat_entry [of kend t j] by (auto simp: page_ok_def unat_eq_0 simp flip: unat_gt_0)

lemma dir_entry_P: "page_ok kend t \<Longrightarrow> (t OR 7) AND 1 \<noteq> 0" "page_ok kend t \<Longrightarrow> PTE_ADDR (t OR 7) = t"
  by (simp_all add: page_ok_def flags_entry PTE_ADDR_entry)

text \<open>The entry for a page number, when its table exists.\<close>

definition pte_of :: "(nat \<Rightarrow> u32 option) \<Rightarrow> nat \<Rightarrow> u32" where
  "pte_of T n = (case T (n div 1024) of None \<Rightarrow> 0 | Some t \<Rightarrow> t + 4 * of_nat (n mod 1024))"

lemma walk_law:
  assumes "pgdir_ok kend (mem s) d T E"
  shows "run (walkpgdir d va False) s (\<lambda>a s'. s' = s \<and> a = pte_of T (vpn va))"
proof (cases "T (vpn va div 1024)")
  case None
  then show ?thesis using pgdir_okD(6) [OF assms, of "vpn va div 1024"]
    by (simp add: walkpgdir_def get32_def PDX_eq run_bnd_iff pte_of_def Let_def)
next
  case (Some t)
  note t = dir_entry_P [OF pgdir_okD(2) [OF assms Some]]
  show ?thesis using Some pgdir_okD(6) [OF assms, of "vpn va div 1024"] t
    by (simp add: walkpgdir_def get32_def PDX_eq PTX_eq run_bnd_iff pte_of_def Let_def)
qed

lemma pte_get:
  assumes "pgdir_ok kend m d T E" and "pte_of T n \<noteq> 0"
  shows "w32 m (pte_of T n) = E n"
  using assms(2) pgdir_okD(7) [OF assms(1), of n] by (auto simp: pte_of_def split: option.splits)

lemma pte_put:
  assumes "pgdir_ok kend m d T E" and "pte_of T n \<noteq> 0"
  shows "pgdir_ok kend (wr m (unat (pte_of T n)) (le32 v)) d T (E(n := v))" and "keeps kend (ran T) m (wr m (unat (pte_of T n)) (le32 v))"
proof -
  let ?m = "wr m (unat (pte_of T n)) (le32 v)"
  obtain t where t: "T (n div 1024) = Some t" "pte_of T n = t + 4 * of_nat (n mod 1024)"
    using assms(2) by (auto simp: pte_of_def split: option.splits)
  note p = pgdir_okD(2) [OF assms(1) t(1)]
  have k: "keeps kend {t} m ?m" unfolding t(2) using keeps_wr [OF p, of "4 * (n mod 1024)" "le32 v" m] unat_entry [OF p, of "n mod 1024"] by simp
  then show "keeps kend (ran T) m ?m" using t(1) by (auto elim: keeps_mono simp: ran_def)
  have d: "w32 ?m (d + 4 * of_nat i) = w32 m (d + 4 * of_nat i)" if "i < 1024" for i
    using k pgdir_okD(1,3) [OF assms(1)] t(1) that by (intro w32_same [of _ _ _ kend]) (auto simp: keeps_def)
  have "w32 ?m (t' + 4 * of_nat (j mod 1024)) = (E(n := v)) j" if t': "T (j div 1024) = Some t'" for j t'
  proof (cases "t' = t")
    case True
    then have "j div 1024 = n div 1024" using pgdir_okD(5) [OF assms(1)] t' t(1) by blast
    then have "j mod 1024 = n mod 1024 \<longleftrightarrow> j = n" by (metis div_mult_mod_eq)
    then show ?thesis unfolding t(2) True using w32_put [OF p, of "n mod 1024" "j mod 1024" m v] pgdir_okD(7) [OF assms(1) t'] True by auto
  next
    case False
    then have "j \<noteq> n" using t' t(1) by auto
    moreover have "w32 ?m (t' + 4 * of_nat (j mod 1024)) = w32 m (t' + 4 * of_nat (j mod 1024))"
      using k pgdir_okD(2) [OF assms(1) t'] False by (intro w32_same [of _ _ _ kend]) (auto simp: keeps_def)
    ultimately show ?thesis using pgdir_okD(7) [OF assms(1) t'] by simp
  qed
  moreover have "(E(n := v)) j = 0" if "T (j div 1024) = None" for j using that t(1) pgdir_okD(8) [OF assms(1) that] by auto
  ultimately show "pgdir_ok kend ?m d T (E(n := v))" using d by (intro pgdir_ok_upd [OF assms(1)])
qed

section \<open>Mapping pages\<close>

lemma tables_new: "T i = None \<Longrightarrow> tables d (T(i \<mapsto> x)) = insert x (tables d T)"
  by (auto simp: tables_def)

lemma new_table:
  assumes "pgdir_ok kend m d T E" and "T i = None" and "i < 1024" and "page_ok kend x" and "x \<notin> tables d T"
  defines "m2 \<equiv> wr (wr m (unat x) (replicate 4096 0)) (unat (d + 4 * of_nat i)) (le32 (x OR 7))"
  shows "pgdir_ok kend m2 d (T(i \<mapsto> x)) E" and "keeps kend {d, x} m m2"
proof -
  let ?m1 = "wr m (unat x) (replicate 4096 0)"
  have dx: "x \<noteq> d" "x \<notin> ran T" using assms(5) by (auto simp: tables_def)
  note pd = pgdir_okD(1) [OF assms(1)]
  have k1: "keeps kend {x} m ?m1" using keeps_wr [OF assms(4), of 0 "replicate 4096 0" m] by simp
  have k2: "keeps kend {d} ?m1 m2" unfolding m2_def using keeps_wr [OF pd, of "4 * i" "le32 (x OR 7)" ?m1] unat_entry [OF pd assms(3)] assms(3) by simp
  show k: "keeps kend {d, x} m m2" by (rule keeps_trans [OF k1 k2]) auto
  have same: "w32 m' (p + 4 * of_nat j) = w32 m0 (p + 4 * of_nat j)" if "keeps kend A m0 m'" "page_ok kend p" "p \<notin> A" "j < 1024" for m0 m' A p j
    using that by (intro w32_same [of _ _ _ kend]) (auto simp: keeps_def)
  have "w32 m2 (d + 4 * of_nat j) = (case (T(i \<mapsto> x)) j of None \<Rightarrow> 0 | Some t \<Rightarrow> t OR 7)" if "j < 1024" for j
    unfolding m2_def w32_put [OF pd assms(3) that] using same [OF k1 pd, of j] pgdir_okD(6) [OF assms(1) that] dx that by auto
  moreover have "case (T(i \<mapsto> x)) (n div 1024) of None \<Rightarrow> E n = 0 | Some t \<Rightarrow> w32 m2 (t + 4 * of_nat (n mod 1024)) = E n" for n
  proof (cases "n div 1024 = i")
    case True
    then show ?thesis using same [OF k2 assms(4), of "n mod 1024"] w32_zero [OF assms(4), of "n mod 1024" m] dx pgdir_okD(8) [OF assms(1), of n] assms(2) by simp
  next
    case False
    have "w32 m2 (t + 4 * of_nat (n mod 1024)) = E n" if t: "T (n div 1024) = Some t" for t
    proof -
      have "t \<noteq> x" using dx(2) t by (auto simp: ran_def)
      then show ?thesis using same [OF k pgdir_okD(2) [OF assms(1) t], of "n mod 1024"] pgdir_okD(3,7) [OF assms(1) t] by simp
    qed
    then show ?thesis using False pgdir_okD(8) [OF assms(1), of n] by (simp split: option.split)
  qed
  moreover have "inj_on (T(i \<mapsto> x)) (dom (T(i \<mapsto> x)))" using assms(1) dx(2) by (auto simp: pgdir_ok_def inj_on_def ran_def)
  moreover have "d \<notin> ran (T(i \<mapsto> x))" using assms(1,2) dx(1) by (simp add: pgdir_ok_def)
  moreover have "\<forall>p\<in>tables d (T(i \<mapsto> x)). page_ok kend p" using assms(1,2,4) by (simp add: pgdir_ok_def tables_new)
  ultimately show "pgdir_ok kend m2 d (T(i \<mapsto> x)) E" using assms(1,3) by (auto simp: pgdir_ok_def)
qed

text \<open>Free pages become tables.\<close>

definition grow :: "u32 \<Rightarrow> (nat \<Rightarrow> u32 option) \<Rightarrow> u32 list \<Rightarrow> (nat \<Rightarrow> u32 option) \<Rightarrow> u32 list \<Rightarrow> nat set \<Rightarrow> bool" where
  "grow d T xs T' xs' I \<longleftrightarrow> T \<subseteq>\<^sub>m T' \<and> dom T' \<subseteq> dom T \<union> I \<and> tables d T' \<union> set xs' = tables d T \<union> set xs \<and>
     length xs' + card (dom T') = length xs + card (dom T) \<and> (\<exists>ys. xs = ys @ xs')"

lemma grow_refl [simp]: "grow d T xs T xs I"
  by (simp add: grow_def)

lemma grow_trans: "grow d T xs T' xs' I \<Longrightarrow> grow d T' xs' T'' xs'' J \<Longrightarrow> grow d T xs T'' xs'' (I \<union> J)"
proof -
  assume a: "grow d T xs T' xs' I" and b: "grow d T' xs' T'' xs'' J"
  have "dom T'' \<subseteq> dom T \<union> (I \<union> J)" using a b unfolding grow_def by blast
  then show ?thesis using a b unfolding grow_def by (auto intro: map_le_trans simp flip: append_assoc)
qed

lemma grow_same:
  assumes "grow d T xs T' xs' I" and "\<forall>i\<in>I. T i \<noteq> None"
  shows "T' = T"
proof
  fix i
  have "T \<subseteq>\<^sub>m T'" "dom T' \<subseteq> dom T" using assms by (auto simp: grow_def)
  then show "T' i = T i" by (cases "i \<in> dom T") (auto simp: map_le_def)
qed

lemma walk_create_law:
  fixes va :: u32
  assumes "aspace kend s d T E xs"
  defines "i \<equiv> vpn va div 1024"
  shows "run (walkpgdir d va True) s (\<lambda>a s'.
    if T i = None \<and> xs = [] then a = 0 \<and> s' = s
    else \<exists>T' xs'. aspace kend s' d T' E xs' \<and> grow d T xs T' xs' {i} \<and> T' i \<noteq> None \<and> a = pte_of T' (vpn va) \<and> a \<noteq> 0 \<and>
      keeps kend (tables d T \<union> set xs) (mem s) (mem s'))"
proof (cases "T i")
  case (Some t)
  have p: "pgdir_ok kend (mem s) d T E" using assms(1) by (simp add: aspace_def)
  note t = dir_entry_P [OF pgdir_okD(2) [OF p Some]]
  have "pte_of T (vpn va) \<noteq> 0" using Some entry_addr_0 [OF pgdir_okD(2) [OF p Some]] by (simp add: pte_of_def i_def)
  then show ?thesis using Some t pgdir_okD(6) [OF p, of i] assms(1)
    by (auto simp: walkpgdir_def get32_def PDX_eq PTX_eq run_bnd_iff pte_of_def Let_def i_def intro!: exI [of _ T] exI [of _ xs])
next
  case None
  have p: "pgdir_ok kend (mem s) d T E" and f: "free_list kend s xs" and dj: "tables d T \<inter> set xs = {}" using assms(1) by (simp_all add: aspace_def)
  have i: "i < 1024" by (simp add: i_def)
  have e: "w32 (mem s) (d + 4 * PDX va) = 0" using None pgdir_okD(6) [OF p i] by (simp add: PDX_eq i_def)
  show ?thesis
  proof (cases xs)
    case Nil
    then show ?thesis using None e f by (auto simp: walkpgdir_def get32_def run_bnd_iff Let_def kalloc_def run_def free_list_def)
  next
    case (Cons x ys)
    have x: "page_ok kend x" "x \<notin> tables d T" "x \<notin> set ys" using f dj Cons by (auto simp: free_list_def)
    note n = new_table [OF p None i x(1,2)]
    define s1 where "s1 = s\<lparr>freelist := of_le32 (rd (mem s) (unat x) 4)\<rparr>"
    have s1: "free_list kend s1 ys" using f Cons by (auto simp: free_list_def s1_def)
    define s2 where "s2 = s1\<lparr>mem := wr (wr (mem s) (unat x) (replicate 4096 0)) (unat (d + 4 * of_nat i)) (le32 (x OR 7))\<rparr>"
    have "free_list kend s2 ys" by (rule free_list_keeps [OF s1, of "{d, x}"]) (use n(2) x dj Cons in \<open>auto simp: s2_def s1_def tables_def\<close>)
    then have a: "aspace kend s2 d (T(i \<mapsto> x)) E ys" using n(1) dj Cons x(3) tables_new [of T i d x, OF None] by (auto simp: aspace_def s2_def)
    have r: "walkpgdir d va True s = Ret (x + 4 * PTX va, s2)" using e x(1) f Cons
      by (simp add: walkpgdir_def get32_def Let_def kalloc_def free_list_def zero_page_def put32_def put_bytes_def s2_def s1_def PDX_eq i_def page_ok_def bnd_def)
    have g: "grow d T xs (T(i \<mapsto> x)) ys {i}" using None Cons tables_new [of T i d x, OF None] finite_subset [of "dom T" "{..<1024}"] p
      by (auto simp: grow_def map_le_def pgdir_ok_def card_insert_if)
    have "keeps kend (tables d T \<union> set xs) (mem s) (mem s2)" using n(2) Cons by (auto simp: s2_def tables_def elim: keeps_mono)
    then show ?thesis using r a g x(1) entry_addr_0 [OF x(1), of "vpn va mod 1024"] Cons
      by (intro runI [of "walkpgdir d va True", OF r]) (auto simp: pte_of_def i_def PTX_eq intro!: exI [of _ "T(i \<mapsto> x)"] exI [of _ ys])
  qed
qed

end
