(* ===== verification/Vm_Map.thy ===== *)
theory Vm_Map
  imports Vm_Spec
begin

text \<open>\<open>mappages\<close> and \<open>setupkvm\<close> on the map of an address space.\<close>

unbundle bit_operations_syntax

section \<open>Ranges of pages\<close>

lemma unat_page_big: "n < 1048576 \<Longrightarrow> unat (page n) = 4096 * n"
  unfolding page_def unat_of_nat by (rule mod_less) simp

lemma vpn_page: "n < 1048576 \<Longrightarrow> vpn (page n) = n"
  by (simp add: vpn_def unat_page_big)

lemma page_inj: "n < 1048576 \<Longrightarrow> k < 1048576 \<Longrightarrow> page n = page k \<longleftrightarrow> n = k"
  using vpn_page by metis

lemma PGROUNDDOWN_page: "PGROUNDDOWN a = page (vpn a)"
proof -
  have "PGROUNDDOWN a = a AND NOT (mask 12)" by (simp add: PGROUNDDOWN_def mask_eq_exp_minus_1)
  also have "\<dots> = a div 4096 * 4096" by (simp add: and_not_mask_div)
  also have "a div 4096 = of_nat (vpn a)" by (simp add: vpn_def word_arith_nat_div)
  finally show ?thesis by (simp add: page_def)
qed

definition mapped :: "(nat \<Rightarrow> u32) \<Rightarrow> nat \<Rightarrow> nat \<Rightarrow> u32 \<Rightarrow> u32 \<Rightarrow> nat \<Rightarrow> u32" where
  "mapped E n0 k pa perm = (\<lambda>n. if n0 \<le> n \<and> n < k then (pa + page (n - n0)) OR perm OR 1 else E n)"

lemma mapped_Suc: "n0 < k \<Longrightarrow> mapped (E(n0 := pa OR perm OR 1)) (Suc n0) k (pa + PGSIZE) perm = mapped E n0 k pa perm"
proof
  fix n assume "n0 < k"
  have "pa + PGSIZE + page (n - Suc n0) = pa + page (n - n0)" if "Suc n0 \<le> n"
    using that page_less(3) [of "n - Suc n0"] by (simp add: add.assoc add.commute [of PGSIZE] Suc_diff_Suc Suc_le_lessD)
  then show "mapped (E(n0 := pa OR perm OR 1)) (Suc n0) k (pa + PGSIZE) perm n = mapped E n0 k pa perm n"
    using \<open>n0 < k\<close> by (auto simp: mapped_def page_def)
qed

section \<open>mappages\<close>

lemma map_step:
  assumes "aspace kend s d T E xs" and "n < 1048576" and "E n AND 1 = 0"
    and "T (n div 1024) = None \<Longrightarrow> xs = [] \<Longrightarrow> Q (-1) s"
    and "\<And>s' T' xs'. aspace kend s' d T' (E(n := v)) xs' \<Longrightarrow> grow d T xs T' xs' {n div 1024} \<Longrightarrow> n div 1024 \<in> dom T' \<Longrightarrow>
      keeps kend (tables d T \<union> set xs) (mem s) (mem s') \<Longrightarrow> run K s' Q"
  shows "run (bnd (walkpgdir d (page n) True) (\<lambda>pte. if pte = 0 then ret (-1)
    else bnd (get32 pte) (\<lambda>e. if e AND PTE_P \<noteq> 0 then panic ''remap'' else seq (put32 pte v) K))) s Q"
proof (rule run_bnd [OF walk_create_law [OF assms(1), of "page n", unfolded vpn_page [OF assms(2)]]], goal_cases)
  case (1 a s1)
  show ?case
  proof (cases "T (n div 1024) = None \<and> xs = []")
    case True
    then show ?thesis using 1 assms(4) by simp
  next
    case False
    then obtain T' xs' where a: "aspace kend s1 d T' E xs'" "grow d T xs T' xs' {n div 1024}" "T' (n div 1024) \<noteq> None" "a = pte_of T' n" "a \<noteq> 0"
      "keeps kend (tables d T \<union> set xs) (mem s) (mem s1)" using 1 by auto
    have p: "pgdir_ok kend (mem s1) d T' E" using a(1) by (simp add: aspace_def)
    have nz: "pte_of T' n \<noteq> 0" using a by simp
    define s2 where "s2 = s1\<lparr>mem := wr (mem s1) (unat a) (le32 v)\<rparr>"
    note w = pte_put [OF p nz, of v, folded a(4)]
    have "free_list kend s2 xs'" by (rule free_list_keeps [of kend s1 xs' "ran T'"]) (use a(1) w(2) in \<open>auto simp: aspace_def s2_def tables_def\<close>)
    then have a2: "aspace kend s2 d T' (E(n := v)) xs'" using w(1) a(1) by (simp add: aspace_def s2_def)
    have "ran T' \<subseteq> tables d T \<union> set xs" using a(2) by (auto simp: grow_def tables_def)
    then have "keeps kend (tables d T \<union> set xs) (mem s) (mem s2)" using keeps_trans [OF a(6) w(2)] by (simp add: s2_def)
    then have "run K s2 Q" using assms(5) [OF a2 a(2) _] a(3) by auto
    then show ?thesis using a(5) pte_get [OF p nz] assms(3) by (simp add: a(4) get32_def put32_def put_bytes_def run_bnd_iff s2_def)
  qed
qed

lemma div_range: "n0 < n1 \<Longrightarrow> {n0 div 1024..n1 div 1024} = insert (n0 div 1024) {Suc n0 div 1024..n1 div 1024}" for n0 n1 :: nat
proof -
  assume "n0 < n1"
  then have "n0 div 1024 \<le> n1 div 1024" "Suc n0 div 1024 = n0 div 1024 \<or> Suc n0 div 1024 = Suc (n0 div 1024)" by (auto simp: div_Suc div_le_mono)
  then show ?thesis by auto
qed

lemma mappages_loop_law:
  assumes "aspace kend s d T E xs" and "n0 \<le> n1" and "n1 < 1048576" and "n1 - n0 < fuel" and "\<forall>n. n0 \<le> n \<and> n \<le> n1 \<longrightarrow> E n AND 1 = 0"
  shows "run (mappages_loop fuel d (page n0) (page n1) pa perm) s (\<lambda>r s'. \<exists>T' E' xs'.
    aspace kend s' d T' E' xs' \<and> grow d T xs T' xs' {n0 div 1024..n1 div 1024} \<and> keeps kend (tables d T \<union> set xs) (mem s) (mem s') \<and>
    (r = 0 \<and> E' = mapped E n0 (Suc n1) pa perm \<and> {n0 div 1024..n1 div 1024} \<subseteq> dom T' \<or>
     r = -1 \<and> xs' = [] \<and> \<not> {n0 div 1024..n1 div 1024} \<subseteq> dom T'))"
  (is "run _ _ (?Q s T E xs n0 pa)")
  using assms
proof (induction fuel arbitrary: s T E xs n0 pa)
  case (Suc fuel)
  note 1 = Suc.prems
  show ?case unfolding mappages_loop.simps
  proof (rule map_step [OF 1(1), of n0 _ "pa OR perm OR 1"])
    show "n0 < 1048576" "E n0 AND 1 = 0" using 1 by auto
  next
    assume "T (n0 div 1024) = None" "xs = []"
    then show "?Q s T E xs n0 pa (-1) s" using 1 by (intro exI [of _ T] exI [of _ E] exI [of _ xs]) (auto simp: div_le_mono subset_iff)
  next
    fix s' T' xs'
    assume a: "aspace kend s' d T' (E(n0 := pa OR perm OR 1)) xs'" and g: "grow d T xs T' xs' {n0 div 1024}"
      and i: "n0 div 1024 \<in> dom T'" and k: "keeps kend (tables d T \<union> set xs) (mem s) (mem s')"
    show "run (if page n0 = page n1 then ret 0 else mappages_loop fuel d (page n0 + PGSIZE) (page n1) (pa + PGSIZE) perm) s' (?Q s T E xs n0 pa)"
    proof (cases "n0 = n1")
      case True
      moreover have "E(n1 := pa OR perm OR 1) = mapped E n1 (Suc n1) pa perm" by (auto simp: mapped_def page_def)
      ultimately show ?thesis using a g i k by (auto intro!: exI [of _ T'] exI [of _ xs'])
    next
      case False
      then have n: "n0 < n1" "page n0 \<noteq> page n1" using 1 page_inj [of n0 n1] by auto
      have "run (mappages_loop fuel d (page (Suc n0)) (page n1) (pa + PGSIZE) perm) s' (?Q s' T' (E(n0 := pa OR perm OR 1)) xs' (Suc n0) (pa + PGSIZE))"
        by (rule Suc.IH [OF a]) (use n 1 in auto)
      then have "run (mappages_loop fuel d (page (Suc n0)) (page n1) (pa + PGSIZE) perm) s' (?Q s T E xs n0 pa)"
      proof (rule run_weaken, elim exE conjE)
        fix r :: int and s'' T'' E'' xs''
        assume b: "aspace kend s'' d T'' E'' xs''" "grow d T' xs' T'' xs'' {Suc n0 div 1024..n1 div 1024}" "keeps kend (tables d T' \<union> set xs') (mem s') (mem s'')"
          "r = 0 \<and> E'' = mapped (E(n0 := pa OR perm OR 1)) (Suc n0) (Suc n1) (pa + PGSIZE) perm \<and> {Suc n0 div 1024..n1 div 1024} \<subseteq> dom T'' \<or>
           r = -1 \<and> xs'' = [] \<and> \<not> {Suc n0 div 1024..n1 div 1024} \<subseteq> dom T''"
        have "grow d T xs T'' xs'' {n0 div 1024..n1 div 1024}" using grow_trans [OF g b(2)] div_range [OF n(1)] by simp
        moreover have "keeps kend (tables d T \<union> set xs) (mem s) (mem s'')" by (rule keeps_trans [OF k b(3)]) (use g in \<open>auto simp: grow_def\<close>)
        moreover have "dom T' \<subseteq> dom T''" using b(2) by (auto simp: grow_def dest: map_le_implies_dom_le)
        ultimately show "?Q s T E xs n0 pa r s''" using b(1,4) i mapped_Suc [of n0 "Suc n1" E pa perm] n(1) div_range [OF n(1)]
          by (intro exI [of _ T''] exI [of _ E''] exI [of _ xs'']) auto
      qed
      then show ?thesis using n(2) by (simp add: page_less(3))
    qed
  qed
qed simp

lemma page_diff: "a \<le> b \<Longrightarrow> page b - page a = page (b - a)"
  by (simp add: page_def of_nat_diff algebra_simps)

lemma page_end:
  assumes "a < b" and "b \<le> 1048576"
  shows "PGROUNDDOWN (page a + (page b - page a) - 1) = page (b - 1)"
proof -
  have b: "unat (page (b - 1)) = 4096 * (b - 1)" "page b = page (b - 1) + 4096" using assms page_less(3) [of "b - 1"] by (simp_all add: unat_page_big)
  have "unat (page (b - 1) + 4095) = 4096 * (b - 1) + 4095" using assms b(1) by (simp add: unat_word_ariths)
  then have "vpn (page (b - 1) + 4095) = b - 1" unfolding vpn_def by simp
  then show ?thesis unfolding PGROUNDDOWN_page b(2) by (simp add: algebra_simps)
qed

lemma mappages_law:
  assumes "aspace kend s d T E xs" and "a < b" and "b \<le> 1048576" and "\<forall>n. a \<le> n \<and> n < b \<longrightarrow> E n AND 1 = 0"
  shows "run (mappages d (page a) (page b - page a) pa perm) s (\<lambda>r s'. \<exists>T' E' xs'.
    aspace kend s' d T' E' xs' \<and> grow d T xs T' xs' {a div 1024..(b - 1) div 1024} \<and> keeps kend (tables d T \<union> set xs) (mem s) (mem s') \<and>
    (r = 0 \<and> E' = mapped E a b pa perm \<and> {a div 1024..(b - 1) div 1024} \<subseteq> dom T' \<or>
     r = -1 \<and> xs' = [] \<and> \<not> {a div 1024..(b - 1) div 1024} \<subseteq> dom T'))"
proof -
  have "PGROUNDDOWN (page a) = page a" using assms vpn_page [of a] by (simp add: PGROUNDDOWN_page)
  moreover have "a \<le> b - 1" "b - 1 < 1048576" "b - 1 - a < VM_FUEL" "\<forall>n. a \<le> n \<and> n \<le> b - 1 \<longrightarrow> E n AND 1 = 0" "Suc (b - 1) = b"
    using assms by (auto simp: VM_FUEL_def)
  note mappages_loop_law [OF assms(1) this(1-4), of pa perm, unfolded this(5)]
  ultimately show ?thesis unfolding mappages_def page_end [OF assms(2,3)] by simp
qed

section \<open>The kernel part\<close>

type_synonym range = "nat \<times> nat \<times> u32"

fun ranges_ok :: "nat \<Rightarrow> range list \<Rightarrow> bool" where
  "ranges_ok lo [] \<longleftrightarrow> True"
| "ranges_ok lo ((a, b, perm) # rs) \<longleftrightarrow> lo \<le> a \<and> a < b \<and> b \<le> 1048576 \<and> ranges_ok b rs"

fun map_ranges :: "(nat \<Rightarrow> u32) \<Rightarrow> range list \<Rightarrow> nat \<Rightarrow> u32" where
  "map_ranges E [] = E"
| "map_ranges E ((a, b, perm) # rs) = map_ranges (mapped E a b (page a) perm) rs"

fun table_range :: "range \<Rightarrow> nat set" where
  "table_range (a, b, perm) = {a div 1024..(b - 1) div 1024}"

fun range_entry :: "range \<Rightarrow> kmap_entry" where
  "range_entry (a, b, perm) = \<lparr>km_p = page a, km_e = page b, km_perm = perm\<rparr>"

lemma map_kernel_law:
  assumes "aspace kend s d T E xs" and "ranges_ok lo rs" and "\<forall>n\<ge>lo. E n AND 1 = 0"
  shows "run (map_kernel d (map range_entry rs)) s (\<lambda>r s'. \<exists>T' E' xs'.
    aspace kend s' d T' E' xs' \<and> grow d T xs T' xs' (\<Union> (table_range ` set rs)) \<and> keeps kend (tables d T \<union> set xs) (mem s) (mem s') \<and>
    (r = d \<and> E' = map_ranges E rs \<and> \<Union> (table_range ` set rs) \<subseteq> dom T' \<or>
     r = 0 \<and> xs' = [] \<and> \<not> \<Union> (table_range ` set rs) \<subseteq> dom T'))"
  (is "run _ _ (?Q s T E xs rs)")
  using assms
proof (induction rs arbitrary: s T E xs lo)
  case Nil
  then show ?case by (auto intro!: exI [of _ T] exI [of _ xs])
next
  case (Cons q rs)
  obtain a b perm where q: "q = (a, b, perm)" by (cases q)
  note p = Cons.prems [unfolded q ranges_ok.simps]
  have "run (bnd (mappages d (page a) (page b - page a) (page a) perm) (\<lambda>r. if r < 0 then ret 0 else map_kernel d (map range_entry rs))) s (?Q s T E xs (q # rs))"
  proof (rule run_bnd [OF mappages_law [OF p(1), of a b]], goal_cases)
    case (4 r s1)
    then obtain T1 E1 xs1 where 1: "aspace kend s1 d T1 E1 xs1" "grow d T xs T1 xs1 {a div 1024..(b - 1) div 1024}" "keeps kend (tables d T \<union> set xs) (mem s) (mem s1)"
      "r = 0 \<and> E1 = mapped E a b (page a) perm \<and> {a div 1024..(b - 1) div 1024} \<subseteq> dom T1 \<or> r = -1 \<and> xs1 = [] \<and> \<not> {a div 1024..(b - 1) div 1024} \<subseteq> dom T1"
      by blast
    show ?case
    proof (cases "r = 0")
      case True
      then have E1: "E1 = mapped E a b (page a) perm" "{a div 1024..(b - 1) div 1024} \<subseteq> dom T1" using 1 by auto
      have "run (map_kernel d (map range_entry rs)) s1 (?Q s1 T1 E1 xs1 rs)"
        by (rule Cons.IH [OF 1(1), of b]) (use p in \<open>auto simp: E1 mapped_def\<close>)
      then have "run (map_kernel d (map range_entry rs)) s1 (?Q s T E xs (q # rs))"
      proof (rule run_weaken, elim exE conjE)
        fix r s2 T2 E2 xs2
        assume 2: "aspace kend s2 d T2 E2 xs2" "grow d T1 xs1 T2 xs2 (\<Union> (table_range ` set rs))" "keeps kend (tables d T1 \<union> set xs1) (mem s1) (mem s2)"
          "r = d \<and> E2 = map_ranges E1 rs \<and> \<Union> (table_range ` set rs) \<subseteq> dom T2 \<or> r = 0 \<and> xs2 = [] \<and> \<not> \<Union> (table_range ` set rs) \<subseteq> dom T2"
        have "grow d T xs T2 xs2 (\<Union> (table_range ` set (q # rs)))" using grow_trans [OF 1(2) 2(2)] by (simp add: q)
        moreover have "keeps kend (tables d T \<union> set xs) (mem s) (mem s2)" by (rule keeps_trans [OF 1(3) 2(3)]) (use 1(2) in \<open>auto simp: grow_def\<close>)
        moreover have "dom T1 \<subseteq> dom T2" using 2(2) by (auto simp: grow_def dest: map_le_implies_dom_le)
        with E1(2) have "{a div 1024..(b - 1) div 1024} \<subseteq> dom T2" by (rule order_trans)
        then have "\<Union> (table_range ` set (q # rs)) \<subseteq> dom T2 \<longleftrightarrow> \<Union> (table_range ` set rs) \<subseteq> dom T2" by (simp add: q)
        moreover have "map_ranges E (q # rs) = map_ranges E1 rs" by (simp add: q E1)
        ultimately show "?Q s T E xs (q # rs) r s2" using 2(1,4) by (intro exI [of _ T2] exI [of _ E2] exI [of _ xs2]) simp
      qed
      then show ?thesis using True by simp
    next
      case False
      have "grow d T xs T1 xs1 (\<Union> (table_range ` set (q # rs)))" using 1(2) by (auto simp: q grow_def)
      moreover have "r = -1" "xs1 = []" "\<not> \<Union> (table_range ` set (q # rs)) \<subseteq> dom T1" using False 1(4) by (auto simp: q)
      ultimately have "?Q s T E xs (q # rs) 0 s1" using 1(1,3) by (intro exI [of _ T1] exI [of _ E1] exI [of _ xs1]) simp
      then show ?thesis using \<open>r = -1\<close> by simp
    qed
  qed (use p in auto)
  then show ?case by (simp add: q)
qed

definition kernel_ranges :: "nat \<Rightarrow> range list" where
  "kernel_ranges kd = [(160, 256, 2), (256, kd, 0), (kd, 4096, 2), (0xFE000, 0x100000, 2)]"

definition kernel_map :: "nat \<Rightarrow> nat \<Rightarrow> u32" where
  "kernel_map kd = map_ranges (\<lambda>_. 0) (kernel_ranges kd)"

definition ktables :: "nat set" where
  "ktables = {0..3} \<union> {1016..1023}"

lemma page_add: "page a + page b = page (a + b)"
  by (simp add: page_def algebra_simps)

lemma page_mod: "n < 1048576 \<Longrightarrow> page n mod 4096 = 0"
  using unat_page_big [of n] by (simp add: unat_mod flip: unat_eq_0)

text \<open>The map is the identity where something is mapped, and no page is for the user.\<close>

lemma kernel_map_eq:
  assumes "256 < kd" and "kd < 4096"
  shows "kernel_map kd n = (if 160 \<le> n \<and> n < 4096 \<or> 0xFE000 \<le> n \<and> n < 0x100000
    then page n OR (if 256 \<le> n \<and> n < kd then 1 else 3) else 0)"
  using assms by (auto simp: kernel_map_def kernel_ranges_def mapped_def page_add)

lemma kernel_map_user: "256 < kd \<Longrightarrow> kd < 4096 \<Longrightarrow> n < 160 \<Longrightarrow> kernel_map kd n = 0"
  by (simp add: kernel_map_eq)

lemma kernel_map_flags: "256 < kd \<Longrightarrow> kd < 4096 \<Longrightarrow> kernel_map kd n AND 4 = 0"
  by (auto simp: kernel_map_eq flags_entry page_mod)

lemma kmap_ranges:
  assumes "256 < kd" and "kd < 4096"
  shows "kmap (page kd) = map range_entry (kernel_ranges kd)" and "ranges_ok 0 (kernel_ranges kd)"
    and "\<Union> (table_range ` set (kernel_ranges kd)) = ktables"
proof -
  show "kmap (page kd) = map range_entry (kernel_ranges kd)" by (simp add: kmap_def kernel_ranges_def page_def)
  show "ranges_ok 0 (kernel_ranges kd)" using assms by (simp add: kernel_ranges_def)
  have "kd div 1024 \<le> 3" "(kd - 1) div 1024 \<le> kd div 1024" "kd div 1024 \<le> Suc ((kd - 1) div 1024)"
    using assms div_Suc [of "kd - 1" 1024] by (auto simp: div_le_mono)
  then have "{0..(kd - 1) div 1024} \<union> {kd div 1024..3} = {0..3}" by auto
  then show "\<Union> (table_range ` set (kernel_ranges kd)) = ktables" by (auto simp: kernel_ranges_def ktables_def)
qed

lemma card_ktables: "finite ktables" "card ktables = 12"
  by (simp_all add: ktables_def card_Un_disjoint)

lemma new_dir:
  assumes "free_list kend s (d # ys)"
  defines "s' \<equiv> s\<lparr>freelist := of_le32 (rd (mem s) (unat d) 4), mem := wr (mem s) (unat d) (replicate 4096 0)\<rparr>"
  shows "aspace kend s' d (\<lambda>_. None) (\<lambda>_. 0) ys" and "seq kalloc (zero_page d) s = Ret ((), s')" and "keeps kend {d} (mem s) (mem s')" and "d \<noteq> 0"
    and "kalloc s = Ret (d, s\<lparr>freelist := freelist s'\<rparr>)"
proof -
  have d: "page_ok kend d" "d \<notin> set ys" using assms(1) by (auto simp: free_list_def)
  then show z: "d \<noteq> 0" by (simp add: page_ok_def)
  show k: "keeps kend {d} (mem s) (mem s')" using keeps_wr [OF d(1), of 0 "replicate 4096 0"] by (simp add: s'_def)
  have "free_list kend (s\<lparr>freelist := freelist s'\<rparr>) ys" using assms(1) by (auto simp: free_list_def s'_def)
  then have "free_list kend s' ys" by (rule free_list_keeps [where A = "{d}"]) (use k d in auto)
  moreover have "pgdir_ok kend (mem s') d (\<lambda>_. None) (\<lambda>_. 0)" using d(1) by (simp add: pgdir_ok_def tables_def s'_def w32_zero)
  ultimately show "aspace kend s' d (\<lambda>_. None) (\<lambda>_. 0) ys" using d(2) by (simp add: aspace_def tables_def)
  show "kalloc s = Ret (d, s\<lparr>freelist := freelist s'\<rparr>)" using assms(1) z by (simp add: kalloc_def free_list_def s'_def)
  then show "seq kalloc (zero_page d) s = Ret ((), s')" by (simp add: zero_page_def put_bytes_def s'_def)
qed

lemma setupkvm_law:
  assumes "free_list kend s xs" and "256 < kd" and "kd < 4096"
  shows "run (setupkvm (page kd)) s (\<lambda>d s'. keeps kend (set xs) (mem s) (mem s') \<and>
    (if length xs < 13 then d = 0 \<and> free_list kend s' []
     else d \<noteq> 0 \<and> (\<exists>T xs'. aspace kend s' d T (kernel_map kd) xs' \<and> dom T = ktables \<and> tables d T \<union> set xs' = set xs \<and> length xs = 13 + length xs')))"
proof (cases xs)
  case Nil
  then show ?thesis using assms(1) by (auto simp: setupkvm_def kalloc_def free_list_def run_def)
next
  case (Cons d ys)
  note n = new_dir [OF assms(1) [unfolded Cons]] and k = kmap_ranges [OF assms(2,3)]
  define s1 where "s1 = s\<lparr>freelist := of_le32 (rd (mem s) (unat d) 4), mem := wr (mem s) (unat d) (replicate 4096 0)\<rparr>"
  have e: "setupkvm (page kd) s = map_kernel d (map range_entry (kernel_ranges kd)) s1"
    using n(4,5) by (simp add: setupkvm_def k(1) zero_page_def put_bytes_def s1_def)
  have "run (map_kernel d (map range_entry (kernel_ranges kd))) s1 (\<lambda>r s'. keeps kend (set xs) (mem s) (mem s') \<and>
    (if length xs < 13 then r = 0 \<and> free_list kend s' []
     else r \<noteq> 0 \<and> (\<exists>T xs'. aspace kend s' r T (kernel_map kd) xs' \<and> dom T = ktables \<and> tables r T \<union> set xs' = set xs \<and> length xs = 13 + length xs')))"
  proof (rule run_weaken, rule map_kernel_law [OF n(1) [folded s1_def] k(2)], unfold k(3) kernel_map_def [symmetric], goal_cases)
    case (2 r s')
    then obtain T E xs' where 1: "aspace kend s' d T E xs'" "grow d (\<lambda>_. None) ys T xs' ktables" "keeps kend (tables d (\<lambda>_. None) \<union> set ys) (mem s1) (mem s')"
      "r = d \<and> E = kernel_map kd \<and> ktables \<subseteq> dom T \<or> r = 0 \<and> xs' = [] \<and> \<not> ktables \<subseteq> dom T" by blast
    have g: "dom T \<subseteq> ktables" "tables d T \<union> set xs' = set xs" "length xs' + card (dom T) = length ys"
      using 1(2) by (auto simp: grow_def Cons tables_def)
    have kp: "keeps kend (set xs) (mem s) (mem s')" by (rule keeps_trans [OF n(3) [folded s1_def] 1(3)]) (auto simp: Cons tables_def)
    show ?case
    proof (cases "ktables \<subseteq> dom T")
      case True
      then have "dom T = ktables" using g(1) by auto
      then show ?thesis using 1 g kp n(4) card_ktables Cons by (auto intro!: exI [of _ T] exI [of _ xs'])
    next
      case False
      then have "card (dom T) < 12" using psubset_card_mono [of ktables "dom T"] g(1) card_ktables by auto
      then show ?thesis using 1 g False kp Cons by (auto simp: aspace_def)
    qed
  qed simp
  then show ?thesis by (simp add: run_def e)
qed

end
