(* ===== verification/Vm_User.thy ===== *)
theory Vm_User
  imports Vm_Map
begin

unbundle bit_operations_syntax

text \<open>
  User memory. \<open>uspace kend s d T E U xs\<close>: the address space \<open>d\<close> with the free pages \<open>xs\<close>, whose user pages, below
  \<open>USERTOP\<close>, are \<open>U\<close>: distinct pages of the allocator that are neither free nor page tables, mapped for the user, while nothing
  above \<open>USERTOP\<close> is. All of user memory lies below one page table, the first.
\<close>

definition npages :: "u32 \<Rightarrow> nat" where
  "npages sz = (unat sz + 4095) div 4096"

definition umap_ok :: "u32 \<Rightarrow> (nat \<Rightarrow> u32) \<Rightarrow> (nat \<Rightarrow> u32 option) \<Rightarrow> bool" where
  "umap_ok kend E U \<longleftrightarrow> (\<forall>n<160. E n = (case U n of None \<Rightarrow> 0 | Some p \<Rightarrow> p OR 7)) \<and> dom U \<subseteq> {..<160} \<and> inj_on U (dom U) \<and>
     (\<forall>p\<in>ran U. page_ok kend p) \<and> (\<forall>n\<ge>160. E n AND PTE_U = 0)"

definition uspace :: "u32 \<Rightarrow> kmem \<Rightarrow> u32 \<Rightarrow> (nat \<Rightarrow> u32 option) \<Rightarrow> (nat \<Rightarrow> u32) \<Rightarrow> (nat \<Rightarrow> u32 option) \<Rightarrow> u32 list \<Rightarrow> bool" where
  "uspace kend s d T E U xs \<longleftrightarrow> aspace kend s d T E xs \<and> 0 \<in> dom T \<and> umap_ok kend E U \<and> ran U \<inter> (tables d T \<union> set xs) = {}"

lemma npages_le: "sz \<le> USERTOP \<Longrightarrow> npages sz \<le> 160"
  by (simp add: npages_def word_le_nat_alt)

lemma page_lt: "n \<le> 160 \<Longrightarrow> page n < sz \<longleftrightarrow> n < npages sz"
  using unat_page_big [of n] by (simp add: npages_def word_less_nat_alt) linarith

lemma PGROUNDUP_npages: "sz \<le> USERTOP \<Longrightarrow> PGROUNDUP sz = page (npages sz)"
  unfolding npages_def by (rule PGROUNDUP_page) (simp add: word_le_nat_alt)

lemma uspaceD:
  assumes "uspace kend s d T E U xs"
  shows "aspace kend s d T E xs" and "pgdir_ok kend (mem s) d T E" and "free_list kend s xs" and "T 0 \<noteq> None"
    and "n < 160 \<Longrightarrow> E n = (case U n of None \<Rightarrow> 0 | Some p \<Rightarrow> p OR 7)" and "U n = Some p \<Longrightarrow> n < 160" and "U n = Some p \<Longrightarrow> page_ok kend p"
    and "U n = Some p \<Longrightarrow> p \<notin> tables d T" and "U n = Some p \<Longrightarrow> p \<notin> set xs" and "U n = Some p \<Longrightarrow> U m = Some p \<Longrightarrow> n = m"
    and "160 \<le> n \<Longrightarrow> E n AND PTE_U = 0" and "tables d T \<inter> set xs = {}" and "inj_on U (dom U)"
proof -
  note a = assms [unfolded uspace_def aspace_def umap_ok_def]
  show "aspace kend s d T E xs" using assms by (simp add: uspace_def)
  show "pgdir_ok kend (mem s) d T E" "free_list kend s xs" "T 0 \<noteq> None" "tables d T \<inter> set xs = {}" "inj_on U (dom U)" using a by auto
  show "n < 160 \<Longrightarrow> E n = (case U n of None \<Rightarrow> 0 | Some p \<Rightarrow> p OR 7)" "160 \<le> n \<Longrightarrow> E n AND PTE_U = 0" using a by blast+
  show "U n = Some p \<Longrightarrow> n < 160" using a by auto
  show "U n = Some p \<Longrightarrow> page_ok kend p" "U n = Some p \<Longrightarrow> p \<notin> tables d T" "U n = Some p \<Longrightarrow> p \<notin> set xs" using a by (auto simp: ran_def)
  show "U n = Some p \<Longrightarrow> U m = Some p \<Longrightarrow> n = m" using a by (metis domI inj_onD)
qed

lemma uspace_keeps:
  assumes "uspace kend s d T E U xs" and "keeps kend A (mem s) (mem s')" and "freelist s' = freelist s" and "(tables d T \<union> set xs) \<inter> A = {}"
  shows "uspace kend s' d T E U xs"
  using assms aspace_keeps [OF _ assms(2-4)] by (auto simp: uspace_def)

text \<open>Another address space, of the same free pages, is not affected by what one does to its own pages.\<close>

lemma uspace_other:
  assumes "uspace kend s d T E U xs" and "keeps kend A (mem s) (mem s')" and "tables d T \<inter> A = {}"
    and "free_list kend s' xs'" and "set xs' \<inter> (tables d T \<union> ran U) = {}"
  shows "uspace kend s' d T E U xs'"
  using assms pgdir_keeps [OF uspaceD(2) [OF assms(1)] assms(2,3)] by (auto simp: uspace_def aspace_def)

section \<open>Mapping a page\<close>

lemma umap_ok_upd:
  assumes "umap_ok kend E U" and "n < 160" and "U n = None" and "page_ok kend x" and "x \<notin> ran U"
  shows "umap_ok kend (E(n := x OR 7)) (U(n \<mapsto> x))"
  using assms unfolding umap_ok_def by (auto simp: inj_on_def ran_def split: option.splits)

lemma grow_same_free:
  assumes "grow d T xs T' xs' I" and "\<forall>i\<in>I. T i \<noteq> None"
  shows "T' = T" and "xs' = xs"
proof -
  show "T' = T" by (rule grow_same [OF assms])
  then show "xs' = xs" using assms(1) by (auto simp: grow_def)
qed

lemma user_map:
  assumes "uspace kend s d T E U xs" and "n < 160" and "U n = None" and "page_ok kend x" and "x \<notin> tables d T" "x \<notin> set xs" "x \<notin> ran U"
  shows "run (mappages d (page n) PGSIZE x (PTE_W OR PTE_U)) s (\<lambda>r s'.
    r = 0 \<and> uspace kend s' d T (E(n := x OR 7)) (U(n \<mapsto> x)) xs \<and> keeps kend (tables d T \<union> set xs) (mem s) (mem s'))"
proof -
  have p: "page (Suc n) - page n = PGSIZE" using page_less(3) [of n] by (simp add: algebra_simps)
  have i: "n div 1024 = 0" using assms(2) by simp
  have e: "E n = 0" using uspaceD(5) [OF assms(1,2)] assms(3) by simp
  have m: "mapped E n (Suc n) x (PTE_W OR PTE_U) = E(n := x OR 7)" by (auto simp: mapped_def page_def less_Suc_eq)
  show ?thesis
  proof (rule run_weaken [OF mappages_law [OF uspaceD(1) [OF assms(1)], of n "Suc n" x "PTE_W OR PTE_U", unfolded p m]], goal_cases)
    case (4 r s')
    then obtain T' E' xs' where 1: "aspace kend s' d T' E' xs'" "grow d T xs T' xs' {0}" "keeps kend (tables d T \<union> set xs) (mem s) (mem s')"
      "r = 0 \<and> E' = E(n := x OR 7) \<or> r = -1 \<and> \<not> {0} \<subseteq> dom T'" using i by auto
    note g = grow_same_free [OF 1(2)]
    have T: "T' = T" "xs' = xs" using g uspaceD(4) [OF assms(1)] by auto
    have "umap_ok kend (E(n := x OR 7)) (U(n \<mapsto> x))" using assms by (intro umap_ok_upd) (auto simp: uspace_def)
    then show ?case using 1 uspaceD(4) [OF assms(1)] assms by (auto simp: T uspace_def)
  qed (use assms(2) e in \<open>auto simp: less_Suc_eq\<close>)
qed

text \<open>Taking a page off the free list and filling it.\<close>

lemma take_page:
  assumes "uspace kend s d T E U (x # xs)" and "length bs = 4096"
  defines "s1 \<equiv> s\<lparr>freelist := of_le32 (rd (mem s) (unat x) 4), mem := wr (mem s) (unat x) bs\<rparr>"
  shows "kalloc s = Ret (x, s\<lparr>freelist := freelist s1\<rparr>)" and "uspace kend s1 d T E U xs" and "x \<noteq> 0" and "page_ok kend x" and "x \<notin> tables d T"
    and "x \<notin> set xs" and "x \<notin> ran U" and "rd (mem s1) (unat x) 4096 = bs" and "keeps kend {x} (mem s) (mem s1)"
proof -
  have f: "free_list kend s (x # xs)" by (rule uspaceD(3) [OF assms(1)])
  show x: "page_ok kend x" "x \<notin> set xs" "x \<notin> tables d T" "x \<notin> ran U" using f assms(1) by (auto simp: free_list_def uspace_def aspace_def)
  then show z: "x \<noteq> 0" by (simp add: page_ok_def)
  show "kalloc s = Ret (x, s\<lparr>freelist := freelist s1\<rparr>)" using f z by (simp add: kalloc_def free_list_def s1_def)
  show "rd (mem s1) (unat x) 4096 = bs" using assms(2) by (simp add: s1_def rd_wr_same)
  show k: "keeps kend {x} (mem s) (mem s1)" using keeps_wr [OF x(1), of 0 bs] assms(2) by (simp add: s1_def)
  have "free_list kend (s\<lparr>freelist := freelist s1\<rparr>) xs" using f by (auto simp: free_list_def s1_def)
  then have "free_list kend s1 xs" by (rule free_list_keeps [where A = "{x}"]) (use k x in auto)
  then show "uspace kend s1 d T E U xs" using uspace_other [OF assms(1) k] x(3) assms(1) by (auto simp: uspace_def aspace_def)
qed

section \<open>deallocuvm\<close>

definition cut :: "(nat \<Rightarrow> 'a) \<Rightarrow> nat \<Rightarrow> nat \<Rightarrow> 'a \<Rightarrow> nat \<Rightarrow> 'a" where
  "cut f n N z = (\<lambda>m. if n \<le> m \<and> m < N then z else f m)"

definition user_pages :: "(nat \<Rightarrow> u32 option) \<Rightarrow> nat \<Rightarrow> nat \<Rightarrow> u32 set" where
  "user_pages U n N = {p. \<exists>m. n \<le> m \<and> m < N \<and> U m = Some p}"

lemma cut_empty: "N \<le> n \<Longrightarrow> cut f n N z = f" "N \<le> n \<Longrightarrow> user_pages U n N = {}"
  by (auto simp: cut_def user_pages_def fun_eq_iff)

lemma cut_step: "n < N \<Longrightarrow> cut (f(n := z)) (Suc n) N z = cut f n N z"
  by (auto simp: cut_def fun_eq_iff)

lemma user_pages_step: "n < N \<Longrightarrow> user_pages U n N = set_option (U n) \<union> user_pages U (Suc n) N"
proof -
  assume "n < N"
  then have "n \<le> m \<and> m < N \<longleftrightarrow> m = n \<or> Suc n \<le> m \<and> m < N" for m by auto
  then have "user_pages U n N = {p. \<exists>m. (m = n \<or> Suc n \<le> m \<and> m < N) \<and> U m = Some p}" unfolding user_pages_def by (metis (lifting))
  also have "\<dots> = {p. U n = Some p} \<union> user_pages U (Suc n) N" unfolding user_pages_def by blast
  also have "{p. U n = Some p} = set_option (U n)" by auto
  finally show ?thesis .
qed

lemma user_pages_upd: "user_pages (U(n := None)) (Suc n) N = user_pages U (Suc n) N"
proof -
  have "Suc n \<le> m \<and> m < N \<and> (U(n := None)) m = Some p \<longleftrightarrow> Suc n \<le> m \<and> m < N \<and> U m = Some p" for m p by auto
  then show ?thesis unfolding user_pages_def by simp
qed

lemma umap_ok_cut1:
  assumes "umap_ok kend E U" and "n < 160"
  shows "umap_ok kend (E(n := 0)) (U(n := None))"
  using assms unfolding umap_ok_def by (auto simp: inj_on_def ran_def split: option.splits)

lemma unmap_page_law:
  assumes u: "uspace kend s d T E U xs" and n: "n < 160"
  shows "run (unmap_page kend d (page n)) s (\<lambda>_ s'. \<exists>xs'. uspace kend s' d T (E(n := 0)) (U(n := None)) xs' \<and>
    set xs' = set_option (U n) \<union> set xs \<and> keeps kend (tables d T \<union> set_option (U n)) (mem s) (mem s'))"
proof -
  obtain t where t: "T 0 = Some t" using uspaceD(4) [OF u] by auto
  have nz: "pte_of T n \<noteq> 0" using t n entry_addr_0 [OF pgdir_okD(2) [OF uspaceD(2) [OF u] t], of n] by (simp add: pte_of_def)
  have w: "run (walkpgdir d (page n) False) s (\<lambda>a s'. s' = s \<and> a = pte_of T n)"
    using walk_law [OF uspaceD(2) [OF u], of "page n"] n by (simp add: vpn_page)
  have g: "w32 (mem s) (pte_of T n) = E n" by (rule pte_get [OF uspaceD(2) [OF u] nz])
  show ?thesis
  proof (cases "U n")
    case None
    then have "E n = 0" using uspaceD(5) [OF u n] by simp
    then have "E(n := 0) = E" "U(n := None) = U" using None by auto
    then show ?thesis unfolding unmap_page_def using None u nz g \<open>E n = 0\<close> by (intro run_bnd [OF w]) (auto simp: get32_def run_bnd_iff)
  next
    case (Some p)
    have p: "page_ok kend p" "p \<notin> set xs" "p \<notin> tables d T" using uspaceD(7-9) [OF u Some] by auto
    have E: "E n AND 1 \<noteq> 0" "PTE_ADDR (E n) = p" "p \<noteq> 0" using Some uspaceD(5) [OF u n] dir_entry_P [OF p(1)] p(1) by (auto simp: page_ok_def)
    have "run (seq (kfree kend p) (put32 (pte_of T n) 0)) s (\<lambda>_ s'. \<exists>xs'. uspace kend s' d T (E(n := 0)) (U(n := None)) xs' \<and>
      set xs' = set_option (U n) \<union> set xs \<and> keeps kend (tables d T \<union> set_option (U n)) (mem s) (mem s'))"
    proof (rule run_bnd [OF kfree_law [OF uspaceD(3) [OF u] p(1,2)]], elim conjE)
      fix s1 assume f: "free_list kend s1 (p # xs)" and k: "keeps kend {p} (mem s) (mem s1)"
      define s2 where "s2 = s1\<lparr>mem := wr (mem s1) (unat (pte_of T n)) (le32 0)\<rparr>"
      have "pgdir_ok kend (mem s1) d T E" by (rule pgdir_keeps [OF uspaceD(2) [OF u] k]) (use p in auto)
      note w = pte_put [OF this nz, of 0]
      have "free_list kend s2 (p # xs)"
        by (rule free_list_keeps [OF f, of "ran T"]) (use w(2) p uspaceD(12) [OF u] in \<open>auto simp: s2_def tables_def\<close>)
      moreover have "umap_ok kend (E(n := 0)) (U(n := None))" using u n by (intro umap_ok_cut1) (auto simp: uspace_def)
      moreover have "p \<notin> ran (U(n := None))" using uspaceD(10) [OF u Some] by (auto simp: ran_def)
      ultimately have "uspace kend s2 d T (E(n := 0)) (U(n := None)) (p # xs)"
        using u w(1) p by (auto simp: uspace_def aspace_def s2_def ran_def)
      moreover have "keeps kend (tables d T \<union> {p}) (mem s) (mem s2)" using keeps_trans [OF k w(2), of "tables d T \<union> {p}"] by (auto simp: tables_def s2_def)
      ultimately show "run (put32 (pte_of T n) 0) s1 (\<lambda>_ s'. \<exists>xs'. uspace kend s' d T (E(n := 0)) (U(n := None)) xs' \<and>
          set xs' = set_option (U n) \<union> set xs \<and> keeps kend (tables d T \<union> set_option (U n)) (mem s) (mem s'))"
        using Some by (auto simp: put32_def put_bytes_def s2_def intro!: exI [of _ "p # xs"])
    qed
    then show ?thesis unfolding unmap_page_def using E nz g by (intro run_bnd [OF w]) (auto simp: get32_def run_bnd_iff [of "gets _"])
  qed
qed

lemma deallocuvm_loop_law:
  assumes "uspace kend s d T E U xs" and "oldsz \<le> USERTOP" and "n \<le> 160" and "npages oldsz - n < fuel"
  shows "run (deallocuvm_loop fuel kend d (page n) oldsz) s (\<lambda>_ s'. \<exists>xs'.
    uspace kend s' d T (cut E n (npages oldsz) 0) (cut U n (npages oldsz) None) xs' \<and>
    set xs' = user_pages U n (npages oldsz) \<union> set xs \<and> keeps kend (tables d T \<union> user_pages U n (npages oldsz)) (mem s) (mem s'))"
  (is "run _ _ (?Q s E U xs n)")
  using assms
proof (induction fuel arbitrary: s E U xs n)
  case (Suc fuel)
  note 1 = Suc.prems
  show ?case
  proof (cases "n < npages oldsz")
    case True
    have n: "n < 160" "Suc n \<le> 160" "page n < oldsz" using True npages_le [OF 1(2)] page_lt [of n oldsz] by auto
    have "run (seq (unmap_page kend d (page n)) (deallocuvm_loop fuel kend d (page (Suc n)) oldsz)) s (?Q s E U xs n)"
    proof (rule run_bnd [OF unmap_page_law [OF 1(1) n(1)]], elim exE conjE)
      fix s1 xs1
      assume a: "uspace kend s1 d T (E(n := 0)) (U(n := None)) xs1" "set xs1 = set_option (U n) \<union> set xs"
        "keeps kend (tables d T \<union> set_option (U n)) (mem s) (mem s1)"
      have "run (deallocuvm_loop fuel kend d (page (Suc n)) oldsz) s1 (?Q s1 (E(n := 0)) (U(n := None)) xs1 (Suc n))"
        using 1 True n by (intro Suc.IH [OF a(1)]) auto
      then show "run (deallocuvm_loop fuel kend d (page (Suc n)) oldsz) s1 (?Q s E U xs n)"
        unfolding cut_step [OF True] user_pages_upd
      proof (rule run_weaken, elim exE conjE)
        fix s2 xs2
        assume b: "uspace kend s2 d T (cut E n (npages oldsz) 0) (cut U n (npages oldsz) None) xs2" "set xs2 = user_pages U (Suc n) (npages oldsz) \<union> set xs1"
          "keeps kend (tables d T \<union> user_pages U (Suc n) (npages oldsz)) (mem s1) (mem s2)"
        have "keeps kend (tables d T \<union> user_pages U n (npages oldsz)) (mem s) (mem s2)"
          by (rule keeps_trans [OF a(3) b(3)]) (auto simp: user_pages_step [OF True])
        then show "?Q s E U xs n () s2" using b a(2) by (auto simp: user_pages_step [OF True] intro!: exI [of _ xs2])
      qed
    qed
    then show ?thesis using n by (simp add: page_less(3))
  next
    case False
    then have "\<not> page n < oldsz" using 1 page_lt by simp
    then show ?thesis using False 1 by (auto simp: cut_empty intro!: exI [of _ xs])
  qed
qed simp

lemma deallocuvm_law:
  assumes "uspace kend s d T E U xs" and "oldsz \<le> USERTOP" and "newsz < oldsz"
  shows "run (deallocuvm kend d oldsz newsz) s (\<lambda>r s'. r = newsz \<and> (\<exists>xs'.
    uspace kend s' d T (cut E (npages newsz) (npages oldsz) 0) (cut U (npages newsz) (npages oldsz) None) xs' \<and>
    set xs' = user_pages U (npages newsz) (npages oldsz) \<union> set xs \<and>
    keeps kend (tables d T \<union> user_pages U (npages newsz) (npages oldsz)) (mem s) (mem s')))"
proof -
  have n: "newsz \<le> USERTOP" "npages oldsz \<le> 160" using assms npages_le by auto
  then have "run (deallocuvm_loop VM_FUEL kend d (page (npages newsz)) oldsz) s (\<lambda>_ s'. \<exists>xs'.
    uspace kend s' d T (cut E (npages newsz) (npages oldsz) 0) (cut U (npages newsz) (npages oldsz) None) xs' \<and>
    set xs' = user_pages U (npages newsz) (npages oldsz) \<union> set xs \<and>
    keeps kend (tables d T \<union> user_pages U (npages newsz) (npages oldsz)) (mem s) (mem s'))"
    by (intro deallocuvm_loop_law [OF assms(1,2)] npages_le) (auto simp: VM_FUEL_def)
  then show ?thesis using assms(3) unfolding deallocuvm_def PGROUNDUP_npages [OF n(1)] by (auto simp: run_bnd_iff)
qed

section \<open>allocuvm\<close>

definition fill :: "(nat \<Rightarrow> 'a) \<Rightarrow> nat \<Rightarrow> nat \<Rightarrow> (nat \<Rightarrow> 'a) \<Rightarrow> nat \<Rightarrow> 'a" where
  "fill f n N g = (\<lambda>m. if n \<le> m \<and> m < N then g (m - n) else f m)"

lemma fill_empty: "N \<le> n \<Longrightarrow> fill f n N g = f"
  by (auto simp: fill_def fun_eq_iff)

lemma fill_step: "n < N \<Longrightarrow> fill (f(n := g 0)) (Suc n) N (\<lambda>k. g (Suc k)) = fill f n N g"
  by (auto simp: fill_def fun_eq_iff Suc_diff_Suc dest: Suc_leD)

lemma cut_upd: "n0 \<le> n \<Longrightarrow> n < N \<Longrightarrow> cut (f(n := v)) n0 N z = cut f n0 N z"
  by (auto simp: cut_def fun_eq_iff)

lemma user_pages_add: "n0 \<le> n \<Longrightarrow> n < N \<Longrightarrow> U n = None \<Longrightarrow> user_pages (U(n \<mapsto> x)) n0 N = insert x (user_pages U n0 N)"
proof (intro set_eqI iffI)
  fix p assume a: "n0 \<le> n" "n < N" "U n = None" "p \<in> insert x (user_pages U n0 N)"
  show "p \<in> user_pages (U(n \<mapsto> x)) n0 N"
  proof (cases "p = x")
    case True
    then show ?thesis using a by (auto simp: user_pages_def intro!: exI [of _ n])
  next
    case False
    then obtain m where "n0 \<le> m" "m < N" "U m = Some p" using a by (auto simp: user_pages_def)
    then show ?thesis using a(3) by (auto simp: user_pages_def intro!: exI [of _ m])
  qed
qed (auto simp: user_pages_def split: if_splits)

lemma kalloc_empty: "free_list kend s [] \<Longrightarrow> kalloc s = Ret (0, s)"
  by (simp add: kalloc_def free_list_def)

text \<open>One pass: a page off the free list, filled, and mapped.\<close>

lemma add_page:
  assumes "uspace kend s d T E U (x # xs)" and "n < 160" and "U n = None" and "length bs = 4096"
  shows "run (seq (put_bytes x bs) (mappages d (page n) PGSIZE x (PTE_W OR PTE_U))) (s\<lparr>freelist := of_le32 (rd (mem s) (unat x) 4)\<rparr>) (\<lambda>r s'.
    r = 0 \<and> uspace kend s' d T (E(n := x OR 7)) (U(n \<mapsto> x)) xs \<and> rd (mem s') (unat x) 4096 = bs \<and> keeps kend (tables d T \<union> set (x # xs)) (mem s) (mem s'))"
proof -
  note t = take_page [OF assms(1,4)]
  let ?s1 = "s\<lparr>freelist := of_le32 (rd (mem s) (unat x) 4), mem := wr (mem s) (unat x) bs\<rparr>"
  have "run (mappages d (page n) PGSIZE x (PTE_W OR PTE_U)) ?s1 (\<lambda>r s'.
    r = 0 \<and> uspace kend s' d T (E(n := x OR 7)) (U(n \<mapsto> x)) xs \<and> rd (mem s') (unat x) 4096 = bs \<and> keeps kend (tables d T \<union> set (x # xs)) (mem s) (mem s'))"
  proof (rule run_weaken [OF user_map [OF t(2) assms(2,3) t(4-7)]], elim conjE)
    fix r :: int and s' assume r: "r = 0" and u: "uspace kend s' d T (E(n := x OR 7)) (U(n \<mapsto> x)) xs" and k: "keeps kend (tables d T \<union> set xs) (mem ?s1) (mem s')"
    have "rd (mem s') (unat x) 4096 = bs" using k t(4-6,8) by (subst rd_same [of "mem ?s1"]) (auto simp: keeps_def)
    moreover have "keeps kend (tables d T \<union> set (x # xs)) (mem s) (mem s')" by (rule keeps_trans [OF t(9) k]) auto
    ultimately show "r = 0 \<and> uspace kend s' d T (E(n := x OR 7)) (U(n \<mapsto> x)) xs \<and> rd (mem s') (unat x) 4096 = bs \<and> keeps kend (tables d T \<union> set (x # xs)) (mem s) (mem s')"
      using r u by simp
  qed
  then show ?thesis by (simp add: put_bytes_def run_bnd_iff)
qed

definition alloc_post where
  "alloc_post kend d T oldsz newsz s E U xs n r s' \<longleftrightarrow>
    (if npages newsz - n \<le> length xs then r = newsz \<and>
      uspace kend s' d T (fill E n (npages newsz) (\<lambda>k. xs ! k OR 7)) (fill U n (npages newsz) (\<lambda>k. Some (xs ! k))) (drop (npages newsz - n) xs) \<and>
      (\<forall>k<npages newsz - n. rd (mem s') (unat (xs ! k)) 4096 = replicate 4096 0) \<and> keeps kend (tables d T \<union> set xs) (mem s) (mem s')
    else r = 0 \<and> (\<exists>xs'. uspace kend s' d T (cut E (npages oldsz) (npages newsz) 0) (cut U (npages oldsz) (npages newsz) None) xs' \<and>
      set xs' = user_pages U (npages oldsz) (npages newsz) \<union> set xs \<and>
      keeps kend (tables d T \<union> set xs \<union> user_pages U (npages oldsz) (npages newsz)) (mem s) (mem s')))"

lemma alloc_post_step:
  assumes "alloc_post kend d T oldsz newsz s2 (E(n := x OR 7)) (U(n \<mapsto> x)) ys (Suc n) r s3" and n: "npages oldsz \<le> n" "n < npages newsz" and U: "U n = None"
    and z: "rd (mem s2) (unat x) 4096 = replicate 4096 0" and k: "keeps kend (tables d T \<union> set (x # ys)) (mem s) (mem s2)"
    and x: "page_ok kend x" "x \<notin> tables d T" "x \<notin> set ys"
  shows "alloc_post kend d T oldsz newsz s E U (x # ys) n r s3"
proof (cases "npages newsz - n \<le> length (x # ys)")
  case True
  then have l: "npages newsz - Suc n \<le> length ys" "npages newsz - n = Suc (npages newsz - Suc n)" using n by auto
  have k3: "keeps kend (tables d T \<union> set ys) (mem s2) (mem s3)" and u: "r = newsz"
      "uspace kend s3 d T (fill (E(n := x OR 7)) (Suc n) (npages newsz) (\<lambda>k. ys ! k OR 7)) (fill (U(n \<mapsto> x)) (Suc n) (npages newsz) (\<lambda>k. Some (ys ! k))) (drop (npages newsz - Suc n) ys)"
      "\<forall>k<npages newsz - Suc n. rd (mem s3) (unat (ys ! k)) 4096 = replicate 4096 0"
    using assms(1) l by (simp_all add: alloc_post_def)
  have "rd (mem s3) (unat x) 4096 = replicate 4096 0" using k3 x by (subst rd_same [of "mem s2"]) (auto simp: keeps_def z)
  then have "\<forall>k<npages newsz - n. rd (mem s3) (unat ((x # ys) ! k)) 4096 = replicate 4096 0" using u(3) unfolding l(2) by (auto simp: less_Suc_eq_0_disj)
  moreover have "keeps kend (tables d T \<union> set (x # ys)) (mem s) (mem s3)" by (rule keeps_trans [OF k k3]) auto
  moreover have "fill (E(n := x OR 7)) (Suc n) (npages newsz) (\<lambda>k. ys ! k OR 7) = fill E n (npages newsz) (\<lambda>k. (x # ys) ! k OR 7)"
    using fill_step [OF n(2), of E "\<lambda>k. (x # ys) ! k OR 7"] by simp
  moreover have "fill (U(n \<mapsto> x)) (Suc n) (npages newsz) (\<lambda>k. Some (ys ! k)) = fill U n (npages newsz) (\<lambda>k. Some ((x # ys) ! k))"
    using fill_step [OF n(2), of U "\<lambda>k. Some ((x # ys) ! k)"] by simp
  ultimately show ?thesis using True u by (simp add: alloc_post_def l(2))
next
  case False
  then have l: "\<not> npages newsz - Suc n \<le> length ys" by auto
  have m: "keeps kend A (mem s2) (mem s3) \<Longrightarrow> tables d T \<union> set (x # ys) \<subseteq> A \<Longrightarrow> keeps kend A (mem s) (mem s3)" for A
    by (rule keeps_trans [OF k]) auto
  show ?thesis using assms(1) False l
    by (auto simp: alloc_post_def cut_upd [OF n] user_pages_add [of _ n _ U, OF n U] intro!: m)
qed

lemma allocuvm_loop_law:
  assumes "uspace kend s d T E U xs" and "newsz \<le> USERTOP" and "npages oldsz \<le> n" and "n \<le> npages newsz" and "\<forall>m\<ge>n. U m = None" and "npages newsz - n < fuel"
    and "oldsz \<le> newsz"
  shows "run (allocuvm_loop fuel kend d (page n) oldsz newsz) s (alloc_post kend d T oldsz newsz s E U xs n)"
  using assms
proof (induction fuel arbitrary: s E U xs n)
  case (Suc fuel)
  note 1 = Suc.prems
  let ?N = "npages newsz" and ?Q = "alloc_post kend d T oldsz newsz"
  show ?case
  proof (cases "n < ?N")
    case True
    have n: "n < 160" "page n < newsz" using True npages_le [OF 1(2)] page_lt [of n newsz] by auto
    show ?thesis
    proof (cases xs)
      case Nil
      have "oldsz < newsz" using 1(3,7) True by (metis leD le_less)
      then have "run (seq (deallocuvm kend d newsz oldsz) (ret 0)) s (?Q s E U xs n)"
        by (intro run_bnd [OF deallocuvm_law [OF 1(1,2)]]) (use True Nil in \<open>auto simp: alloc_post_def\<close>)
      then show ?thesis using n Nil kalloc_empty [of kend s] uspaceD(3) [OF 1(1)] by (simp add: run_def)
    next
      case (Cons x ys)
      let ?s1 = "s\<lparr>freelist := of_le32 (rd (mem s) (unat x) 4)\<rparr>"
      note t = take_page [OF 1(1) [unfolded Cons], of "replicate 4096 0"]
      have k: "kalloc s = Ret (x, ?s1)" "x \<noteq> 0" using t(1,3) by simp_all
      have "run (seq (seq (put_bytes x (replicate 4096 0)) (mappages d (page n) PGSIZE x (PTE_W OR PTE_U))) (allocuvm_loop fuel kend d (page (Suc n)) oldsz newsz)) ?s1 (?Q s E U xs n)"
      proof (rule run_bnd [OF add_page [OF 1(1) [unfolded Cons] n(1)]], goal_cases)
        case (3 r s2)
        then have b: "uspace kend s2 d T (E(n := x OR 7)) (U(n \<mapsto> x)) ys" by simp
        have "run (allocuvm_loop fuel kend d (page (Suc n)) oldsz newsz) s2 (?Q s2 (E(n := x OR 7)) (U(n \<mapsto> x)) ys (Suc n))"
          by (rule Suc.IH [OF b]) (use 1 True in auto)
        then show ?case unfolding Cons by (rule run_weaken, elim alloc_post_step) (use 1 3 True t(4-6) in auto)
      qed (use 1 in auto)
      then show ?thesis using n k by (simp add: zero_page_def run_def page_less(3) bnd_assoc)
    qed
  next
    case False
    then have "\<not> page n < newsz" "n = ?N" using 1 page_lt [of n newsz] npages_le [OF 1(2)] by auto
    then show ?thesis using 1 by (auto simp: fill_empty alloc_post_def)
  qed
qed simp

lemma allocuvm_law:
  assumes "uspace kend s d T E U xs" and "newsz \<le> USERTOP" and "oldsz \<le> newsz" and "\<forall>m\<ge>npages oldsz. U m = None"
  shows "run (allocuvm kend d oldsz newsz) s (alloc_post kend d T oldsz newsz s E U xs (npages oldsz))"
proof -
  have o: "oldsz \<le> USERTOP" using assms by order
  have "npages oldsz \<le> npages newsz" using assms(3) by (simp add: npages_def word_le_nat_alt div_le_mono)
  then show ?thesis using assms npages_le [OF assms(2)] unfolding allocuvm_def PGROUNDUP_npages [OF o]
    by (auto intro!: allocuvm_loop_law simp: VM_FUEL_def)
qed

end
