(* ===== verification/Vm_Copy.thy ===== *)
theory Vm_Copy
  imports Vm_User
begin

unbundle bit_operations_syntax

text \<open>Freeing an address space, copying one for a child, and writing into one.\<close>

section \<open>freevm\<close>

lemma free_tables_law:
  assumes "free_list kend s xs" and "distinct js" and "page_ok kend d" and "d \<notin> ran T" and "inj_on T (dom T)" and "\<forall>t\<in>ran T. page_ok kend t"
    and "\<forall>i\<in>set js. i < 1024 \<and> w32 (mem s) (d + 4 * of_nat i) = (case T i of None \<Rightarrow> 0 | Some t \<Rightarrow> t OR 7)"
    and "\<forall>i\<in>set js. \<forall>t. T i = Some t \<longrightarrow> t \<notin> set xs"
  shows "run (free_tables kend d js) s (\<lambda>_ s'. \<exists>xs'. free_list kend s' xs' \<and> set xs' = {t. \<exists>i\<in>set js. T i = Some t} \<union> set xs \<and> keeps kend (ran T) (mem s) (mem s'))"
  using assms
proof (induction js arbitrary: s xs)
  case Nil
  then show ?case by (auto intro!: exI [of _ xs])
next
  case (Cons i js)
  note 1 = Cons.prems
  show ?case
  proof (cases "T i")
    case None
    then have "w32 (mem s) (d + 4 * of_nat i) = 0" using 1(7) by simp
    moreover have "{t. \<exists>j\<in>set (i # js). T j = Some t} = {t. \<exists>j\<in>set js. T j = Some t}" using None by auto
    ultimately show ?thesis using Cons.IH [OF 1(1) _ 1(3-6)] 1 by (simp add: get32_def run_bnd_iff)
  next
    case (Some t)
    have t: "page_ok kend t" "t \<notin> set xs" "t \<noteq> d" "t \<in> ran T" using 1 Some by (auto simp: ran_def)
    have e: "w32 (mem s) (d + 4 * of_nat i) = t OR 7" using 1(7) Some by simp
    note p = dir_entry_P [OF t(1)]
    have "run (seq (kfree kend t) (free_tables kend d js)) s (\<lambda>_ s'. \<exists>xs'. free_list kend s' xs' \<and>
      set xs' = {t. \<exists>j\<in>set (i # js). T j = Some t} \<union> set xs \<and> keeps kend (ran T) (mem s) (mem s'))"
    proof (rule run_bnd [OF kfree_law [OF 1(1) t(1,2)]], elim conjE)
      fix s1 assume f: "free_list kend s1 (t # xs)" and k: "keeps kend {t} (mem s) (mem s1)"
      have "same_page (mem s) (mem s1) d" using k t(3) 1(3) by (auto simp: keeps_def)
      then have w: "w32 (mem s1) (d + 4 * of_nat j) = w32 (mem s) (d + 4 * of_nat j)" if "j < 1024" for j using w32_same 1(3) that by blast
      have "t' \<notin> set (t # xs)" if "j \<in> set js" "T j = Some t'" for j t'
        using that 1(2,8) Some inj_onD [OF 1(5), of j i] by auto
      then have "run (free_tables kend d js) s1 (\<lambda>_ s'. \<exists>xs'. free_list kend s' xs' \<and> set xs' = {t. \<exists>i\<in>set js. T i = Some t} \<union> set (t # xs) \<and> keeps kend (ran T) (mem s1) (mem s'))"
        using 1 w by (intro Cons.IH [OF f]) auto
      moreover have "keeps kend (ran T) (mem s1) m \<Longrightarrow> keeps kend (ran T) (mem s) m" for m using keeps_trans [OF k, of "ran T" m "ran T"] t(4) by simp
      ultimately show "run (free_tables kend d js) s1 (\<lambda>_ s'. \<exists>xs'. free_list kend s' xs' \<and>
          set xs' = {t. \<exists>j\<in>set (i # js). T j = Some t} \<union> set xs \<and> keeps kend (ran T) (mem s) (mem s'))"
        using Some by (elim run_weaken) (auto simp: Collect_disj_eq)
    qed
    then show ?thesis using e p by (simp add: get32_def run_bnd_iff)
  qed
qed

lemma freevm_law:
  assumes u: "uspace kend s d T E U xs"
  shows "run (freevm kend d) s (\<lambda>_ s'. \<exists>xs'. free_list kend s' xs' \<and> set xs' = tables d T \<union> ran U \<union> set xs \<and> keeps kend (tables d T \<union> ran U) (mem s) (mem s'))"
proof -
  have pd: "page_ok kend d" "d \<noteq> 0" using pgdir_okD(1) [OF uspaceD(2) [OF u]] by (auto simp: page_ok_def)
  have N: "npages 0 = 0" "npages USERTOP = 160" by (simp_all add: npages_def)
  have r: "user_pages U 0 160 = ran U" using uspaceD(6) [OF u] by (auto simp: user_pages_def ran_def)
  let ?Q = "\<lambda>_ s'. \<exists>xs'. free_list kend s' xs' \<and> set xs' = tables d T \<union> ran U \<union> set xs \<and> keeps kend (tables d T \<union> ran U) (mem s) (mem s')"
  have "run (seq (deallocuvm kend d USERTOP 0) (seq (free_tables kend d [0..<1024]) (kfree kend d))) s ?Q"
  proof (rule run_bnd [OF deallocuvm_law [OF u, of USERTOP 0]], simp, simp, elim exE conjE, unfold N r)
    fix s1 ys assume v: "uspace kend s1 d T (cut E 0 160 0) (cut U 0 160 None) ys" "set ys = ran U \<union> set xs" "keeps kend (tables d T \<union> ran U) (mem s) (mem s1)"
    note o = uspaceD(2) [OF v(1)]
    have "run (free_tables kend d [0..<1024]) s1 (\<lambda>_ s'. \<exists>zs. free_list kend s' zs \<and> set zs = {t. \<exists>i\<in>set [0..<1024]. T i = Some t} \<union> set ys \<and> keeps kend (ran T) (mem s1) (mem s'))"
      using uspaceD(3,12) [OF v(1)] o pgdir_okD(6) [OF o] by (intro free_tables_law) (auto simp: pgdir_ok_def tables_def ran_def)
    then show "run (seq (free_tables kend d [0..<1024]) (kfree kend d)) s1 ?Q"
    proof (rule run_bnd, elim exE conjE)
      fix s2 zs assume w: "free_list kend s2 zs" "set zs = {t. \<exists>i\<in>set [0..<1024]. T i = Some t} \<union> set ys" "keeps kend (ran T) (mem s1) (mem s2)"
      have "{t. \<exists>i\<in>set [0..<1024]. T i = Some t} = ran T" using pgdir_okD(4) [OF o] by (auto simp: ran_def)
      then have zs: "set zs = ran T \<union> ran U \<union> set xs" using w(2) v(2) by auto
      have d: "d \<notin> set zs" using u o by (auto simp: zs uspace_def aspace_def tables_def pgdir_ok_def)
      have k: "keeps kend (tables d T \<union> ran U) (mem s) (mem s2)" by (rule keeps_trans [OF v(3) w(3)]) (auto simp: tables_def)
      have "keeps kend {d} (mem s2) m \<Longrightarrow> keeps kend (tables d T \<union> ran U) (mem s) m" for m using keeps_trans [OF k, of "{d}" m] by (auto simp: tables_def)
      then show "run (kfree kend d) s2 ?Q"
        by (intro run_weaken [OF kfree_law [OF w(1) pd(1) d]]) (auto simp: zs tables_def intro!: exI [of _ "d # zs"])
    qed
  qed
  then show ?thesis using pd(2) by (simp add: freevm_def)
qed

section \<open>copyuvm\<close>

text \<open>The child's address space is \<open>d\<close>, \<open>T\<close>, \<open>E\<close>, \<open>U\<close>; the parent's pages are \<open>P\<close>.\<close>

definition copy_post where
  "copy_post kend d T P N s E U xs n ok s' \<longleftrightarrow> keeps kend (tables d T \<union> set xs) (mem s) (mem s') \<and>
    (if N - n \<le> length xs then ok \<and>
      uspace kend s' d T (fill E n N (\<lambda>k. xs ! k OR 7)) (fill U n N (\<lambda>k. Some (xs ! k))) (drop (N - n) xs) \<and>
      (\<forall>k<N - n. rd (mem s') (unat (xs ! k)) 4096 = rd (mem s) (unat (the (P (n + k)))) 4096)
     else \<not> ok \<and> (\<exists>E' U'. uspace kend s' d T E' U' [] \<and> ran U' = ran U \<union> set xs))"

lemma copy_post_step:
  assumes "copy_post kend d T P N s2 (E(n := x OR 7)) (U(n \<mapsto> x)) ys (Suc n) ok s3" and n: "n < N" and U: "U n = None"
    and z: "rd (mem s2) (unat x) 4096 = rd (mem s) (unat (the (P n))) 4096" and k: "keeps kend (tables d T \<union> set (x # ys)) (mem s) (mem s2)"
    and x: "page_ok kend x" "x \<notin> tables d T" "x \<notin> set ys"
    and P: "\<forall>m<N. page_ok kend (the (P m)) \<and> the (P m) \<notin> tables d T \<union> set (x # ys)"
  shows "copy_post kend d T P N s E U (x # ys) n ok s3"
proof -
  have k3: "keeps kend (tables d T \<union> set ys) (mem s2) (mem s3)" using assms(1) by (simp add: copy_post_def)
  have k4: "keeps kend (tables d T \<union> set (x # ys)) (mem s) (mem s3)" by (rule keeps_trans [OF k k3]) auto
  show ?thesis
  proof (cases "N - n \<le> length (x # ys)")
    case True
    then have l: "N - Suc n \<le> length ys" "N - n = Suc (N - Suc n)" using n by auto
    have u: "ok" "uspace kend s3 d T (fill (E(n := x OR 7)) (Suc n) N (\<lambda>k. ys ! k OR 7)) (fill (U(n \<mapsto> x)) (Suc n) N (\<lambda>k. Some (ys ! k))) (drop (N - Suc n) ys)"
        "\<forall>k<N - Suc n. rd (mem s3) (unat (ys ! k)) 4096 = rd (mem s2) (unat (the (P (Suc n + k)))) 4096"
      using assms(1) l by (simp_all add: copy_post_def)
    have p: "rd (mem s2) (unat (the (P m))) 4096 = rd (mem s) (unat (the (P m))) 4096" if "m < N" for m
      using P k that by (intro rd_same) (auto simp: keeps_def)
    have "rd (mem s3) (unat x) 4096 = rd (mem s) (unat (the (P n))) 4096" using k3 x by (subst rd_same [of "mem s2"]) (auto simp: keeps_def z)
    then have "\<forall>k<N - n. rd (mem s3) (unat ((x # ys) ! k)) 4096 = rd (mem s) (unat (the (P (n + k)))) 4096"
      using u(3) p unfolding l(2) by (auto simp: less_Suc_eq_0_disj)
    moreover have "fill (E(n := x OR 7)) (Suc n) N (\<lambda>k. ys ! k OR 7) = fill E n N (\<lambda>k. (x # ys) ! k OR 7)"
      using fill_step [OF n, of E "\<lambda>k. (x # ys) ! k OR 7"] by simp
    moreover have "fill (U(n \<mapsto> x)) (Suc n) N (\<lambda>k. Some (ys ! k)) = fill U n N (\<lambda>k. Some ((x # ys) ! k))"
      using fill_step [OF n, of U "\<lambda>k. Some ((x # ys) ! k)"] by simp
    ultimately show ?thesis using True u k4 by (simp add: copy_post_def l(2))
  next
    case False
    then have "\<not> N - Suc n \<le> length ys" by auto
    moreover have "ran (U(n \<mapsto> x)) = insert x (ran U)" using U by simp
    ultimately show ?thesis using assms(1) False k4 by (auto simp: copy_post_def)
  qed
qed

lemma walk_user:
  assumes u: "uspace kend s d T E U xs" and p: "U n = Some p"
  shows "run (walkpgdir d (page n) False) s (\<lambda>a s'. s' = s \<and> a \<noteq> 0 \<and> w32 (mem s) a = p OR 7)"
proof -
  have n: "n < 160" by (rule uspaceD(6) [OF u p])
  obtain t where t: "T 0 = Some t" using uspaceD(4) [OF u] by auto
  have nz: "pte_of T n \<noteq> 0" using t n entry_addr_0 [OF pgdir_okD(2) [OF uspaceD(2) [OF u] t], of n] by (simp add: pte_of_def)
  have "w32 (mem s) (pte_of T n) = p OR 7" using pte_get [OF uspaceD(2) [OF u] nz] uspaceD(5) [OF u n] p by simp
  then show ?thesis using walk_law [OF uspaceD(2) [OF u], of "page n"] n nz by (elim run_weaken) (simp add: vpn_page)
qed

lemma walk_user_bnd:
  assumes "uspace kend s d T E U xs" and "U n = Some p" and "run (K (p OR 7)) s Q"
  shows "run (bnd (walkpgdir d (page n) False) (\<lambda>pte. if pte = 0 then m else bnd (get32 pte) K)) s Q"
  by (rule run_bnd [OF walk_user [OF assms(1,2)]]) (use assms(3) in \<open>simp add: get32_def run_bnd_iff\<close>)

lemma copy_page_law:
  assumes "uspace kend s d T E U xs" and "n < 160" and "U n = None"
  shows "run (copy_page d (page n) p) s (\<lambda>ok s'. case xs of [] \<Rightarrow> \<not> ok \<and> s' = s | x # ys \<Rightarrow>
    ok \<and> uspace kend s' d T (E(n := x OR 7)) (U(n \<mapsto> x)) ys \<and> rd (mem s') (unat x) 4096 = rd (mem s) (unat p) 4096 \<and> keeps kend (tables d T \<union> set xs) (mem s) (mem s'))"
proof (cases xs)
  case Nil
  then show ?thesis using kalloc_empty [of kend s] uspaceD(3) [OF assms(1)] by (auto simp: copy_page_def run_def)
next
  case (Cons x ys)
  let ?bs = "rd (mem s) (unat p) 4096" let ?s1 = "s\<lparr>freelist := of_le32 (rd (mem s) (unat x) 4)\<rparr>"
  have k: "kalloc s = Ret (x, ?s1)" "x \<noteq> 0" using take_page(1,3) [OF assms(1) [unfolded Cons], of ?bs] by simp_all
  have "run (bnd (seq (put_bytes x ?bs) (mappages d (page n) PGSIZE x (PTE_W OR PTE_U))) (\<lambda>r. ret (\<not> r < 0))) ?s1 (\<lambda>ok s'.
      ok \<and> uspace kend s' d T (E(n := x OR 7)) (U(n \<mapsto> x)) ys \<and> rd (mem s') (unat x) 4096 = ?bs \<and> keeps kend (tables d T \<union> set xs) (mem s) (mem s'))"
    by (rule run_bnd [OF add_page [OF assms(1) [unfolded Cons] assms(2,3)]]) (auto simp: Cons)
  then show ?thesis using k Cons by (simp add: copy_page_def run_def bnd_assoc)
qed

lemma copyuvm_loop_law:
  assumes "uspace kend s dp Tp Ep P xs" and "uspace kend s d T E U xs" and "(tables dp Tp \<union> ran P) \<inter> (tables d T \<union> set xs) = {}"
    and "sz \<le> USERTOP" and "n \<le> npages sz" and "\<forall>m\<ge>n. U m = None" and "\<forall>m<npages sz. P m \<noteq> None" and "npages sz - n < fuel"
  shows "run (copyuvm_loop fuel dp d (page n) sz) s (copy_post kend d T P (npages sz) s E U xs n)"
  using assms
proof (induction fuel arbitrary: s E U xs n)
  case (Suc fuel)
  note 1 = Suc.prems
  show ?case
  proof (cases "n < npages sz")
    case True
    then obtain p where p: "P n = Some p" using 1(7) by auto
    have n: "n < 160" "page n < sz" "U n = None" using True npages_le [OF 1(4)] page_lt [of n sz] 1(6) by auto
    have e: "(p OR 7) AND 1 \<noteq> 0" "PTE_ADDR (p OR 7) = p" using dir_entry_P [OF uspaceD(7) [OF 1(1) p]] by simp_all
    have "run (bnd (copy_page d (page n) p) (\<lambda>ok. if ok then copyuvm_loop fuel dp d (page (Suc n)) sz else ret False)) s (copy_post kend d T P (npages sz) s E U xs n)"
    proof (rule run_bnd [OF copy_page_law [OF 1(2) n(1,3)]], cases xs)
      case Nil
      fix ok s2 assume "case xs of [] \<Rightarrow> \<not> ok \<and> s2 = s | x # ys \<Rightarrow> ok \<and> uspace kend s2 d T (E(n := x OR 7)) (U(n \<mapsto> x)) ys \<and>
        rd (mem s2) (unat x) 4096 = rd (mem s) (unat p) 4096 \<and> keeps kend (tables d T \<union> set xs) (mem s) (mem s2)"
      then show "run (if ok then copyuvm_loop fuel dp d (page (Suc n)) sz else ret False) s2 (copy_post kend d T P (npages sz) s E U xs n)"
        using Nil True 1(2) by (auto simp: copy_post_def)
    next
      case (Cons x ys)
      fix ok s2 assume "case xs of [] \<Rightarrow> \<not> ok \<and> s2 = s | x # ys \<Rightarrow> ok \<and> uspace kend s2 d T (E(n := x OR 7)) (U(n \<mapsto> x)) ys \<and>
        rd (mem s2) (unat x) 4096 = rd (mem s) (unat p) 4096 \<and> keeps kend (tables d T \<union> set xs) (mem s) (mem s2)"
      then have b: "ok" "uspace kend s2 d T (E(n := x OR 7)) (U(n \<mapsto> x)) ys" "rd (mem s2) (unat x) 4096 = rd (mem s) (unat p) 4096"
        "keeps kend (tables d T \<union> set xs) (mem s) (mem s2)" by (simp_all add: Cons)
      have "uspace kend s2 dp Tp Ep P ys" by (rule uspace_other [OF 1(1) b(4) _ uspaceD(3) [OF b(2)]]) (use 1(3) Cons in auto)
      then have "run (copyuvm_loop fuel dp d (page (Suc n)) sz) s2 (copy_post kend d T P (npages sz) s2 (E(n := x OR 7)) (U(n \<mapsto> x)) ys (Suc n))"
        by (rule Suc.IH [OF _ b(2)]) (use 1 True Cons in auto)
      moreover have "page_ok kend (the (P m)) \<and> the (P m) \<notin> tables d T \<union> set (x # ys)" if "m < npages sz" for m
        using that 1(3,7) Cons uspaceD(7) [OF 1(1), of m] by (cases "P m") (auto simp: ran_def)
      moreover note take_page(4-6) [OF 1(2) [unfolded Cons], of "rd (mem s) (unat p) 4096"]
      ultimately show "run (if ok then copyuvm_loop fuel dp d (page (Suc n)) sz else ret False) s2 (copy_post kend d T P (npages sz) s E U xs n)"
        unfolding Cons if_P [OF b(1)] by (elim run_weaken copy_post_step) (use b n(3) True p Cons in auto)
    qed
    then show ?thesis using n e unfolding copyuvm_loop.simps page_less(3) by (simp, intro walk_user_bnd [OF 1(1) p]) simp
  next
    case False
    then have "\<not> page n < sz" "n = npages sz" using 1 page_lt [of n sz] npages_le [OF 1(4)] by auto
    then show ?thesis using 1 by (auto simp: fill_empty copy_post_def)
  qed
qed simp

lemma uspace_new:
  assumes "aspace kend s d T (kernel_map kd) xs" and "dom T = ktables" and "256 < kd" and "kd < 4096"
  shows "uspace kend s d T (kernel_map kd) Map.empty xs"
  using assms by (auto simp: uspace_def umap_ok_def kernel_map_user kernel_map_flags ktables_def)

text \<open>The bytes a process sees, by virtual address.\<close>

definition user_view :: "kmem \<Rightarrow> (nat \<Rightarrow> u32 option) \<Rightarrow> nat \<Rightarrow> u8 option" where
  "user_view s U a = (case U (a div 4096) of None \<Rightarrow> None | Some p \<Rightarrow> Some (mem s (unat p + a mod 4096)))"

lemma user_view_same:
  assumes "\<And>p. U (a div 4096) = Some p \<Longrightarrow> same_page (mem s) (mem s') p"
  shows "user_view s' U a = user_view s U a"
  using assms by (auto simp: user_view_def same_page_def split: option.splits)

lemma user_view_keeps:
  assumes "uspace kend s d T E U xs" and "keeps kend A (mem s) (mem s')" and "ran U \<inter> A = {}"
  shows "user_view s' U a = user_view s U a"
  using assms uspaceD(7) [OF assms(1)] by (intro user_view_same) (auto simp: keeps_def ran_def)

lemma user_view_rd:
  assumes "U n = Some p" and "rd (mem s) (unat p) 4096 = bs" and "a div 4096 = n"
  shows "user_view s U a = Some (bs ! (a mod 4096))"
proof -
  have "rd (mem s) (unat p) 4096 ! (a mod 4096) = mem s (unat p + a mod 4096)" by (rule rd_nth) simp
  then show ?thesis using assms by (simp add: user_view_def)
qed

lemma fill_dom: "dom (fill Map.empty 0 N (\<lambda>k. Some (g k))) = {..<N}" "ran (fill Map.empty 0 N (\<lambda>k. Some (g k))) = g ` {..<N}"
  by (auto simp: fill_def dom_def ran_def)

lemma copy_done:
  assumes "copy_post kend d T P N s E Map.empty ys 0 ok s'" and "N \<le> length ys"
  shows "ok" and "\<exists>E' U' xs'. uspace kend s' d T E' U' xs' \<and> dom U' = {..<N} \<and>
    (\<forall>n<N. rd (mem s') (unat (the (U' n))) 4096 = rd (mem s) (unat (the (P n))) 4096) \<and> ran U' \<union> set xs' = set ys"
proof -
  let ?U = "fill Map.empty 0 N (\<lambda>k. Some (ys ! k))"
  have c: "ok" "uspace kend s' d T (fill E 0 N (\<lambda>k. ys ! k OR 7)) ?U (drop N ys)" "\<forall>k<N. rd (mem s') (unat (ys ! k)) 4096 = rd (mem s) (unat (the (P k))) 4096"
    using assms by (simp_all add: copy_post_def)
  then show "ok" by simp
  have t: "the (?U n) = ys ! n" if "n < N" for n using that by (simp add: fill_def)
  have "(!) ys ` {..<N} = set (take N ys)" using assms(2) by (simp add: nth_image lessThan_atLeast0)
  then have "ran ?U \<union> set (drop N ys) = set (take N ys @ drop N ys)" unfolding fill_dom set_append by simp
  then show "\<exists>E' U' xs'. uspace kend s' d T E' U' xs' \<and> dom U' = {..<N} \<and>
    (\<forall>n<N. rd (mem s') (unat (the (U' n))) 4096 = rd (mem s) (unat (the (P n))) 4096) \<and> ran U' \<union> set xs' = set ys"
    using c(2,3) t by (intro exI [of _ "fill E 0 N (\<lambda>k. ys ! k OR 7)"] exI [of _ ?U] exI [of _ "drop N ys"]) (simp add: fill_dom)
qed

lemma copy_undo:
  assumes "copy_post kend d T P N s E Map.empty ys 0 ok s'" and "\<not> N \<le> length ys"
  shows "\<not> ok" and "run (freevm kend d) s' (\<lambda>_ s''. \<exists>xs'. free_list kend s'' xs' \<and> set xs' = tables d T \<union> set ys \<and> keeps kend (tables d T \<union> set ys) (mem s') (mem s''))"
proof -
  obtain E' U' where c: "\<not> ok" "uspace kend s' d T E' U' []" "ran U' = set ys" using assms by (auto simp: copy_post_def)
  then show "\<not> ok" by simp
  show "run (freevm kend d) s' (\<lambda>_ s''. \<exists>xs'. free_list kend s'' xs' \<and> set xs' = tables d T \<union> set ys \<and> keeps kend (tables d T \<union> set ys) (mem s') (mem s''))"
    using freevm_law [OF c(2)] by (simp add: c(3))
qed

lemma copyuvm_law:
  assumes u: "uspace kend s d T E U xs" and sz: "sz \<le> USERTOP" and dom: "{..<npages sz} \<subseteq> dom U" and kd: "256 < kd" "kd < 4096"
  shows "run (copyuvm kend (page kd) d sz) s (\<lambda>d' s'. keeps kend (set xs) (mem s) (mem s') \<and>
    (if 13 + npages sz \<le> length xs then d' \<noteq> 0 \<and> (\<exists>T' E' U' xs'. uspace kend s' d' T' E' U' xs' \<and> dom U' = {..<npages sz} \<and>
       (\<forall>n<npages sz. rd (mem s') (unat (the (U' n))) 4096 = rd (mem s) (unat (the (U n))) 4096) \<and> tables d' T' \<union> ran U' \<union> set xs' = set xs)
     else d' = 0 \<and> (\<exists>xs'. free_list kend s' xs' \<and> set xs' = (if 13 \<le> length xs then set xs else {}))))"
  (is "run _ _ ?Q")
  unfolding copyuvm_def
proof (rule run_bnd [OF setupkvm_law [OF uspaceD(3) [OF u] kd]], elim conjE)
  fix d1 s1 assume k: "keeps kend (set xs) (mem s) (mem s1)" and q: "if length xs < 13 then d1 = 0 \<and> free_list kend s1 []
    else d1 \<noteq> 0 \<and> (\<exists>T xs'. aspace kend s1 d1 T (kernel_map kd) xs' \<and> dom T = ktables \<and> tables d1 T \<union> set xs' = set xs \<and> length xs = 13 + length xs')"
  let ?m = "if d1 = 0 then ret 0 else bnd (copyuvm_loop VM_FUEL d d1 0 sz) (\<lambda>ok. if ok then ret d1 else seq (freevm kend d1) (ret 0))"
  show "run ?m s1 ?Q"
  proof (cases "length xs < 13")
    case True
    then show ?thesis using q k by auto
  next
    case False
    then obtain T1 ys where d1: "d1 \<noteq> 0" "aspace kend s1 d1 T1 (kernel_map kd) ys" "dom T1 = ktables" and ys: "tables d1 T1 \<union> set ys = set xs" "length xs = 13 + length ys"
      using q by auto
    note c = uspace_new [OF d1(2,3) kd]
    have dj: "(tables d T \<union> ran U) \<inter> set xs = {}" using u by (auto simp: uspace_def aspace_def)
    have p: "uspace kend s1 d T E U ys" by (rule uspace_other [OF u k _ uspaceD(3) [OF c]]) (use dj ys in auto)
    have l: "run (copyuvm_loop VM_FUEL d d1 (page 0) sz) s1 (copy_post kend d1 T1 U (npages sz) s1 (kernel_map kd) Map.empty ys 0)"
      using npages_le [OF sz] dom by (intro copyuvm_loop_law [OF p c _ sz]) (use dj ys in \<open>auto simp: VM_FUEL_def\<close>)
    have pg: "page 0 = 0" by (simp add: page_def)
    have "run (bnd (copyuvm_loop VM_FUEL d d1 0 sz) (\<lambda>ok. if ok then ret d1 else seq (freevm kend d1) (ret 0))) s1 ?Q"
    proof (rule run_bnd [OF l [unfolded pg]])
      fix ok s2 assume c2: "copy_post kend d1 T1 U (npages sz) s1 (kernel_map kd) Map.empty ys 0 ok s2"
      have k2: "keeps kend (set xs) (mem s) (mem s2)" by (rule keeps_trans [OF k, of "set xs"]) (use c2 ys in \<open>auto simp: copy_post_def\<close>)
      show "run (if ok then ret d1 else seq (freevm kend d1) (ret 0)) s2 ?Q"
      proof (cases "npages sz \<le> length ys")
        case True
        have m: "rd (mem s1) (unat (the (U n))) 4096 = rd (mem s) (unat (the (U n))) 4096" if "n < npages sz" for n
        proof -
          obtain p where "U n = Some p" using \<open>n < npages sz\<close> dom by auto
          then show ?thesis using k dj uspaceD(7) [OF u] by (intro rd_same) (auto simp: keeps_def ran_def)
        qed
        obtain E' U' zs where z: "uspace kend s2 d1 T1 E' U' zs" "dom U' = {..<npages sz}"
            "\<forall>n<npages sz. rd (mem s2) (unat (the (U' n))) 4096 = rd (mem s1) (unat (the (U n))) 4096" "ran U' \<union> set zs = set ys"
          using copy_done(2) [OF c2 True] by blast
        moreover have "tables d1 T1 \<union> ran U' \<union> set zs = set xs" using z(4) ys(1) by blast
        ultimately have "\<exists>T' E' U' xs'. uspace kend s2 d1 T' E' U' xs' \<and> dom U' = {..<npages sz} \<and>
            (\<forall>n<npages sz. rd (mem s2) (unat (the (U' n))) 4096 = rd (mem s) (unat (the (U n))) 4096) \<and> tables d1 T' \<union> ran U' \<union> set xs' = set xs"
          using m by (intro exI [of _ T1] exI [of _ E'] exI [of _ U'] exI [of _ zs]) simp
        then show ?thesis using True copy_done(1) [OF c2 True] k2 d1(1) ys(2) by simp
      next
        case False
        have "keeps kend (set xs) (mem s2) m \<Longrightarrow> keeps kend (set xs) (mem s) m" for m by (rule keeps_trans [OF k2]) auto
        then have "run (seq (freevm kend d1) (ret 0)) s2 ?Q"
          using False ys(2) by (intro run_bnd [OF copy_undo(2) [OF c2 False, unfolded ys(1)]]) auto
        then show ?thesis using copy_undo(1) [OF c2 False] by simp
      qed
    qed
    then show ?thesis using d1(1) by simp
  qed
qed

end
