(* ===== verification/Vm_Props.thy ===== *)
theory Vm_Props
  imports Vm_Copy
begin

unbundle bit_operations_syntax

text \<open>
  Writing into user memory, and the properties of \<open>kernel/vm.c\<close>: what a process sees of its memory after it grew, shrank, was copied or
  written to, and where its pages go.
\<close>

section \<open>Access by virtual address\<close>

lemma uva2ka_eq:
  assumes u: "uspace kend s d T E U xs"
  shows "uva2ka d va s = (if T (vpn va div 1024) = None then Fault else Ret (case U (vpn va) of None \<Rightarrow> 0 | Some p \<Rightarrow> p, s))"
proof -
  note o = uspaceD(2) [OF u]
  have w: "walkpgdir d va False s = Ret (pte_of T (vpn va), s)" using walk_law [OF o, of va] by (auto simp: run_def)
  show ?thesis
  proof (cases "T (vpn va div 1024)")
    case None
    then show ?thesis using w by (simp add: uva2ka_def pte_of_def)
  next
    case (Some t)
    have nz: "pte_of T (vpn va) \<noteq> 0" using Some entry_addr_0 [OF pgdir_okD(2) [OF o Some]] by (simp add: pte_of_def)
    note g = pte_get [OF o nz]
    show ?thesis
    proof (cases "vpn va < 160")
      case True
      show ?thesis
      proof (cases "U (vpn va)")
        case None
        then show ?thesis using Some w nz g uspaceD(5) [OF u True] by (simp add: uva2ka_def get32_def)
      next
        case (Some p)
        have p: "p mod 4096 = 0" using uspaceD(7) [OF u Some] by (simp add: page_ok_def)
        then have "(p OR 7) AND 1 \<noteq> 0" "(p OR 7) AND 4 \<noteq> 0" "PTE_ADDR (p OR 7) = p" by (simp_all add: flags_entry PTE_ADDR_entry)
        then show ?thesis using \<open>T (vpn va div 1024) = Some t\<close> Some w nz g uspaceD(5) [OF u True] by (simp add: uva2ka_def get32_def)
      qed
    next
      case False
      then have "U (vpn va) = None" using uspaceD(6) [OF u, of "vpn va"] by (cases "U (vpn va)") auto
      then show ?thesis using Some w nz g False uspaceD(11) [OF u, of "vpn va"] by (simp add: uva2ka_def get32_def)
    qed
  qed
qed

lemma user_view_write:
  assumes u: "uspace kend s d T E U xs" and p: "U n = Some p" and l: "off + length b \<le> 4096"
  shows "user_view (s\<lparr>mem := wr (mem s) (unat p + off) b\<rparr>) U a =
    (if 4096 * n + off \<le> a \<and> a < 4096 * n + off + length b then Some (b ! (a - (4096 * n + off))) else user_view s U a)"
proof (cases "a div 4096 = n")
  case True
  define k where "k = a mod 4096"
  have a: "a = 4096 * n + k" "k < 4096" using True by (auto simp: k_def)
  have "a div 4096 = n" "a mod 4096 = k" using True k_def by auto
  then have "user_view (s\<lparr>mem := wr (mem s) (unat p + off) b\<rparr>) U a = Some (wr (mem s) (unat p + off) b (unat p + k))" "user_view s U a = Some (mem s (unat p + k))"
    using p by (simp_all add: user_view_def)
  then show ?thesis unfolding a(1) by (auto simp: wr_def)
next
  case False
  then have "\<not> (4096 * n + off \<le> a \<and> a < 4096 * n + off + length b)" using l by auto
  moreover have "user_view (s\<lparr>mem := wr (mem s) (unat p + off) b\<rparr>) U a = user_view s U a"
  proof (rule user_view_same)
    fix q assume q: "U (a div 4096) = Some q"
    have "q \<noteq> p" using False uspaceD(10) [OF u q, of n] p by blast
    then show "same_page (mem s) (mem (s\<lparr>mem := wr (mem s) (unat p + off) b\<rparr>)) q"
      using keeps_wr [OF uspaceD(7) [OF u p] l, of "mem s"] uspaceD(7) [OF u q] unfolding keeps_def by simp
  qed
  ultimately show ?thesis by auto
qed

lemma uspace_write:
  assumes "uspace kend s d T E U xs" and "U n = Some p" and "off + length b \<le> 4096"
  shows "uspace kend (s\<lparr>mem := wr (mem s) (unat p + off) b\<rparr>) d T E U xs"
  by (rule uspace_keeps [OF assms(1), of "{p}"]) (use assms keeps_wr uspaceD(7-9) in \<open>auto 0 3\<close>)

section \<open>copyout\<close>

definition mapped_range :: "(nat \<Rightarrow> u32 option) \<Rightarrow> nat \<Rightarrow> nat \<Rightarrow> bool" where
  "mapped_range U a n \<longleftrightarrow> (\<forall>i<n. U ((a + i) div 4096) \<noteq> None)"

definition written_view :: "(nat \<Rightarrow> u8 option) \<Rightarrow> nat \<Rightarrow> u8 list \<Rightarrow> nat \<Rightarrow> u8 option" where
  "written_view v a bs = (\<lambda>i. if a \<le> i \<and> i < a + length bs then Some (bs ! (i - a)) else v i)"

lemma written_view_Nil [simp]: "written_view v a [] = v"
  by (rule ext) (auto simp: written_view_def)

lemma mapped_range_add: "mapped_range U a (k + m) \<longleftrightarrow> mapped_range U a k \<and> mapped_range U (a + k) m"
proof -
  have "U ((a + i) div 4096) \<noteq> None" if "mapped_range U a k" "mapped_range U (a + k) m" "i < k + m" for i
    using that by (cases "i < k") (auto simp: mapped_range_def dest: spec [of _ "i - k"])
  then show ?thesis by (auto simp: mapped_range_def add.assoc)
qed

lemma written_view_split: "written_view (written_view v a (take n bs)) (a + n) (drop n bs) = written_view v a bs" if "n \<le> length bs"
  using that by (auto simp: written_view_def fun_eq_iff nth_append)

text \<open>
  What the loop does: the bytes up to the first page that is not user memory are written, the process sees them, and no other byte of the memory
  changes, nor anything else of the state. The result is 0 when all are written.
\<close>

definition only_written :: "(nat \<Rightarrow> u32 option) \<Rightarrow> nat \<Rightarrow> nat \<Rightarrow> bytes \<Rightarrow> bytes \<Rightarrow> bool" where
  "only_written U a m f g \<longleftrightarrow> (\<forall>x. g x = f x \<or> (\<exists>i<m. \<exists>p. U ((a + i) div 4096) = Some p \<and> x = unat p + (a + i) mod 4096))"

definition copied_out :: "(nat \<Rightarrow> u32 option) \<Rightarrow> nat \<Rightarrow> u8 list \<Rightarrow> kmem \<Rightarrow> int \<Rightarrow> kmem \<Rightarrow> bool" where
  "copied_out U a bs s r s' \<longleftrightarrow> s' = s\<lparr>mem := mem s'\<rparr> \<and>
     (\<exists>m\<le>length bs. mapped_range U a m \<and> (if m = length bs then r = 0 else r = -1 \<and> U ((a + m) div 4096) = None) \<and>
        user_view s' U = written_view (user_view s U) a (take m bs) \<and> only_written U a m (mem s) (mem s'))"

lemma only_written_0 [simp]: "only_written U a 0 f f"
  by (simp add: only_written_def)

lemma only_written_trans:
  assumes "only_written U a k f g" and "only_written U (a + k) m g h"
  shows "only_written U a (k + m) f h"
  unfolding only_written_def
proof
  fix x
  let ?P = "\<lambda>i. \<exists>p. U ((a + i) div 4096) = Some p \<and> x = unat p + (a + i) mod 4096"
  have g: "g x = f x \<or> (\<exists>i<k. ?P i)" using assms(1) unfolding only_written_def by blast
  have "h x = g x \<or> (\<exists>i<m. ?P (k + i))" using spec [OF assms(2) [unfolded only_written_def], of x] by (simp only: add.assoc)
  then show "h x = f x \<or> (\<exists>i<k + m. ?P i)"
  proof
    assume "\<exists>i<m. ?P (k + i)"
    then obtain i where "i < m" "?P (k + i)" by blast
    then show ?thesis by (intro disjI2 exI [of _ "k + i"]) simp
  next
    assume "h x = g x"
    with g show ?thesis by (auto intro: trans_less_add1)
  qed
qed

lemma only_written_wr:
  assumes "U n = Some p" and "off + length b \<le> 4096"
  shows "only_written U (4096 * n + off) (length b) f (wr f (unat p + off) b)"
  unfolding only_written_def
proof
  fix x
  show "wr f (unat p + off) b x = f x \<or> (\<exists>i<length b. \<exists>q. U ((4096 * n + off + i) div 4096) = Some q \<and> x = unat q + (4096 * n + off + i) mod 4096)"
  proof (cases "unat p + off \<le> x \<and> x < unat p + off + length b")
    case True
    define i where "i = x - (unat p + off)"
    have i: "i < length b" "x = unat p + (off + i)" "off + i < 4096" using True assms(2) by (auto simp: i_def)
    have "(4096 * n + off + i) div 4096 = n" "(4096 * n + off + i) mod 4096 = off + i"
      unfolding add.assoc div_mult_self4 mod_mult_self4 using i(3) by simp_all
    then show ?thesis using i assms(1) by (intro disjI2 exI [of _ i]) simp
  qed (auto simp: wr_def)
qed

lemma copied_out_step:
  assumes "k \<le> length bs" and "mapped_range U a k" and "s1 = s\<lparr>mem := mem s1\<rparr>"
    and "user_view s1 U = written_view (user_view s U) a (take k bs)" and "only_written U a k (mem s) (mem s1)"
    and "copied_out U (a + k) (drop k bs) s1 r s'"
  shows "copied_out U a bs s r s'"
proof -
  obtain m where m: "m \<le> length bs - k" "mapped_range U (a + k) m" "if m = length bs - k then r = 0 else r = -1 \<and> U ((a + k + m) div 4096) = None"
      "user_view s' U = written_view (user_view s1 U) (a + k) (take m (drop k bs))" "only_written U (a + k) m (mem s1) (mem s')" "s' = s1\<lparr>mem := mem s'\<rparr>"
    using assms(6) by (auto simp: copied_out_def)
  have "take k (take (k + m) bs) = take k bs" "drop k (take (k + m) bs) = take m (drop k bs)" by (simp_all add: min_def drop_take)
  then have "user_view s' U = written_view (user_view s U) a (take (k + m) bs)"
    using written_view_split [of k "take (k + m) bs" "user_view s U" a] assms(1,4) m(4) by simp
  moreover have "s' = s\<lparr>mem := mem s'\<rparr>" using m(6) assms(3) by (metis kmem.update_convs(2) kmem.surjective)
  ultimately show ?thesis unfolding copied_out_def
    using m assms(1,2) only_written_trans [OF assms(5) m(5)]
    by (intro conjI exI [of _ "k + m"]) (auto simp: mapped_range_add add.assoc split: if_splits)
qed

lemma copyout_loop_law:
  assumes "uspace kend s d T E U xs" and "unat va + length bs \<le> 0x400000" and "length bs \<le> fuel"
  shows "run (copyout_loop fuel d va bs) s (\<lambda>r s'. uspace kend s' d T E U xs \<and> copied_out U (unat va) bs s r s')"
  using assms
proof (induction fuel arbitrary: s va bs)
  case 0
  then show ?case by (simp add: mapped_range_def copied_out_def)
next
  case (Suc fuel)
  note u = Suc.prems(1)
  show ?case
  proof (cases bs)
    case (Cons b cs)
    define n where "n = vpn va" define off where "off = unat va mod 4096"
    define k where "k = min (4096 - off) (length bs)"
    have va: "unat va = 4096 * n + off" "off < 4096" by (simp_all add: n_def off_def vpn_def)
    have n: "n < 1024" using va Suc.prems(2) Cons by simp
    have va0: "PGROUNDDOWN va = page n" by (simp add: PGROUNDDOWN_page n_def)
    have np: "unat (page n) = 4096 * n" "vpn (page n) = n" using n by (simp_all add: unat_page_big vpn_page)
    have off: "unat (va - page n) = off" using va(1) np(1) by (simp add: unat_sub word_le_nat_alt)
    have rest: "unat (PGSIZE - (va - page n)) = 4096 - off" using off va(2) by (simp add: unat_sub word_le_nat_alt)
    have T: "T (n div 1024) \<noteq> None" using uspaceD(4) [OF u] n by simp
    show ?thesis
    proof (cases "U n")
      case None
      then have "copied_out U (unat va) bs s (-1) s" using va Cons by (auto simp: copied_out_def mapped_range_def intro!: exI [of _ 0])
      then show ?thesis using None T u uva2ka_eq [OF u, of "page n"] by (simp add: Cons va0 np Let_def run_def)
    next
      case (Some p)
      have p: "page_ok kend p" "p \<noteq> 0" using uspaceD(7) [OF u Some] by (auto simp: page_ok_def)
      define s1 where "s1 = s\<lparr>mem := wr (mem s) (unat p + off) (take k bs)\<rparr>"
      have k: "off + length (take k bs) \<le> 4096" "k \<le> length bs" "0 < k" using va(2) Cons by (auto simp: k_def)
      have u1: "uspace kend s1 d T E U xs" unfolding s1_def by (rule uspace_write [OF u Some k(1)])
      have v1: "user_view s1 U = written_view (user_view s U) (unat va) (take k bs)"
        using user_view_write [OF u Some k(1)] by (auto simp: s1_def written_view_def va(1))
      have pa: "unat (p + (va - page n)) = unat p + off" using off va(2) page_ok_top [OF p(1)] by (simp add: unat_word_ariths)
      have m: "mapped_range U (unat va) k" unfolding mapped_range_def
      proof (intro allI impI)
        fix i assume "i < k"
        then have "unat va + i = 4096 * n + (off + i)" "off + i < 4096" using va by (auto simp: k_def)
        then have "(unat va + i) div 4096 = n" by simp
        then show "U ((unat va + i) div 4096) \<noteq> None" using Some by simp
      qed
      have e: "copyout_loop (Suc fuel) d va bs s = copyout_loop fuel d (page (Suc n)) (drop k bs) s1"
        using uva2ka_eq [OF u, of "page n"] T Some p(2)
        by (simp add: Cons va0 np Let_def put_bytes_def pa rest s1_def k_def page_less(3) del: take_Suc_Cons drop_Suc_Cons)
      have w: "only_written U (unat va) k (mem s) (mem s1)"
        using only_written_wr [of U n p off "take k bs" "mem s", OF Some k(1)] k(2) by (simp add: s1_def va(1))
      have st: "copied_out U (unat va + k) (drop k bs) s1 r s' \<Longrightarrow> copied_out U (unat va) bs s r s'" for r s'
        by (rule copied_out_step [OF k(2) m _ v1 w]) (simp add: s1_def)
      have "run (copyout_loop fuel d (page (Suc n)) (drop k bs)) s1 (\<lambda>r s'. uspace kend s' d T E U xs \<and> copied_out U (unat va) bs s r s')"
      proof (cases "drop k bs = []")
        case True
        then have "copied_out U (unat va + k) (drop k bs) s1 0 s1" by (simp add: copied_out_def mapped_range_def)
        then show ?thesis using True u1 st by simp
      next
        case False
        then have k4: "k = 4096 - off" "k < length bs" by (auto simp: k_def)
        have a: "unat (page (Suc n)) = unat va + k" using n va k4 by (simp add: unat_page_big)
        have "run (copyout_loop fuel d (page (Suc n)) (drop k bs)) s1 (\<lambda>r s'. uspace kend s' d T E U xs \<and> copied_out U (unat va + k) (drop k bs) s1 r s')"
          using Suc.IH [OF u1, of "page (Suc n)" "drop k bs"] Suc.prems(2,3) k unfolding a by simp
        then show ?thesis by (rule run_weaken) (use st in auto)
      qed
      then show ?thesis by (simp add: run_def e)
    qed
  qed (use u in \<open>simp add: mapped_range_def copied_out_def\<close>)
qed

lemma copied_out_result:
  assumes "copied_out U a bs s r s'"
  shows "if mapped_range U a (length bs) then r = 0 \<and> user_view s' U = written_view (user_view s U) a bs else r = -1"
proof -
  obtain m where m: "m \<le> length bs" "mapped_range U a m" "if m = length bs then r = 0 else r = -1 \<and> U ((a + m) div 4096) = None"
      "user_view s' U = written_view (user_view s U) a (take m bs)" using assms by (auto simp: copied_out_def)
  then show ?thesis by (cases "m = length bs") (auto simp: mapped_range_def intro!: exI [of _ m])
qed

section \<open>Growing and shrinking, as the process sees it\<close>

lemma user_view_None: "U (a div 4096) = None \<Longrightarrow> user_view s U a = None"
  by (simp add: user_view_def)

lemma dom_None:
  fixes n m :: nat
  assumes "dom U = {..<n}" and "n \<le> m"
  shows "U m = None"
proof -
  have "m \<notin> dom U" unfolding assms(1) using assms(2) by simp
  then show ?thesis by auto
qed

lemma cut_None: "dom U = {..<n} \<Longrightarrow> cut U n N None = U"
  by (auto simp: cut_def fun_eq_iff dom_None)

lemma cut_zero:
  assumes "uspace kend s d T E U xs" and "dom U = {..<n}" and "N \<le> 160"
  shows "cut E n N 0 = E"
  using uspaceD(5) [OF assms(1)] assms(3) by (auto simp: cut_def fun_eq_iff dom_None [OF assms(2)])

lemma fill_pages:
  assumes "dom U = {..<n}" and "n \<le> N" and "N - n \<le> length xs"
  shows "dom (fill U n N (\<lambda>k. Some (xs ! k))) = {..<N}" and "ran (fill U n N (\<lambda>k. Some (xs ! k))) = ran U \<union> set (take (N - n) xs)"
proof -
  have U: "U m = None" if "n \<le> m" for m by (rule dom_None [OF assms(1) that])
  have "m \<in> dom U \<longleftrightarrow> m < n" for m using assms(1) by simp
  then show "dom (fill U n N (\<lambda>k. Some (xs ! k))) = {..<N}" using assms(2) by (auto simp: fill_def dom_def)
  have "p \<in> ran (fill U n N (\<lambda>k. Some (xs ! k))) \<longleftrightarrow> p \<in> ran U \<or> (\<exists>k<N - n. p = xs ! k)" for p
  proof
    assume "p \<in> ran (fill U n N (\<lambda>k. Some (xs ! k)))"
    then obtain m where m: "fill U n N (\<lambda>k. Some (xs ! k)) m = Some p" by (auto simp: ran_def)
    show "p \<in> ran U \<or> (\<exists>k<N - n. p = xs ! k)"
    proof (cases "n \<le> m \<and> m < N")
      case True
      then have "m - n < N - n" "p = xs ! (m - n)" using m by (auto simp: fill_def)
      then show ?thesis by blast
    next
      case False
      then have "U m = Some p" using m by (auto simp: fill_def split: if_splits)
      then show ?thesis by (simp add: ranI)
    qed
  next
    assume "p \<in> ran U \<or> (\<exists>k<N - n. p = xs ! k)"
    then show "p \<in> ran (fill U n N (\<lambda>k. Some (xs ! k)))"
    proof
      assume "p \<in> ran U"
      then obtain m where m: "U m = Some p" by (auto simp: ran_def)
      then have "\<not> n \<le> m" using U by fastforce
      then have "fill U n N (\<lambda>k. Some (xs ! k)) m = Some p" using m by (simp add: fill_def)
      then show ?thesis by (rule ranI)
    next
      assume "\<exists>k<N - n. p = xs ! k"
      then obtain k where "k < N - n" "p = xs ! k" by blast
      then have "fill U n N (\<lambda>k. Some (xs ! k)) (n + k) = Some p" by (simp add: fill_def less_diff_conv)
      then show ?thesis by (rule ranI)
    qed
  qed
  moreover have "set (take (N - n) xs) = {p. \<exists>k<N - n. p = xs ! k}" unfolding nth_image [OF assms(3), symmetric] by auto
  ultimately show "ran (fill U n N (\<lambda>k. Some (xs ! k))) = ran U \<union> set (take (N - n) xs)" by blast
qed

lemma alloc_success:
  assumes u: "uspace kend s d T E U xs" and dom: "dom U = {..<n}" and n: "n = npages oldsz" "n \<le> npages newsz" and p: "alloc_post kend d T oldsz newsz s E U xs n r s'"
    and l: "npages newsz - n \<le> length xs"
  shows "r = newsz \<and> (\<exists>E' U' xs'. uspace kend s' d T E' U' xs' \<and> dom U' = {..<npages newsz} \<and> ran U' \<union> set xs' = ran U \<union> set xs \<and>
    (\<forall>a. user_view s' U' a = (if a < 4096 * n then user_view s U a else if a < 4096 * npages newsz then Some 0 else None)))"
proof -
  let ?N = "npages newsz"
  let ?U = "fill U n ?N (\<lambda>k. Some (xs ! k))"
  have q: "r = newsz" "uspace kend s' d T (fill E n ?N (\<lambda>k. xs ! k OR 7)) ?U (drop (?N - n) xs)"
    "\<And>k. k < ?N - n \<Longrightarrow> rd (mem s') (unat (xs ! k)) 4096 = replicate 4096 0" "keeps kend (tables d T \<union> set xs) (mem s) (mem s')"
    using p l by (simp_all add: alloc_post_def)
  note f = fill_pages [OF dom n(2) l]
  have v: "user_view s' ?U a = (if a < 4096 * n then user_view s U a else if a < 4096 * ?N then Some 0 else None)" for a
  proof -
    consider "a div 4096 < n" | "n \<le> a div 4096" "a div 4096 < ?N" | "?N \<le> a div 4096" by linarith
    then show ?thesis
    proof cases
      case 1
      then have "user_view s' ?U a = user_view s' U a" by (simp add: user_view_def fill_def)
      also have "\<dots> = user_view s U a" using u by (intro user_view_keeps [OF u q(4)]) (auto simp: uspace_def)
      finally show ?thesis using 1 by auto
    next
      case 2
      then have "?U (a div 4096) = Some (xs ! (a div 4096 - n))" by (simp add: fill_def)
      then have "user_view s' ?U a = Some (replicate 4096 0 ! (a mod 4096))" using 2 by (intro user_view_rd) (auto intro: q(3))
      then show ?thesis using 2 by auto
    next
      case 3
      then have "?U (a div 4096) = None" using n(2) dom_None [OF f(1)] by simp
      then show ?thesis using 3 n(2) by (auto simp: user_view_None)
    qed
  qed
  have "ran ?U \<union> set (drop (?N - n) xs) = ran U \<union> set (take (?N - n) xs @ drop (?N - n) xs)" unfolding f(2) set_append by blast
  then have r: "ran ?U \<union> set (drop (?N - n) xs) = ran U \<union> set xs" by simp
  show ?thesis
    by (intro conjI q(1) exI [of _ "fill E n ?N (\<lambda>k. xs ! k OR 7)"] exI [of _ ?U] exI [of _ "drop (?N - n) xs"] q(2) f(1) r allI v)
qed

lemma allocuvm_view:
  assumes u: "uspace kend s d T E U xs" and new: "newsz \<le> USERTOP" "oldsz \<le> newsz" and dom: "dom U = {..<npages oldsz}"
  shows "run (allocuvm kend d oldsz newsz) s (\<lambda>r s'.
    if npages newsz - npages oldsz \<le> length xs then r = newsz \<and> (\<exists>E' U' xs'. uspace kend s' d T E' U' xs' \<and> dom U' = {..<npages newsz} \<and>
      ran U' \<union> set xs' = ran U \<union> set xs \<and>
      (\<forall>a. user_view s' U' a = (if a < 4096 * npages oldsz then user_view s U a else if a < 4096 * npages newsz then Some 0 else None)))
    else r = 0 \<and> (\<exists>xs'. uspace kend s' d T E U xs' \<and> set xs' = set xs \<and> (\<forall>a. user_view s' U a = user_view s U a)))"
proof (rule run_weaken [OF allocuvm_law [OF u new]])
  show "\<forall>m\<ge>npages oldsz. U m = None" using dom_None [OF dom] by blast
next
  fix r s' assume p: "alloc_post kend d T oldsz newsz s E U xs (npages oldsz) r s'"
  have le: "npages oldsz \<le> npages newsz" using new(2) by (simp add: npages_def word_le_nat_alt div_le_mono)
  have e: "user_pages U (npages oldsz) (npages newsz) = {}" using dom_None [OF dom] by (auto simp: user_pages_def)
  have "r = 0 \<and> (\<exists>xs'. uspace kend s' d T E U xs' \<and> set xs' = set xs \<and> (\<forall>a. user_view s' U a = user_view s U a))" if "\<not> npages newsz - npages oldsz \<le> length xs"
  proof -
    have "keeps kend (tables d T \<union> set xs) (mem s) (mem s') \<Longrightarrow> user_view s' U a = user_view s U a" for a
      using u by (intro user_view_keeps [OF u]) (auto simp: uspace_def)
    then show ?thesis using p that by (auto simp: alloc_post_def e cut_None [OF dom] cut_zero [OF u dom npages_le [OF new(1)]])
  qed
  then show "if npages newsz - npages oldsz \<le> length xs then r = newsz \<and> (\<exists>E' U' xs'. uspace kend s' d T E' U' xs' \<and> dom U' = {..<npages newsz} \<and>
      ran U' \<union> set xs' = ran U \<union> set xs \<and>
      (\<forall>a. user_view s' U' a = (if a < 4096 * npages oldsz then user_view s U a else if a < 4096 * npages newsz then Some 0 else None)))
    else r = 0 \<and> (\<exists>xs'. uspace kend s' d T E U xs' \<and> set xs' = set xs \<and> (\<forall>a. user_view s' U a = user_view s U a))"
    using alloc_success [OF u dom refl le p] by simp
qed

lemma deallocuvm_view:
  assumes u: "uspace kend s d T E U xs" and sz: "oldsz \<le> USERTOP" "newsz < oldsz" and dom: "dom U = {..<npages oldsz}"
  shows "run (deallocuvm kend d oldsz newsz) s (\<lambda>r s'. r = newsz \<and> (\<exists>E' U' xs'. uspace kend s' d T E' U' xs' \<and> dom U' = {..<npages newsz} \<and>
    ran U' \<union> set xs' = ran U \<union> set xs \<and> (\<forall>a. user_view s' U' a = (if a < 4096 * npages newsz then user_view s U a else None))))"
proof (rule run_weaken [OF deallocuvm_law [OF u sz]], elim conjE exE)
  fix r s' ys
  let ?n = "npages newsz" and ?N = "npages oldsz"
  let ?U = "cut U ?n ?N None"
  assume r: "r = newsz" and v: "uspace kend s' d T (cut E ?n ?N 0) ?U ys" "set ys = user_pages U ?n ?N \<union> set xs" "keeps kend (tables d T \<union> user_pages U ?n ?N) (mem s) (mem s')"
  have le: "?n \<le> ?N" using sz(2) by (simp add: npages_def word_less_nat_alt div_le_mono)
  have U: "m \<in> dom U \<longleftrightarrow> m < ?N" for m unfolding dom by simp
  then have d: "dom ?U = {..<?n}" using le by (auto simp: cut_def dom_def)
  have "p \<in> ran U \<longleftrightarrow> p \<in> ran ?U \<or> p \<in> user_pages U ?n ?N" for p by (auto simp: ran_def cut_def user_pages_def)
  then have "ran ?U \<union> set ys = ran U \<union> set xs" unfolding v(2) by blast
  moreover have "user_view s' ?U a = (if a < 4096 * ?n then user_view s U a else None)" for a
  proof (cases "a div 4096 < ?n")
    case True
    have "user_view s' ?U a = user_view s' U a" using True by (simp add: user_view_def cut_def)
    also have "\<dots> = user_view s U a"
    proof (rule user_view_same)
      fix p assume p: "U (a div 4096) = Some p"
      have "p \<notin> user_pages U ?n ?N" using uspaceD(10) [OF u p] True by (auto simp: user_pages_def)
      then show "same_page (mem s) (mem s') p" using v(3) uspaceD(7,8) [OF u p] by (simp add: keeps_def)
    qed
    finally show ?thesis using True by auto
  next
    case False
    then show ?thesis using dom_None [OF d, of "a div 4096"] by (auto simp: user_view_None)
  qed
  ultimately show "r = newsz \<and> (\<exists>E' U' xs'. uspace kend s' d T E' U' xs' \<and> dom U' = {..<?n} \<and> ran U' \<union> set xs' = ran U \<union> set xs \<and>
      (\<forall>a. user_view s' U' a = (if a < 4096 * ?n then user_view s U a else None)))"
    using r v(1) d by blast
qed

lemma copied_view:
  assumes "dom U' = {..<N}" and "{..<N} \<subseteq> dom U" and "\<forall>n<N. rd (mem s') (unat (the (U' n))) 4096 = rd (mem s) (unat (the (U n))) 4096"
  shows "user_view s' U' a = (if a < 4096 * N then user_view s U a else None)"
proof (cases "a div 4096 < N")
  case True
  then obtain p q where p: "U (a div 4096) = Some p" "U' (a div 4096) = Some q" using assms(1,2) by blast
  then have "rd (mem s') (unat q) 4096 = rd (mem s) (unat p) 4096" using assms(3) True by force
  then have "user_view s' U' a = user_view s U a" 
    using user_view_rd [of U' "a div 4096" q, OF p(2)] user_view_rd [of U "a div 4096" p, OF p(1)] by simp
  then show ?thesis using True by auto
next
  case False
  then show ?thesis using dom_None [OF assms(1), of "a div 4096"] by (auto simp: user_view_None)
qed

section \<open>A machine for the witnesses\<close>

text \<open>Memory as \<open>kinit\<close> leaves it, an address space, and two pages of user memory.\<close>

lemma a_space:
  obtains s d T E U xs where "uspace 0x108000 s d T E U xs" and "dom U = {..<2}" and "200 \<le> length xs"
proof -
  define j where "j = (unat (0x108000 :: u32) + 4095) div 4096"
  have "run (kinit 0x108000) \<lparr>freelist = 0, mem = (\<lambda>_. 7)\<rparr> (\<lambda>_ s'. free_list 0x108000 s' (rev (map page [j..<4096])))"
    unfolding j_def by (rule kinit_fills) simp_all
  then obtain s0 where s0: "free_list 0x108000 s0 (rev (map page [j..<4096]))" unfolding run_def by blast
  have l: "length (rev (map page [j..<4096])) = 4096 - j" by (simp del: upt_Suc)
  have j: "4096 - j = 3832" by (simp add: j_def)
  obtain s1 d T ys where a: "aspace 0x108000 s1 d T (kernel_map 300) ys" "dom T = ktables" "length ys = 3819"
    using setupkvm_law [OF s0, of 300, unfolded l j] unfolding run_def by auto
  have u: "uspace 0x108000 s1 d T (kernel_map 300) Map.empty ys" by (rule uspace_new [OF a(1,2)]) simp_all
  have N: "npages 0 = 0" "npages 0x2000 = 2" by (simp_all add: npages_def)
  obtain s2 E U zs where "uspace 0x108000 s2 d T E U zs" "dom U = {..<2}" "zs = drop 2 ys"
    using allocuvm_law [OF u, of "0x2000" 0] fill_dom(1) [of 2 "\<lambda>k. ys ! k"] a(3) by (auto simp: run_def alloc_post_def N)
  then show thesis using a(3) by (intro that) auto
qed

section \<open>Properties\<close>

text \<open>C0. \<open>copyuvm\<close> gives a child its own copy of the parent's memory. With 13 free pages for the page tables and one for each page of the
  parent, the child sees the same bytes at every address, the parent still sees its own, and the two address spaces share no page, neither of memory nor
  of page tables, so that no later write of one is seen by the other. With fewer pages the result is 0 and the parent is as before; every
  page taken is free again if there were at least 13, but with fewer than 13, when memory runs out inside \<open>setupkvm\<close>, all the pages that were free
  are lost: the free list is empty afterwards.\<close>

theorem copyuvm_correct:
  assumes "uspace kend s d T E U xs" and "sz \<le> USERTOP" and "{..<npages sz} \<subseteq> dom U" and "256 < kd" and "kd < 4096"
  shows "run (copyuvm kend (page kd) d sz) s (\<lambda>d' s'. (\<forall>a. user_view s' U a = user_view s U a) \<and>
    (if 13 + npages sz \<le> length xs then d' \<noteq> 0 \<and> (\<exists>T' E' U' xs'. uspace kend s' d' T' E' U' xs' \<and> uspace kend s' d T E U xs' \<and>
       (tables d T \<union> ran U) \<inter> (tables d' T' \<union> ran U') = {} \<and>
       (\<forall>a. user_view s' U' a = (if a < 4096 * npages sz then user_view s U a else None)))
     else d' = 0 \<and> (\<exists>xs'. uspace kend s' d T E U xs' \<and> set xs' = (if 13 \<le> length xs then set xs else {}))))"
proof (rule run_weaken [OF copyuvm_law [OF assms]], elim conjE)
  fix d' :: u32 and s' :: kmem assume k: "keeps kend (set xs) (mem s) (mem s')"
  let ?N = "npages sz"
  assume q: "if 13 + ?N \<le> length xs then d' \<noteq> 0 \<and> (\<exists>T' E' U' xs'. uspace kend s' d' T' E' U' xs' \<and> dom U' = {..<?N} \<and>
       (\<forall>n<?N. rd (mem s') (unat (the (U' n))) 4096 = rd (mem s) (unat (the (U n))) 4096) \<and> tables d' T' \<union> ran U' \<union> set xs' = set xs)
     else d' = 0 \<and> (\<exists>xs'. free_list kend s' xs' \<and> set xs' = (if 13 \<le> length xs then set xs else {}))"
  have dj: "(tables d T \<union> ran U) \<inter> set xs = {}" using assms(1) by (auto simp: uspace_def aspace_def)
  have o: "uspace kend s' d T E U ys" if "free_list kend s' ys" "set ys \<subseteq> set xs" for ys
    by (rule uspace_other [OF assms(1) k _ that(1)]) (use dj that(2) in auto)
  have v: "\<forall>a. user_view s' U a = user_view s U a" using dj by (intro allI user_view_keeps [OF assms(1) k]) auto
  show "(\<forall>a. user_view s' U a = user_view s U a) \<and> (if 13 + ?N \<le> length xs then d' \<noteq> 0 \<and> (\<exists>T' E' U' xs'. uspace kend s' d' T' E' U' xs' \<and> uspace kend s' d T E U xs' \<and>
       (tables d T \<union> ran U) \<inter> (tables d' T' \<union> ran U') = {} \<and> (\<forall>a. user_view s' U' a = (if a < 4096 * ?N then user_view s U a else None)))
     else d' = 0 \<and> (\<exists>xs'. uspace kend s' d T E U xs' \<and> set xs' = (if 13 \<le> length xs then set xs else {})))"
  proof (cases "13 + ?N \<le> length xs")
    case True
    then obtain T' E' U' ys where 1: "uspace kend s' d' T' E' U' ys" "dom U' = {..<?N}"
        "\<forall>n<?N. rd (mem s') (unat (the (U' n))) 4096 = rd (mem s) (unat (the (U n))) 4096" "tables d' T' \<union> ran U' \<union> set ys = set xs" "d' \<noteq> 0"
      using q by auto
    have "uspace kend s' d T E U ys" by (rule o [OF uspaceD(3) [OF 1(1)]]) (use 1(4) in auto)
    moreover have "(tables d T \<union> ran U) \<inter> (tables d' T' \<union> ran U') = {}" using dj 1(4) by blast
    ultimately show ?thesis using True v 1(1,5) copied_view [OF 1(2) assms(3) 1(3)]
      by (simp only: if_True) (intro conjI exI [of _ T'] exI [of _ E'] exI [of _ U'] exI [of _ ys], simp_all)
  next
    case False
    then obtain ys where y: "d' = 0" "free_list kend s' ys" "set ys = (if 13 \<le> length xs then set xs else {})" using q by auto
    have "uspace kend s' d T E U ys" by (rule o [OF y(2)]) (simp add: y(3))
    with False v y show ?thesis by auto
  qed
qed

theorem copyuvm_correct_witness:
  "\<exists>s d T E U xs d' s' T' E' U' xs'. uspace 0x108000 s d T E U xs \<and> dom U = {..<2} \<and> copyuvm 0x108000 (page 300) d 0x1800 s = Ret (d', s') \<and>
     uspace 0x108000 s' d' T' E' U' xs' \<and> (\<forall>a<8192. user_view s' U' a = user_view s U a) \<and> ran U \<inter> ran U' = {}"
proof -
  obtain s d T E U xs where u: "uspace 0x108000 s d T E U xs" and U: "dom U = {..<2}" and xs: "200 \<le> length xs" by (rule a_space)
  have N: "npages 0x1800 = 2" by (simp add: npages_def)
  have l: "13 + npages 0x1800 \<le> length xs" using xs by (simp add: N)
  have "run (copyuvm 0x108000 (page 300) d 0x1800) s (\<lambda>d' s'. (\<forall>a. user_view s' U a = user_view s U a) \<and> d' \<noteq> 0 \<and>
      (\<exists>T' E' U' xs'. uspace 0x108000 s' d' T' E' U' xs' \<and> uspace 0x108000 s' d T E U xs' \<and> (tables d T \<union> ran U) \<inter> (tables d' T' \<union> ran U') = {} \<and>
        (\<forall>a. user_view s' U' a = (if a < 4096 * npages 0x1800 then user_view s U a else None))))"
    by (rule copyuvm_correct [OF u, of "0x1800" 300, unfolded if_P [OF l]]) (simp_all add: N U)
  then obtain d' s' T' E' U' xs' where c: "copyuvm 0x108000 (page 300) d 0x1800 s = Ret (d', s')" "uspace 0x108000 s' d' T' E' U' xs'"
      "(tables d T \<union> ran U) \<inter> (tables d' T' \<union> ran U') = {}" "\<forall>a. user_view s' U' a = (if a < 4096 * npages 0x1800 then user_view s U a else None)"
    by (elim runE conjE exE) (rule that)
  have "\<forall>a<8192. user_view s' U' a = user_view s U a" using c(4) by (simp add: N)
  moreover have "ran U \<inter> ran U' = {}" using c(3) by blast
  ultimately show ?thesis using u U c(1,2) by blast
qed

text \<open>C0. \<open>copyout\<close> writes bytes into user memory of an address space that need not be the current one, at a range below 4 MB. It returns 0 exactly when every
  page of the range is user memory; then the process sees the bytes there and everything else unchanged. Otherwise it returns \<open>-1\<close>, and the bytes in front of the first page that is
  not user memory have been written. In both cases no byte of the physical memory changes but those behind the addresses written to, in pages of the process, and
  nothing else of the state changes: page tables, free pages, the kernel and other processes keep their memory.\<close>

theorem copyout_correct:
  assumes "uspace kend s d T E U xs" and "unat va + length bs \<le> 0x400000"
  shows "run (copyout d va bs) s (\<lambda>r s'. uspace kend s' d T E U xs \<and>
    (if mapped_range U (unat va) (length bs) then r = 0 \<and> user_view s' U = written_view (user_view s U) (unat va) bs else r = -1) \<and>
    copied_out U (unat va) bs s r s')"
  unfolding copyout_def by (rule run_weaken [OF copyout_loop_law [OF assms]]) (use copied_out_result in \<open>blast | simp\<close>)+

theorem copyout_correct_witness:
  "\<exists>s d U s'. copyout d 0xFFF [1, 2, 3] s = Ret (0, s') \<and> user_view s' U 0x1000 = Some 2 \<and> user_view s' U 0x1002 = user_view s U 0x1002"
proof -
  obtain s d T E U xs where u: "uspace 0x108000 s d T E U xs" and U: "dom U = {..<2}" by (rule a_space)
  have "(unat (0xFFF :: u32) + i) div 4096 \<in> dom U" if "i < length [1, 2, 3 :: u8]" for i unfolding U using that by simp
  then have "mapped_range U (unat (0xFFF :: u32)) (length [1, 2, 3 :: u8])" unfolding mapped_range_def domIff by blast
  then obtain s' where "copyout d 0xFFF [1, 2, 3] s = Ret (0, s')" "user_view s' U = written_view (user_view s U) (unat (0xFFF :: u32)) [1, 2, 3]"
    using copyout_correct [OF u, of "0xFFF" "[1, 2, 3]"] by (auto simp: run_def)
  then show ?thesis by (intro exI [of _ s] exI [of _ d] exI [of _ U] exI [of _ s']) (simp add: written_view_def)
qed

end
