(* ===== verification/Frame.thy ===== *)
theory Frame
  imports File
begin

text \<open>
  Invariants that an operation cannot break because it works on other parts of the state. \<open>pres I m\<close>: if the computation returns, it
  keeps \<open>I\<close>. The locale \<open>bio_blind\<close> is the interface of such an \<open>I\<close> for the disk side: it does not depend on the buffer cache and the drive, so every
  operation of \<open>kernel/bio.c\<close> keeps it; \<open>fs_blind\<close> adds the inode cache and \<open>kernel/fs.c\<close>, \<open>pipe_blind\<close> what closing and
  allocating a pipe changes besides the file table.
\<close>

section \<open>Keeping an invariant\<close>

definition pres :: "('s \<Rightarrow> bool) \<Rightarrow> ('s, 'a) km \<Rightarrow> bool" where
  "pres I m \<longleftrightarrow> (\<forall>s a s'. I s \<longrightarrow> m s = Ret (a, s') \<longrightarrow> I s')"

named_theorems pres_intros "keeping an invariant, by the shape of the computation"

lemma presI: "(\<And>s a s'. I s \<Longrightarrow> m s = Ret (a, s') \<Longrightarrow> I s') \<Longrightarrow> pres I m"
  by (auto simp: pres_def)

lemma presD: "pres I m \<Longrightarrow> m s = Ret (a, s') \<Longrightarrow> I s \<Longrightarrow> I s'"
  by (auto simp: pres_def)

lemma pres_basic [pres_intros]:
  "pres I (ret a)" "pres I (gets f)" "pres I (panic msg)" "pres I sleep_forever" "pres I fault"
  by (auto simp: pres_def)

lemma pres_bnd [pres_intros]: "pres I m \<Longrightarrow> (\<And>a. pres I (f a)) \<Longrightarrow> pres I (bnd m f)"
  unfolding pres_def bnd_eq_Ret by blast

lemma pres_modify [pres_intros]: "(\<And>s. I s \<Longrightarrow> I (g s)) \<Longrightarrow> pres I (modify g)"
  by (auto simp: pres_def)

lemma pres_if [pres_intros]: "pres I m \<Longrightarrow> pres I n \<Longrightarrow> pres I (if b then m else n)"
  by simp

lemma pres_let [pres_intros]: "pres I (f a) \<Longrightarrow> pres I (Let a f)"
  by simp

lemma pres_option [pres_intros]: "pres I n \<Longrightarrow> (\<And>x. pres I (f x)) \<Longrightarrow> pres I (case r of None \<Rightarrow> n | Some x \<Rightarrow> f x)"
  by (cases r) auto

lemma pres_prod [pres_intros]: "(\<And>x y. pres I (f x y)) \<Longrightarrow> pres I (case r of (x, y) \<Rightarrow> f x y)"
  by (cases r) auto

lemma pres_ftype [pres_intros]: "pres I m \<Longrightarrow> pres I n \<Longrightarrow> pres I k \<Longrightarrow> pres I (case t of FD_NONE \<Rightarrow> m | FD_PIPE \<Rightarrow> n | FD_INODE \<Rightarrow> k)"
  by (cases t) auto

lemma pres_for_each [pres_intros]: "(\<And>x. pres I (f x)) \<Longrightarrow> pres I (for_each f xs)"
  by (induction xs) (auto intro!: pres_intros)

section \<open>The disk side\<close>

locale bio_blind =
  fixes I :: "'a bio_scheme \<Rightarrow> bool"
  assumes bcache_blind: "I (s\<lparr>bcache := c\<rparr>) = I s"
    and idequeue_blind: "I (s\<lparr>idequeue := q\<rparr>) = I s"
    and ide_reg_blind: "I (s\<lparr>ide_reg := r\<rparr>) = I s"
    and disk_blind: "I (s\<lparr>disk := D\<rparr>) = I s"
begin

lemma upd_buf_blind [simp]: "I (upd_buf b f s) = I s"
  by (simp add: upd_buf_def bcache_blind)

lemma idestart_blind [simp]: "I (idestart b s) = I s"
proof -
  have "I (s\<lparr>ide_reg := r, disk := D\<rparr>) = I s" for r D using disk_blind [where s = "s\<lparr>ide_reg := r\<rparr>"] by (simp add: ide_reg_blind)
  then show ?thesis by (simp add: idestart_def Let_def ide_reg_blind)
qed

lemma ideintr_blind [simp]: "I (ideintr s) = I s"
  by (simp add: ideintr_def Let_def idequeue_blind split: list.split)

lemma ide_await_pres: "I s \<Longrightarrow> ide_await b s = Ret (a, s') \<Longrightarrow> I s'"
proof (induction b s rule: ide_await.induct)
  case (1 b s)
  show ?case
  proof (cases "b_valid (bcache s b) \<and> \<not> b_dirty (bcache s b)")
    case True
    then show ?thesis using 1(2,3) by (simp add: ide_await.simps [of b s])
  next
    case False
    then have "idequeue s \<noteq> []" "ide_await b (ideintr s) = Ret (a, s')" using 1(3) by (auto simp: ide_await.simps [of b s] split: if_splits)
    then show ?thesis using 1(1) [OF False] 1(2) by simp
  qed
qed

lemma iderw_pres [pres_intros]: "pres I (iderw b)"
proof (rule presI)
  fix s a s' assume s: "I s" and r: "iderw b s = Ret (a, s')"
  let ?t = "s\<lparr>idequeue := idequeue s @ [b]\<rparr>"
  have "ide_await b (if hd (idequeue ?t) = b then idestart b ?t else ?t) = Ret (a, s')"
    using r by (simp add: iderw_def Let_def split: if_splits)
  then show "I s'" by (rule ide_await_pres [rotated]) (simp add: idequeue_blind s)
qed

lemma bget_pres [pres_intros]: "pres I (bget dev sector)"
proof (rule presI)
  fix s a s' assume s: "I s" and r: "bget dev sector s = Ret (a, s')"
  have e: "rbind m f = Ret (a, s') \<Longrightarrow> (\<And>x. f x = Ret (a, s') \<Longrightarrow> I s') \<Longrightarrow> I s'" for m :: "nat option res" and f by (auto simp: rbind_eq_Ret)
  from r show "I s'" unfolding bget_def Let_def
  proof (rule e, goal_cases)
    case (1 x)
    then show ?case
    proof (cases x)
      case None
      show ?thesis using 1 unfolding None option.case by (rule e) (use s in \<open>auto split: option.splits\<close>)
    qed (use s in \<open>auto split: if_splits\<close>)
  qed
qed

lemma bread_pres [pres_intros]: "pres I (bread dev sector)"
  unfolding bread_def by (intro pres_intros)

lemma bwrite_pres [pres_intros]: "pres I (bwrite b)"
  unfolding bwrite_def by (intro pres_intros) simp

lemma brelse_pres [pres_intros]: "pres I (brelse b)"
  unfolding brelse_def by (intro pres_intros) (simp add: bcache_blind)

lemma data_pres [pres_intros]: "pres I (set_data b f)" "pres I (buf_data b)"
  unfolding set_data_def buf_data_def by (intro pres_intros; simp)+

lemma readsb_pres [pres_intros]: "pres I (readsb dev)"
  unfolding readsb_def by (intro pres_intros)

lemma bzero_pres [pres_intros]: "pres I (bzero dev bno)"
  unfolding bzero_def by (intro pres_intros)

lemma balloc_loop_pres [pres_intros]: "pres I (balloc_loop fuel dev sb b)"
  by (induction fuel arbitrary: b) (auto intro!: pres_intros)

lemma balloc_pres [pres_intros]: "pres I (balloc dev)"
  unfolding balloc_def by (intro pres_intros)

lemma bfree_pres [pres_intros]: "pres I (bfree dev b)"
  unfolding bfree_def by (intro pres_intros)

end

text \<open>The operations of \<open>kernel/fs.c\<close>; a device must keep the invariant, too.\<close>

definition dev_pres :: "('s \<Rightarrow> bool) \<Rightarrow> 's devtab \<Rightarrow> bool" where
  "dev_pres I dv \<longleftrightarrow> (\<forall>k f. dev_read (dv k) = Some f \<longrightarrow> (\<forall>i n. pres I (f i n))) \<and> (\<forall>k f. dev_write (dv k) = Some f \<longrightarrow> (\<forall>i src n. pres I (f i src n)))"

lemma dev_case_pres:
  "dev_pres I dv \<Longrightarrow> pres I (case dev_read (dv k) of None \<Rightarrow> ret a | Some f \<Rightarrow> f i n)"
  "dev_pres I dv \<Longrightarrow> pres I (case dev_write (dv k) of None \<Rightarrow> ret b | Some f \<Rightarrow> f i src n)"
  by (auto simp: dev_pres_def pres_basic split: option.split)

locale fs_blind = bio_blind I for I :: "'a fsys_scheme \<Rightarrow> bool" +
  assumes icache_blind: "I (s\<lparr>icache := c\<rparr>) = I s"
begin

lemma inode_pres [pres_intros]: "pres I (upd_inode i f)" "pres I (the_inode i)"
  unfolding upd_inode_def the_inode_def by (intro pres_intros; simp add: icache_blind)+

lemma iget_pres [pres_intros]: "pres I (iget dev inum)"
  by (rule presI) (auto simp: iget_def icache_blind split: option.splits)

lemma ialloc_loop_pres [pres_intros]: "pres I (ialloc_loop dev type ns)"
  by (induction ns) (unfold ialloc_loop.simps, (rule pres_intros | assumption)+)

lemma ialloc_pres [pres_intros]: "pres I (ialloc dev type)"
  unfolding ialloc_def by (intro pres_intros)

lemma iupdate_pres [pres_intros]: "pres I (iupdate i)"
  unfolding iupdate_def by (intro pres_intros)

lemma idup_pres [pres_intros]: "pres I (idup i)"
  unfolding idup_def by (intro pres_intros)

lemma ilock_pres [pres_intros]: "pres I (ilock i)"
  unfolding ilock_def by (intro pres_intros)

lemma iunlock_pres [pres_intros]: "pres I (iunlock i)"
  unfolding iunlock_def by (intro pres_intros)

lemma bmap_pres [pres_intros]: "pres I (bmap i bn)"
  unfolding bmap_def by (intro pres_intros)

lemma itrunc_pres [pres_intros]: "pres I (itrunc i)"
  unfolding itrunc_def by (intro pres_intros)

lemma iput_pres [pres_intros]: "pres I (iput i)" "pres I (iunlockput i)"
  unfolding iunlockput_def iput_def by (intro pres_intros)+

lemma stati_pres [pres_intros]: "pres I (stati i)"
  unfolding stati_def by (intro pres_intros)

lemma readi_loop_pres [pres_intros]: "pres I (readi_loop fuel i off n tot dst)"
  by (induction fuel arbitrary: off tot dst) (unfold readi_loop.simps, (rule pres_intros | assumption)+)

lemma readi_pres [pres_intros]: "dev_pres I dv \<Longrightarrow> pres I (readi dv i off n)"
  unfolding readi_def by (rule dev_case_pres pres_intros | assumption)+

lemma writei_loop_pres [pres_intros]: "pres I (writei_loop fuel i src off n tot)"
  by (induction fuel arbitrary: off tot) (unfold writei_loop.simps, (rule pres_intros | assumption)+)

lemma writei_pres [pres_intros]: "dev_pres I dv \<Longrightarrow> pres I (writei dv i src off n)"
  unfolding writei_def by (rule dev_case_pres pres_intros | assumption)+

lemma dirlookup_loop_pres [pres_intros]: "pres I (dirlookup_loop fuel i name off)"
  by (induction fuel arbitrary: off) (unfold dirlookup_loop.simps, (rule pres_intros | assumption)+)

lemma dirlookup_pres [pres_intros]: "pres I (dirlookup i name)"
  unfolding dirlookup_def by (intro pres_intros)

lemma dirlink_loop_pres [pres_intros]: "dev_pres I dv \<Longrightarrow> pres I (dirlink_loop dv fuel i off)"
  by (induction fuel arbitrary: off) (unfold dirlink_loop.simps, (rule pres_intros | assumption)+)

lemma dirlink_pres [pres_intros]: "dev_pres I dv \<Longrightarrow> pres I (dirlink dv i name inum)"
  unfolding dirlink_def by (rule pres_intros | assumption)+

lemma namex_loop_pres [pres_intros]: "pres I (namex_loop fuel np path name ip)"
  by (induction fuel arbitrary: path name ip) (unfold namex_loop.simps, (rule pres_intros | assumption)+)

lemma namei_pres [pres_intros]: "pres I (namex cwd path np)" "pres I (namei cwd path)" "pres I (nameiparent cwd path)"
  unfolding namei_def nameiparent_def namex_def by (intro pres_intros)+

end

section \<open>Pipes and memory\<close>

locale pipe_blind = fs_blind I for I :: "'a kstate_scheme \<Rightarrow> bool" +
  assumes k_mem_blind: "I (s\<lparr>k_mem := m\<rparr>) = I s" and k_pipes_blind: "I (s\<lparr>k_pipes := p\<rparr>) = I s"
begin

lemma with_mem_pres [pres_intros]: "pres I (with_mem m)"
  by (rule presI) (auto simp: with_mem_def rbind_eq_Ret k_mem_blind)

lemma upd_pipe_pres [pres_intros]: "pres I (upd_pipe p q)"
  unfolding upd_pipe_def by (intro pres_intros) (simp add: k_pipes_blind)

lemma pipeclose_pres [pres_intros]: "pres I (pipeclose p w)"
  unfolding pipeclose_def by (intro pres_intros)

lemma pipewrite_pres [pres_intros]: "pres I (pipewrite p addr n)"
  unfolding pipewrite_def by (rule pres_intros | (rule presI, auto split: wres.splits))+

lemma piperead_pres [pres_intros]: "pres I (piperead p n)"
  unfolding piperead_def by (rule pres_intros | (rule presI, auto split: rres.splits))+

end

section \<open>From one invariant to another\<close>

definition valid :: "('s \<Rightarrow> bool) \<Rightarrow> ('s, 'a) km \<Rightarrow> ('a \<Rightarrow> 's \<Rightarrow> bool) \<Rightarrow> bool" where
  "valid I m J \<longleftrightarrow> (\<forall>s a s'. I s \<longrightarrow> m s = Ret (a, s') \<longrightarrow> J a s')"

lemma validI: "(\<And>s a s'. I s \<Longrightarrow> m s = Ret (a, s') \<Longrightarrow> J a s') \<Longrightarrow> valid I m J"
  by (auto simp: valid_def)

lemma valid_pres: "valid I m (\<lambda>_. I) = pres I m"
  by (auto simp: valid_def pres_def)

lemma valid_bnd: "valid I m J \<Longrightarrow> (\<And>a. valid (J a) (f a) K) \<Longrightarrow> valid I (bnd m f) K"
  unfolding valid_def bnd_eq_Ret by blast

lemma valid_pres_bnd: "pres I m \<Longrightarrow> (\<And>a. valid I (f a) K) \<Longrightarrow> valid I (bnd m f) K"
  unfolding valid_pres [symmetric] by (rule valid_bnd)

lemma valid_ret: "(\<And>s. I s \<Longrightarrow> J a s) \<Longrightarrow> valid I (ret a) J"
  by (auto simp: valid_def)

lemma valid_none: "valid I (panic msg) J" "valid I sleep_forever J" "valid I fault J"
  by (auto simp: valid_def)

lemma valid_if: "valid I m J \<Longrightarrow> valid I n J \<Longrightarrow> valid I (if b then m else n) J"
  by simp

lemma valid_option: "(r = None \<Longrightarrow> valid I n J) \<Longrightarrow> (\<And>x. r = Some x \<Longrightarrow> valid I (f x) J) \<Longrightarrow> valid I (case r of None \<Rightarrow> n | Some x \<Rightarrow> f x) J"
  by (cases r) auto

lemma valid_gets: "(\<And>a. valid (\<lambda>s. I s \<and> g s = a) (f a) J) \<Longrightarrow> valid I (bnd (gets g) f) J"
  unfolding valid_def bnd_eq_Ret by auto

lemma valid_weaken: "valid I m J \<Longrightarrow> (\<And>s. I' s \<Longrightarrow> I s) \<Longrightarrow> valid I' m J"
  by (auto simp: valid_def)

end
