(* ===== verification/Sysfile_Refs.thy ===== *)
theory Sysfile_Refs
  imports Sysfile Frame Console Fs_Props
begin

unbundle bit_operations_syntax

text \<open>
  Descriptors and reference counts over the system calls of \<open>kernel/sysfile.c\<close>. \<open>refs_ok h\<close>: every descriptor of the process names a slot of the file
  table, and the count of a slot is the number of descriptors that name it plus \<open>h\<close>, what others hold. Inside a call the count and
  the descriptors may differ by one for a while, which \<open>h\<close> records; every call ends with the \<open>h\<close> it began with.
\<close>

definition fds_of :: "uproc \<Rightarrow> nat \<Rightarrow> nat set" where
  "fds_of p f = {fd. u_ofile p fd = Some f}"

definition fds_ok :: "uproc \<Rightarrow> bool" where
  "fds_ok p \<longleftrightarrow> (\<forall>fd f. u_ofile p fd = Some f \<longrightarrow> fd < NOFILE \<and> f < NFILE)"

definition refs_ok :: "(nat \<Rightarrow> int) \<Rightarrow> 'a kstate_scheme \<Rightarrow> bool" where
  "refs_ok h s \<longleftrightarrow> fds_ok (k_proc s) \<and> (\<forall>f<NFILE. f_ref (k_files s f) = int (card (fds_of (k_proc s) f)) + h f)"

lemma finite_fds: "fds_ok p \<Longrightarrow> finite (fds_of p f)"
  by (rule finite_subset [of _ "{..<NOFILE}"]) (auto simp: fds_ok_def fds_of_def)

interpretation rf: pipe_blind "refs_ok h" for h
  by unfold_locales (simp_all add: refs_ok_def)

lemmas rf_pres = rf.iput_pres rf.ilock_pres rf.iunlock_pres rf.inode_pres rf.namei_pres rf.iupdate_pres rf.dirlookup_pres rf.dirlink_pres rf.readi_pres rf.writei_pres
  rf.ialloc_pres rf.stati_pres rf.with_mem_pres rf.upd_pipe_pres rf.pipeclose_pres rf.pipewrite_pres rf.piperead_pres

lemma refs_same: "k_files s' = k_files s \<Longrightarrow> u_ofile (k_proc s') = u_ofile (k_proc s) \<Longrightarrow> refs_ok h s' = refs_ok h s"
  by (simp add: refs_ok_def fds_ok_def fds_of_def)

lemma upd_proc_pres: "(\<And>u. u_ofile (g u) = u_ofile u) \<Longrightarrow> pres (refs_ok h) (upd_proc g)"
  unfolding upd_proc_def by (rule pres_modify) (simp add: refs_same [of "k_proc_update _ _"])

lemma copy_to_user_pres: "pres (refs_ok h) (copy_to_user a bs)"
  unfolding copy_to_user_def by (rule upd_proc_pres) simp

section \<open>The file table\<close>

lemma set_ref:
  assumes "refs_ok h s" and "f_ref x = f_ref (k_files s f) + d"
  shows "refs_ok (h(f := h f + d)) (s\<lparr>k_files := (k_files s)(f := x)\<rparr>)"
  using assms by (auto simp: refs_ok_def)

lemma upd_file_refs: "(\<And>x. f_ref (g x) = f_ref x + d) \<Longrightarrow> valid (refs_ok h) (upd_file f g) (\<lambda>_. refs_ok (h(f := h f + d)))"
  unfolding upd_file_def by (rule validI) (auto intro!: set_ref)

lemma upd_file_pres: "(\<And>x. f_ref (g x) = f_ref x) \<Longrightarrow> pres (refs_ok h) (upd_file f g)"
  using upd_file_refs [of g 0 h f] by (simp add: valid_pres)

lemma filealloc_refs: "valid (refs_ok h) filealloc (\<lambda>r. case r of None \<Rightarrow> refs_ok h | Some f \<Rightarrow> \<lambda>s. f < NFILE \<and> refs_ok (h(f := h f + 1)) s)"
proof (rule validI)
  fix s r s' assume h: "refs_ok h s" and a: "filealloc s = Ret (r, s')"
  show "(case r of None \<Rightarrow> refs_ok h | Some f \<Rightarrow> \<lambda>s. f < NFILE \<and> refs_ok (h(f := h f + 1)) s) s'"
  proof (cases "find (\<lambda>f. f_ref (k_files s f) = 0) [0..<NFILE]")
    case None
    then show ?thesis using a h by (simp add: filealloc_def)
  next
    case (Some f)
    then have f: "f < NFILE" "f_ref (k_files s f) = 0" by (auto simp: find_Some_iff)
    have "r = Some f" "s' = s\<lparr>k_files := (k_files s)(f := (k_files s f)\<lparr>f_ref := 1\<rparr>)\<rparr>" using a Some by (simp_all add: filealloc_def upd_file_def)
    then show ?thesis using f set_ref [OF h, of "(k_files s f)\<lparr>f_ref := 1\<rparr>" f 1] by simp
  qed
qed

lemma filedup_refs: "valid (refs_ok h) (filedup f) (\<lambda>_. refs_ok (h(f := h f + 1)))"
  unfolding filedup_def the_file_def
  by (intro valid_gets valid_if valid_none valid_bnd [OF valid_weaken [OF upd_file_refs]] valid_ret) auto

lemma fileclose_refs: "valid (refs_ok h) (fileclose f) (\<lambda>_. refs_ok (h(f := h f - 1)))"
proof (rule validI)
  fix s and u :: unit and s' assume h: "refs_ok h s" and a: "fileclose f s = Ret (u, s')"
  let ?x = "k_files s f"
  show "refs_ok (h(f := h f - 1)) s'"
  proof (cases "f_ref ?x - 1 > 0")
    case True
    then have "s' = s\<lparr>k_files := (k_files s)(f := ?x\<lparr>f_ref := f_ref ?x - 1\<rparr>)\<rparr>" using a by (auto simp: fileclose_def the_file_def upd_file_def)
    then show ?thesis using set_ref [OF h, of "?x\<lparr>f_ref := f_ref ?x - 1\<rparr>" f "-1"] by simp
  next
    case False
    let ?s1 = "s\<lparr>k_files := (k_files s)(f := ?x\<lparr>f_ref := 0, f_type := FD_NONE\<rparr>)\<rparr>"
    let ?m = "case f_type ?x of FD_NONE \<Rightarrow> ret () | FD_PIPE \<Rightarrow> pipeclose (f_pipe ?x) (f_writable ?x) | FD_INODE \<Rightarrow> iput (f_ip ?x)"
    have "f_ref ?x = 1" "?m ?s1 = Ret (u, s')" using a False by (auto simp: fileclose_def the_file_def upd_file_def split: if_splits)
    moreover have "refs_ok (h(f := h f - 1)) ?s1" using set_ref [OF h, of "?x\<lparr>f_ref := 0, f_type := FD_NONE\<rparr>" f "-1"] \<open>f_ref ?x = 1\<close> by simp
    moreover have "pres (refs_ok (h(f := h f - 1))) ?m" by (rule pres_intros rf_pres)+
    ultimately show ?thesis by (blast dest: presD)
  qed
qed

lemma fdalloc_refs:
  assumes "f < NFILE"
  shows "valid (refs_ok h) (fdalloc f) (\<lambda>r. case r of None \<Rightarrow> refs_ok h | Some fd \<Rightarrow> \<lambda>s. refs_ok (h(f := h f - 1)) s \<and> u_ofile (k_proc s) fd = Some f)"
proof (rule validI)
  fix s r s' assume h: "refs_ok h s" and a: "fdalloc f s = Ret (r, s')"
  show "(case r of None \<Rightarrow> refs_ok h | Some fd \<Rightarrow> \<lambda>s. refs_ok (h(f := h f - 1)) s \<and> u_ofile (k_proc s) fd = Some f) s'"
  proof (cases "find (\<lambda>fd. u_ofile (k_proc s) fd = None) [0..<NOFILE]")
    case None
    then show ?thesis using a h by (simp add: fdalloc_def)
  next
    case (Some fd)
    then have fd: "fd < NOFILE" "u_ofile (k_proc s) fd = None" by (auto simp: find_Some_iff)
    let ?p = "(k_proc s)\<lparr>u_ofile := (u_ofile (k_proc s))(fd := Some f)\<rparr>"
    have s': "r = Some fd" "s' = s\<lparr>k_proc := ?p\<rparr>" using a Some by (simp_all add: fdalloc_def upd_proc_def)
    have "fds_of ?p f = insert fd (fds_of (k_proc s) f)" "fd \<notin> fds_of (k_proc s) f" "\<And>g. g \<noteq> f \<Longrightarrow> fds_of ?p g = fds_of (k_proc s) g"
      using fd(2) by (auto simp: fds_of_def)
    moreover have "fds_ok ?p" using h assms fd by (auto simp: refs_ok_def fds_ok_def)
    ultimately show ?thesis using h finite_fds [of "k_proc s" f] by (auto simp: s' refs_ok_def)
  qed
qed

lemma clear_fd_refs:
  "valid (\<lambda>s. refs_ok h s \<and> u_ofile (k_proc s) fd = Some f) (upd_proc (\<lambda>u. u\<lparr>u_ofile := (u_ofile u)(fd := None)\<rparr>)) (\<lambda>_. refs_ok (h(f := h f + 1)))"
proof (rule validI)
  fix s and u :: unit and s'
  let ?p = "(k_proc s)\<lparr>u_ofile := (u_ofile (k_proc s))(fd := None)\<rparr>"
  assume h: "refs_ok h s \<and> u_ofile (k_proc s) fd = Some f" and a: "upd_proc (\<lambda>u. u\<lparr>u_ofile := (u_ofile u)(fd := None)\<rparr>) s = Ret (u, s')"
  have "fds_of (k_proc s) f = insert fd (fds_of ?p f)" "fd \<notin> fds_of ?p f" "\<And>g. g \<noteq> f \<Longrightarrow> fds_of ?p g = fds_of (k_proc s) g"
    using h by (auto simp: fds_of_def)
  moreover have "fds_ok ?p" using h by (auto simp: refs_ok_def fds_ok_def)
  ultimately have "refs_ok (h(f := h f + 1)) (s\<lparr>k_proc := ?p\<rparr>)" using h finite_fds [of ?p f] by (auto simp: refs_ok_def)
  then show "refs_ok (h(f := h f + 1)) s'" using a by (auto simp: upd_proc_def)
qed

section \<open>Calls that leave the descriptors alone\<close>

lemma need_pres [pres_intros]: "(\<And>x. pres I (k x)) \<Longrightarrow> pres I (need g k)"
  unfolding need_def by (intro pres_intros)

lemma cwd_pres [pres_intros]: "pres (refs_ok h) (namei_cwd path)" "pres (refs_ok h) (nameiparent_cwd path)"
  unfolding namei_cwd_def nameiparent_cwd_def by (intro pres_intros)+

lemma filestat_pres: "pres (refs_ok h) (filestat f)"
  unfolding filestat_def the_file_def by (intro pres_intros)

lemma fileread_pres: "dev_pres (refs_ok h) dv \<Longrightarrow> pres (refs_ok h) (fileread dv f n)"
  unfolding fileread_def the_file_def by (rule pres_intros upd_file_pres | assumption | (simp; fail))+

lemma filewrite_pres: "dev_pres (refs_ok h) dv \<Longrightarrow> pres (refs_ok h) (filewrite dv f src n)"
  unfolding filewrite_def the_file_def by (rule pres_intros upd_file_pres | assumption | (simp; fail))+

lemma sys_read_pres: "dev_pres (refs_ok h) dv \<Longrightarrow> pres (refs_ok h) (sys_read dv)"
  unfolding sys_read_def by (rule pres_intros fileread_pres copy_to_user_pres | assumption)+

lemma sys_write_pres: "dev_pres (refs_ok h) dv \<Longrightarrow> pres (refs_ok h) (sys_write dv)"
  unfolding sys_write_def by (rule pres_intros filewrite_pres | assumption)+

lemma sys_fstat_pres: "pres (refs_ok h) sys_fstat"
  unfolding sys_fstat_def by (rule pres_intros filestat_pres upd_proc_pres | (simp; fail))+

lemma link_bad_pres: "pres (refs_ok h) (link_bad ip)"
  unfolding link_bad_def by (intro pres_intros)

lemma sys_link_pres: "dev_pres (refs_ok h) dv \<Longrightarrow> pres (refs_ok h) (sys_link dv)"
  unfolding sys_link_def by (rule pres_intros link_bad_pres | assumption)+

lemma isdirempty_loop_pres: "dev_pres (refs_ok h) dv \<Longrightarrow> pres (refs_ok h) (isdirempty_loop dv fuel dp off)"
  by (induction fuel arbitrary: off) (unfold isdirempty_loop.simps, (rule pres_intros | assumption)+)

lemma sys_unlink_pres: "dev_pres (refs_ok h) dv \<Longrightarrow> pres (refs_ok h) (sys_unlink dv)"
  unfolding sys_unlink_def isdirempty_def by (rule pres_intros isdirempty_loop_pres | assumption)+

lemma create_pres: "dev_pres (refs_ok h) dv \<Longrightarrow> pres (refs_ok h) (create dv path type major minor)"
  unfolding create_def by (rule pres_intros | assumption)+

lemma sys_mk_pres: "dev_pres (refs_ok h) dv \<Longrightarrow> pres (refs_ok h) (sys_mkdir dv)" "dev_pres (refs_ok h) dv \<Longrightarrow> pres (refs_ok h) (sys_mknod dv)"
  unfolding sys_mkdir_def sys_mknod_def by (rule pres_intros create_pres | assumption)+

lemma sys_chdir_pres: "pres (refs_ok h) sys_chdir"
  unfolding sys_chdir_def by (rule pres_intros upd_proc_pres | (simp; fail))+

lemma sys_exec_pres: "(\<And>path argv. pres (refs_ok h) (exec path argv)) \<Longrightarrow> pres (refs_ok h) (sys_exec exec)"
  unfolding sys_exec_def by (rule pres_intros | assumption)+

section \<open>Calls that open and close\<close>

lemma valid_conj: "(P \<Longrightarrow> valid I m J) \<Longrightarrow> valid (\<lambda>s. P \<and> I s) m J"
  by (auto simp: valid_def)

lemma valid_option_pre: "valid I n J \<Longrightarrow> (\<And>x. valid (K x) (k x) J) \<Longrightarrow> valid (case r of None \<Rightarrow> I | Some x \<Rightarrow> K x) (case r of None \<Rightarrow> n | Some x \<Rightarrow> k x) J"
  by (cases r) auto

lemma valid_post: "valid I m J \<Longrightarrow> (\<And>a s. J a s \<Longrightarrow> K a s) \<Longrightarrow> valid I m K"
  by (auto simp: valid_def)

lemma need_valid: "(\<And>s. I s \<Longrightarrow> J (-1) s) \<Longrightarrow> (\<And>x. valid (\<lambda>s. I s \<and> g (k_proc s) = Some x) (k x) J) \<Longrightarrow> valid I (need g k) J"
  unfolding need_def by (rule valid_gets) (auto intro!: valid_option valid_ret)

lemma argfd_some: "argfd p n = Some (fd, f) \<Longrightarrow> u_ofile p fd = Some f"
  by (auto simp: argfd_def Let_def split: option.splits if_splits)

lemma fdalloc_some:
  assumes "f < NFILE" and "\<And>s. I s \<Longrightarrow> refs_ok h s" and "valid I n J"
    and "\<And>fd. valid (\<lambda>s. refs_ok (h(f := h f - 1)) s \<and> u_ofile (k_proc s) fd = Some f) (k fd) J"
  shows "valid I (bnd (fdalloc f) (\<lambda>r. case r of None \<Rightarrow> n | Some fd \<Rightarrow> k fd)) J"
proof (rule valid_bnd)
  show "valid I (fdalloc f) (\<lambda>r. case r of None \<Rightarrow> I | Some fd \<Rightarrow> \<lambda>s. refs_ok (h(f := h f - 1)) s \<and> u_ofile (k_proc s) fd = Some f)"
  proof (rule validI)
    fix s r s' assume i: "I s" and a: "fdalloc f s = Ret (r, s')"
    have "r = None \<Longrightarrow> s' = s" using a by (auto simp: fdalloc_def bnd_eq_Ret split: option.splits)
    then show "(case r of None \<Rightarrow> I | Some fd \<Rightarrow> \<lambda>s. refs_ok (h(f := h f - 1)) s \<and> u_ofile (k_proc s) fd = Some f) s'"
      using fdalloc_refs [OF assms(1), of h] assms(2) [OF i] a i by (auto simp: valid_def split: option.splits)
  qed
  show "valid (case r of None \<Rightarrow> I | Some fd \<Rightarrow> \<lambda>s. refs_ok (h(f := h f - 1)) s \<and> u_ofile (k_proc s) fd = Some f) (case r of None \<Rightarrow> n | Some fd \<Rightarrow> k fd) J" for r
    using assms(3,4) by (cases r) auto
qed

lemma filealloc_some:
  assumes "pres (refs_ok h) n" and "\<And>f. f < NFILE \<Longrightarrow> valid (refs_ok (h(f := h f + 1))) (k f) (\<lambda>_. refs_ok h)"
  shows "pres (refs_ok h) (bnd filealloc (\<lambda>r. case r of None \<Rightarrow> n | Some f \<Rightarrow> k f))"
  unfolding valid_pres [symmetric]
proof (rule valid_bnd [OF filealloc_refs])
  show "valid (case r of None \<Rightarrow> refs_ok h | Some f \<Rightarrow> \<lambda>s. f < NFILE \<and> refs_ok (h(f := h f + 1)) s) (case r of None \<Rightarrow> n | Some f \<Rightarrow> k f) (\<lambda>_. refs_ok h)" for r
    using assms by (cases r) (auto simp: valid_pres intro: valid_conj)
qed

lemma sys_dup_pres: "pres (refs_ok h) sys_dup"
  unfolding sys_dup_def valid_pres [symmetric]
proof (intro need_valid, goal_cases)
  case (2 x)
  obtain fd f where x: "x = (fd, f)" by (cases x)
  have d: "valid (refs_ok h) (bnd (fdalloc f) (\<lambda>r. case r of None \<Rightarrow> ret (-1) | Some fd \<Rightarrow> seq (filedup f) (ret (int fd)))) (\<lambda>_. refs_ok h)" if "f < NFILE"
    using that by (rule fdalloc_some) (assumption, auto intro!: valid_ret valid_bnd [OF valid_weaken [OF filedup_refs]])
  have "f < NFILE" if "refs_ok h s" "argfd (k_proc s) 0 = Some (fd, f)" for s :: "'a kstate_scheme"
    using that by (auto simp: refs_ok_def fds_ok_def dest: argfd_some)
  then show ?case using d by (auto simp: x valid_def)
qed simp

lemma sys_close_pres: "pres (refs_ok h) sys_close"
  unfolding sys_close_def valid_pres [symmetric]
proof (intro need_valid, goal_cases)
  case (2 x)
  obtain fd f where x: "x = (fd, f)" by (cases x)
  have "valid (\<lambda>s. refs_ok h s \<and> u_ofile (k_proc s) fd = Some f)
      (seq (upd_proc (\<lambda>u. u\<lparr>u_ofile := (u_ofile u)(fd := None)\<rparr>)) (seq (fileclose f) (ret 0))) (\<lambda>_. refs_ok h)"
    by (rule valid_bnd [OF clear_fd_refs], rule valid_bnd [OF fileclose_refs]) (simp add: valid_ret)
  then show ?case unfolding x by (auto intro: valid_weaken dest: argfd_some)
qed simp

lemma open_fd_refs:
  assumes "f < NFILE" and "\<And>x. f_ref (g x) = f_ref x"
  shows "valid (refs_ok (h(f := h f + 1))) (bnd (fdalloc f) (\<lambda>r. case r of
      None \<Rightarrow> seq (fileclose f) (seq (iunlockput ip) (ret (-1)))
    | Some fd \<Rightarrow> seq (iunlock ip) (seq (upd_file f g) (ret (int fd))))) (\<lambda>_. refs_ok h)"
proof (rule fdalloc_some [OF assms(1)], assumption)
  have "pres (refs_ok h) (seq (iunlockput ip) (ret (-1)))" by (intro pres_intros)
  then show "valid (refs_ok (h(f := h f + 1))) (seq (fileclose f) (seq (iunlockput ip) (ret (-1)))) (\<lambda>_. refs_ok h)"
    by (intro valid_bnd [OF fileclose_refs]) (simp add: valid_pres)
  have "pres (refs_ok h) (seq (iunlock ip) (seq (upd_file f g) (ret (int fd))))" for fd by (intro pres_intros upd_file_pres assms(2))
  then show "valid (\<lambda>s. refs_ok ((h(f := h f + 1))(f := (h(f := h f + 1)) f - 1)) s \<and> u_ofile (k_proc s) fd = Some f)
      (seq (iunlock ip) (seq (upd_file f g) (ret (int fd)))) (\<lambda>_. refs_ok h)" for fd
    by - (rule valid_weaken [of "refs_ok h"], simp_all add: valid_pres)
qed

lemma sys_open_pres: "dev_pres (refs_ok h) dv \<Longrightarrow> pres (refs_ok h) (sys_open dv)"
  unfolding sys_open_def by (rule filealloc_some open_fd_refs pres_intros create_pres | assumption | (simp; fail))+

lemma pipealloc_bad_refs:
  "valid (refs_ok (h(f := h f + 1))) (pipealloc_bad (Some f) None) (\<lambda>r s. r = None \<and> refs_ok h s)"
  "valid (refs_ok ((h(f := h f + 1))(g := (h(f := h f + 1)) g + 1))) (pipealloc_bad (Some f) (Some g)) (\<lambda>r s. r = None \<and> refs_ok h s)"
proof -
  show "valid (refs_ok (h(f := h f + 1))) (pipealloc_bad (Some f) None) (\<lambda>r s. r = None \<and> refs_ok h s)"
    unfolding pipealloc_bad_def option.case by (rule valid_bnd [OF fileclose_refs]) (auto simp: valid_def)
  let ?h = "(h(f := h f + 1))(g := (h(f := h f + 1)) g + 1)"
  have e: "?h(f := ?h f - 1, g := (?h(f := ?h f - 1)) g - 1) = h" by (auto simp: fun_eq_iff)
  show "valid (refs_ok ?h) (pipealloc_bad (Some f) (Some g)) (\<lambda>r s. r = None \<and> refs_ok h s)"
    unfolding pipealloc_bad_def option.case
    by (rule valid_bnd [OF fileclose_refs], rule valid_bnd [OF fileclose_refs], unfold e) (simp add: valid_def)
qed

lemma pipe_ends_refs:
  assumes "f < NFILE" "g < NFILE"
  shows "valid (refs_ok ((h(f := h f + 1))(g := (h(f := h f + 1)) g + 1)))
    (bnd (with_mem kalloc) (\<lambda>p. if p = 0 then pipealloc_bad (Some f) (Some g)
         else seq (modify (\<lambda>s. s\<lparr>k_pipes := (k_pipes s)(p := pipe_init (k_pipes s p))\<rparr>))
           (seq (upd_file f (\<lambda>x. x\<lparr>f_type := FD_PIPE, f_readable := True, f_writable := False, f_pipe := p\<rparr>))
           (seq (upd_file g (\<lambda>x. x\<lparr>f_type := FD_PIPE, f_readable := False, f_writable := True, f_pipe := p\<rparr>))
           (ret (Some (f, g)))))))
    (\<lambda>r. case r of None \<Rightarrow> refs_ok h
     | Some (f, g) \<Rightarrow> \<lambda>s. f < NFILE \<and> g < NFILE \<and> refs_ok ((h(f := h f + 1))(g := (h(f := h f + 1)) g + 1)) s)"
  by (rule valid_pres_bnd, rule pres_intros, rule valid_if, rule valid_post [OF pipealloc_bad_refs(2)], simp)
    (rule valid_pres_bnd valid_ret pres_intros upd_file_pres | (simp add: assms rf.k_pipes_blind; fail))+

lemma pipealloc_refs:
  "valid (refs_ok h) pipealloc (\<lambda>r. case r of None \<Rightarrow> refs_ok h
     | Some (f, g) \<Rightarrow> \<lambda>s. f < NFILE \<and> g < NFILE \<and> refs_ok ((h(f := h f + 1))(g := (h(f := h f + 1)) g + 1)) s)"
  unfolding pipealloc_def
  by (rule valid_bnd [OF filealloc_refs], rule valid_option_pre, (simp add: pipealloc_bad_def valid_def; fail),
      rule valid_conj, rule valid_bnd [OF filealloc_refs], rule valid_option_pre, rule valid_post [OF pipealloc_bad_refs(1)], simp,
      rule valid_conj, rule pipe_ends_refs)

lemma close_both_refs:
  "valid (refs_ok ((h(f := h f + 1))(g := (h(f := h f + 1)) g + 1))) (seq (fileclose f) (seq (fileclose g) (ret r))) (\<lambda>_. refs_ok h)"
proof -
  let ?h = "(h(f := h f + 1))(g := (h(f := h f + 1)) g + 1)"
  have e: "?h(f := ?h f - 1, g := (?h(f := ?h f - 1)) g - 1) = h" by (auto simp: fun_eq_iff)
  show ?thesis by (rule valid_bnd [OF fileclose_refs], rule valid_bnd [OF fileclose_refs], unfold e) (simp add: valid_def)
qed

lemma pipe_fds_refs:
  assumes "f < NFILE" "g < NFILE"
  shows "valid (refs_ok ((h(f := h f + 1))(g := (h(f := h f + 1)) g + 1)))
    (bnd (fdalloc f) (\<lambda>r0. case r0 of
           None \<Rightarrow> seq (fileclose f) (seq (fileclose g) (ret (-1)))
         | Some fd0 \<Rightarrow>
             bnd (fdalloc g) (\<lambda>r1. case r1 of
               None \<Rightarrow>
                 seq (upd_proc (\<lambda>u. u\<lparr>u_ofile := (u_ofile u)(fd0 := None)\<rparr>))
                 (seq (fileclose f) (seq (fileclose g) (ret (-1))))
             | Some fd1 \<Rightarrow>
                 seq (copy_to_user fd (le32 (of_nat fd0)))
                 (seq (copy_to_user (fd + 4) (le32 (of_nat fd1)))
                 (ret 0))))) (\<lambda>_. refs_ok h)"
proof (rule fdalloc_some [OF assms(1)], assumption, rule close_both_refs, rule fdalloc_some [OF assms(2)], erule conjunct1)
  let ?h = "(h(f := h f + 1))(g := (h(f := h f + 1)) g + 1)"
  let ?k = "?h(f := ?h f - 1)"
  have e: "?k(f := ?k f + 1) = ?h" "?k(g := ?k g - 1) = h" by (auto simp: fun_eq_iff)
  show "valid (\<lambda>s. refs_ok ?k s \<and> u_ofile (k_proc s) fd0 = Some f) (seq (upd_proc (\<lambda>u. u\<lparr>u_ofile := (u_ofile u)(fd0 := None)\<rparr>))
                 (seq (fileclose f) (seq (fileclose g) (ret (-1))))) (\<lambda>_. refs_ok h)" for fd0
    by (rule valid_bnd [OF clear_fd_refs], unfold e, rule close_both_refs)
  have "pres (refs_ok h) (seq (copy_to_user fd (le32 (of_nat fd0))) (seq (copy_to_user (fd + 4) (le32 (of_nat fd1))) (ret 0)))" for fd0 fd1
    by (intro pres_intros copy_to_user_pres)
  then show "valid (\<lambda>s. refs_ok (?k(g := ?k g - 1)) s \<and> u_ofile (k_proc s) fd1 = Some g)
      (seq (copy_to_user fd (le32 (of_nat fd0))) (seq (copy_to_user (fd + 4) (le32 (of_nat fd1))) (ret 0))) (\<lambda>_. refs_ok h)" for fd0 fd1
    unfolding e by - (rule valid_weaken [of "refs_ok h"], simp_all add: valid_pres)
qed

lemma sys_pipe_pres: "pres (refs_ok h) sys_pipe"
proof -
  have "valid (refs_ok h) (bnd pipealloc (\<lambda>r. case r of None \<Rightarrow> ret (-1) | Some (f, g) \<Rightarrow> k f g)) (\<lambda>_. refs_ok h)"
    if "\<And>f g. f < NFILE \<Longrightarrow> g < NFILE \<Longrightarrow> valid (refs_ok ((h(f := h f + 1))(g := (h(f := h f + 1)) g + 1))) (k f g) (\<lambda>_. refs_ok h)" for k
    by (rule valid_bnd [OF pipealloc_refs], rule valid_option_pre, rule valid_ret, assumption)
      (unfold split_paired_all prod.case, intro valid_conj that, assumption+)
  from this [OF pipe_fds_refs] show ?thesis unfolding sys_pipe_def by (intro need_pres) (simp add: valid_pres)
qed

section \<open>Every system call\<close>

lemma syscall_pres:
  assumes "dev_pres (refs_ok h) dv" and "\<And>path argv. pres (refs_ok h) (exec path argv)" and "\<And>num f. sysproc num = Some f \<Longrightarrow> pres (refs_ok h) f"
  shows "pres (refs_ok h) (syscall (syscalls dv exec sysproc))"
proof -
  have "pres (refs_ok h) f" if "syscalls dv exec sysproc num = Some f" for num f
    using that assms by (auto simp: syscalls_def split: if_splits intro: sys_pipe_pres sys_write_pres sys_read_pres sys_close_pres sys_exec_pres sys_open_pres
        sys_mk_pres sys_unlink_pres sys_fstat_pres sys_link_pres sys_chdir_pres sys_dup_pres)
  then have "pres (refs_ok h) (case (if 0 < num \<and> num < 22 then syscalls dv exec sysproc num else None) of
       Some f \<Rightarrow> bnd f (\<lambda>r. upd_proc (\<lambda>u. u\<lparr>u_eax := of_int r\<rparr>)) | None \<Rightarrow> upd_proc (\<lambda>u. u\<lparr>u_eax := -1\<rparr>))" for num
    by (auto intro!: pres_bnd upd_proc_pres split: option.splits if_splits)
  then show ?thesis unfolding syscall_def by (intro pres_bnd pres_basic)
qed

lemma with_cons_pres: "pres (refs_ok h) (with_cons m)"
  by (rule presI) (auto simp: with_cons_def rbind_eq_Ret refs_ok_def)

lemma pres_cres: "(\<And>bs. pres I (f bs)) \<Longrightarrow> pres I m \<Longrightarrow> (\<And>bs. pres I (g bs)) \<Longrightarrow> pres I (case r of CSleep bs \<Rightarrow> f bs | CFail \<Rightarrow> m | CDone bs \<Rightarrow> g bs)"
  by (cases r) auto

lemma consoleread_pres: "pres (refs_ok h) (consoleread ip n)"
  unfolding consoleread_def by (rule pres_intros with_cons_pres | (rule pres_cres, assumption?))+

lemma consoleinit_pres: "dev_pres (refs_ok h) consoleinit"
  by (auto simp: dev_pres_def consoleinit_def consoleread_pres consolewrite_def intro!: pres_bnd with_cons_pres pres_intros)

text \<open>A kernel in which one process has slot 3 of the file table open as its descriptor 0, and asks for \<open>dup(0)\<close>.\<close>

definition dup_proc :: uproc where
  "dup_proc = \<lparr>u_sz = 4096, u_mem = \<lambda>_. 0, u_esp = 0, u_eax = 17, u_ofile = [0 \<mapsto> 3], u_cwd = 0, u_killed = False, u_pid = 1\<rparr>"

definition dup_kernel :: kcons where
  "dup_kernel = \<lparr>bcache = \<lambda>_. zero_buf, idequeue = [], havedisk1 = True, ide_reg = regs_for 0 0, disk = \<lambda>_ _ _. 0, bad_sector = \<lambda>_ _. False, icache = \<lambda>_. zero_inode,
     k_end = 0, k_mem = \<lparr>freelist = 0, mem = \<lambda>_. 0\<rparr>, k_pipes = \<lambda>_. \<lparr>p_data = \<lambda>_. 0, p_nread = 0, p_nwrite = 0, p_readopen = False, p_writeopen = False\<rparr>,
     k_files = \<lambda>f. \<lparr>f_type = FD_NONE, f_ref = (if f = 3 then 1 else 0), f_readable = True, f_writable = True, f_pipe = 0, f_ip = 0, f_off = 0\<rparr>,
     k_proc = dup_proc, k_cons = con_start\<rparr>"

lemma dup_kernel_refs: "refs_ok (\<lambda>_. 0) dup_kernel"
proof -
  have "fds_of dup_proc f = (if f = 3 then {0} else {})" for f by (auto simp: fds_of_def dup_proc_def split: if_splits)
  then show ?thesis by (auto simp: refs_ok_def dup_kernel_def fds_ok_def) (auto simp: dup_proc_def split: if_splits)
qed

lemma dup_args: "k_proc dup_kernel = dup_proc" "sint (u_eax dup_proc) = 17" "argfd dup_proc 0 = Some (0, 3)" "find (\<lambda>fd. u_ofile dup_proc fd = None) [0..<NOFILE] = Some 1"
  by (simp add: dup_kernel_def) code_simp+

lemma dup_run: "sys_dup dup_kernel = Ret (1, dup_kernel\<lparr>k_files := (k_files dup_kernel)(3 := (k_files dup_kernel 3)\<lparr>f_ref := 2\<rparr>),
    k_proc := dup_proc\<lparr>u_ofile := [0 \<mapsto> 3, 1 \<mapsto> 3]\<rparr>\<rparr>)"
proof -
  have f: "f_ref (k_files dup_kernel 3) = 1" "u_ofile dup_proc = [0 \<mapsto> 3]" by (simp_all add: dup_kernel_def dup_proc_def)
  show ?thesis unfolding sys_dup_def need_def fdalloc_def filedup_def the_file_def upd_file_def upd_proc_def bnd_def gets_def modify_def ret_def
    by (simp only: dup_args prod.case option.case rbind.simps) (simp add: f dup_args)
qed



end
