(* ===== verification/Proc.thy ===== *)
theory Proc
  imports Sysfile Vm
begin

unbundle bit_operations_syntax

text \<open>
  Processes, \<open>kernel/proc.c\<close> and the calls of \<open>kernel/sysproc.c\<close>. A pointer to a \<open>struct proc\<close> is an index into \<open>ptable.proc\<close>, a null
  pointer is \<open>None\<close>. A function runs on a processor \<open>c\<close>, whose \<open>proc\<close> is \<open>cpu_proc s c\<close>. Trap frames and contexts are bytes of
  the kernel stack in physical memory. Each function is what happens between two context switches: a function that gives up the
  processor ends with \<open>sched\<close>, after which the processor is with its scheduler, and \<open>resume\<close> is what the process does first when it
  is chosen again. The process table is only changed with its lock held, so the locks are left out here; theory \<open>Spinlock\<close> has them, with the tests of
  \<open>sched\<close> on them. The loading of registers by \<open>switchuvm\<close> and \<open>swtch\<close> is left out, too.
\<close>

abbreviation NPROC :: nat where "NPROC \<equiv> 64"

section \<open>State\<close>

datatype procstate = UNUSED | EMBRYO | SLEEPING | RUNNABLE | RUNNING | ZOMBIE

text \<open>Sleep channels are addresses: that of a process, or that of some other object of the kernel.\<close>

datatype chan = ChProc nat | ChAddr u32

record pcb =
  pr_sz :: u32
  pr_pgdir :: u32
  pr_kstack :: u32
  pr_state :: procstate
  pr_pid :: int
  pr_parent :: "nat option"
  pr_tf :: u32
  pr_context :: u32
  pr_chan :: "chan option"
  pr_killed :: bool
  pr_ofile :: "nat \<Rightarrow> nat option"
  pr_cwd :: "nat option"
  pr_name :: "u8 list"

text \<open>
  \<open>k_data\<close> is the linker symbol \<open>data\<close>, \<open>a_forkret\<close> and \<open>a_trapret\<close> are the addresses of two functions, \<open>initcode\<close> is the first program,
  \<open>ticks\<close> the clock of \<open>kernel/trap.c\<close> and \<open>a_ticks\<close> its address.
\<close>

record psys = kstate +
  pt :: "nat \<Rightarrow> pcb"
  cpu_proc :: "nat \<Rightarrow> nat option"
  initproc :: "nat option"
  nextpid :: int
  ticks :: u32
  a_ticks :: u32
  k_data :: u32
  a_forkret :: u32
  a_trapret :: u32
  initcode :: "u8 list"

definition the_pcb :: "nat \<Rightarrow> ('a psys_scheme, pcb) km" where
  "the_pcb p = gets (\<lambda>s. pt s p)"

definition upd_pcb :: "nat \<Rightarrow> (pcb \<Rightarrow> pcb) \<Rightarrow> ('a psys_scheme, unit) km" where
  "upd_pcb p f = modify (\<lambda>s. s\<lparr>pt := (pt s)(p := f (pt s p))\<rparr>)"

text \<open>The process of the processor; a null pointer cannot be followed.\<close>

definition on_proc :: "nat \<Rightarrow> (nat \<Rightarrow> ('a psys_scheme, 'b) km) \<Rightarrow> ('a psys_scheme, 'b) km" where
  "on_proc c k = bnd (gets (\<lambda>s. cpu_proc s c)) (\<lambda>r. case r of None \<Rightarrow> fault | Some me \<Rightarrow> k me)"

text \<open>Offsets and size of \<open>struct trapframe\<close>, and of \<open>struct context\<close>.\<close>

abbreviation tf_eax :: u32 where "tf_eax \<equiv> 28"
abbreviation tf_es :: u32 where "tf_es \<equiv> 40"
abbreviation tf_ds :: u32 where "tf_ds \<equiv> 44"
abbreviation tf_eip :: u32 where "tf_eip \<equiv> 56"
abbreviation tf_cs :: u32 where "tf_cs \<equiv> 60"
abbreviation tf_eflags :: u32 where "tf_eflags \<equiv> 64"
abbreviation tf_esp :: u32 where "tf_esp \<equiv> 68"
abbreviation tf_ss :: u32 where "tf_ss \<equiv> 72"
abbreviation tf_size :: nat where "tf_size \<equiv> 76"
abbreviation context_size :: nat where "context_size \<equiv> 20"
abbreviation ctx_eip :: u32 where "ctx_eip \<equiv> 16"

definition put16 :: "u32 \<Rightarrow> u16 \<Rightarrow> (kmem, unit) km" where
  "put16 a v = put_bytes a (le16 v)"

text \<open>\<open>safestrcpy\<close> into the array \<open>name\<close> of 16 bytes.\<close>

definition set_name :: "u8 list \<Rightarrow> u8 list \<Rightarrow> u8 list" where
  "set_name old t = (let r = safestrcpy t 16 in r @ drop (length r) old)"

section \<open>Making processes\<close>

text \<open>The kernel stack of a new process: a trap frame, the address of \<open>trapret\<close>, and a context that starts at \<open>forkret\<close>.\<close>

definition new_stack :: "nat \<Rightarrow> ('a psys_scheme, nat option) km" where
  "new_stack p =
     bnd (with_mem kalloc) (\<lambda>kstack.
     seq (upd_pcb p (\<lambda>x. x\<lparr>pr_kstack := kstack\<rparr>))
     (if kstack = 0 then seq (upd_pcb p (\<lambda>x. x\<lparr>pr_state := UNUSED\<rparr>)) (ret None)
      else
        let tf = kstack + 4096 - of_nat tf_size; context = tf - 4 - of_nat context_size in
        seq (upd_pcb p (\<lambda>x. x\<lparr>pr_tf := tf\<rparr>))
        (bnd (gets (\<lambda>s. (a_trapret s, a_forkret s))) (\<lambda>(trapret, forkret).
        seq (with_mem (put32 (tf - 4) trapret))
        (seq (upd_pcb p (\<lambda>x. x\<lparr>pr_context := context\<rparr>))
        (seq (with_mem (put_bytes context (replicate context_size 0)))
        (seq (with_mem (put32 (context + ctx_eip) forkret))
        (ret (Some p)))))))))"

text \<open>The pid is taken even if there is no page for the stack. The counter of pids may overflow, which C leaves undefined.\<close>

definition allocproc :: "('a psys_scheme, nat option) km" where
  "allocproc =
     bnd (gets (\<lambda>s. find (\<lambda>p. pr_state (pt s p) = UNUSED) [0..<NPROC])) (\<lambda>r. case r of
       None \<Rightarrow> ret None
     | Some p \<Rightarrow>
         seq (upd_pcb p (\<lambda>x. x\<lparr>pr_state := EMBRYO\<rparr>))
         (bnd (gets nextpid) (\<lambda>pid.
         if pid \<ge> 2147483647 then fault
         else
           seq (modify (\<lambda>s. s\<lparr>nextpid := pid + 1\<rparr>))
           (seq (upd_pcb p (\<lambda>x. x\<lparr>pr_pid := pid\<rparr>))
           (new_stack p)))))"

definition userinit :: "('a psys_scheme, unit) km" where
  "userinit =
     bnd allocproc (\<lambda>r.
     seq (modify (\<lambda>s. s\<lparr>initproc := r\<rparr>))
     (case r of
       None \<Rightarrow> fault
     | Some p \<Rightarrow>
         bnd (gets (\<lambda>s. (k_data s, initcode s))) (\<lambda>(kdata, init).
         bnd (with_mem (setupkvm kdata)) (\<lambda>pgdir.
         seq (upd_pcb p (\<lambda>x. x\<lparr>pr_pgdir := pgdir\<rparr>))
         (if pgdir = 0 then panic ''userinit: out of memory?''
          else
            seq (with_mem (inituvm pgdir init))
            (seq (upd_pcb p (\<lambda>x. x\<lparr>pr_sz := PGSIZE\<rparr>))
            (bnd (the_pcb p) (\<lambda>x. let tf = pr_tf x in
            seq (with_mem (put_bytes tf (replicate tf_size 0)))
            (seq (with_mem (put16 (tf + tf_cs) 0x23))
            (seq (with_mem (put16 (tf + tf_ds) 0x2b))
            (seq (with_mem (put16 (tf + tf_es) 0x2b))
            (seq (with_mem (put16 (tf + tf_ss) 0x2b))
            (seq (with_mem (put32 (tf + tf_eflags) 0x200))
            (seq (with_mem (put32 (tf + tf_esp) PGSIZE))
            (seq (with_mem (put32 (tf + tf_eip) 0))
            (seq (upd_pcb p (\<lambda>x. x\<lparr>pr_name := set_name (pr_name x) [105, 110, 105, 116, 99, 111, 100, 101]\<rparr>))
            (bnd (namei 0 [47]) (\<lambda>cwd.
            seq (upd_pcb p (\<lambda>x. x\<lparr>pr_cwd := cwd\<rparr>))
            (upd_pcb p (\<lambda>x. x\<lparr>pr_state := RUNNABLE\<rparr>))))))))))))))))))))"

text \<open>The test of \<open>switchuvm\<close>; the rest loads the task state and the page directory into the processor.\<close>

definition switchuvm :: "nat \<Rightarrow> ('a psys_scheme, unit) km" where
  "switchuvm p = bnd (the_pcb p) (\<lambda>x. if pr_pgdir x = 0 then panic ''switchuvm: no pgdir'' else ret ())"

definition growproc :: "nat \<Rightarrow> int \<Rightarrow> ('a psys_scheme, int) km" where
  "growproc c n =
     on_proc c (\<lambda>me.
     bnd (the_pcb me) (\<lambda>x.
     bnd (gets k_end) (\<lambda>kend.
     bnd (if n > 0 then with_mem (allocuvm kend (pr_pgdir x) (pr_sz x) (pr_sz x + of_int n))
          else if n < 0 then with_mem (deallocuvm kend (pr_pgdir x) (pr_sz x) (pr_sz x + of_int n))
          else ret (pr_sz x)) (\<lambda>sz.
     if n \<noteq> 0 \<and> sz = 0 then ret (-1)
     else
       seq (upd_pcb me (\<lambda>x. x\<lparr>pr_sz := sz\<rparr>))
       (seq (switchuvm me)
       (ret 0))))))"

text \<open>The copies of the open files, from descriptor \<open>i\<close> on.\<close>

definition dup_file :: "nat \<Rightarrow> nat \<Rightarrow> nat \<Rightarrow> ('a psys_scheme, unit) km" where
  "dup_file me np i =
     bnd (the_pcb me) (\<lambda>x. case pr_ofile x i of
       None \<Rightarrow> ret ()
     | Some f \<Rightarrow> bnd (filedup f) (\<lambda>g. upd_pcb np (\<lambda>y. y\<lparr>pr_ofile := (pr_ofile y)(i := Some g)\<rparr>)))"

text \<open>The child \<open>np\<close> of \<open>me\<close>, from the copy of the memory on.\<close>

definition fork_child :: "nat \<Rightarrow> nat \<Rightarrow> ('a psys_scheme, int) km" where
  "fork_child np me =
     bnd (the_pcb me) (\<lambda>x.
     bnd (gets (\<lambda>s. (k_end s, k_data s))) (\<lambda>(kend, kdata).
     bnd (with_mem (copyuvm kend kdata (pr_pgdir x) (pr_sz x))) (\<lambda>pgdir.
     seq (upd_pcb np (\<lambda>y. y\<lparr>pr_pgdir := pgdir\<rparr>))
     (bnd (the_pcb np) (\<lambda>y.
     if pgdir = 0 then
       seq (with_mem (kfree kend (pr_kstack y)))
       (seq (upd_pcb np (\<lambda>y. y\<lparr>pr_kstack := 0\<rparr>))
       (seq (upd_pcb np (\<lambda>y. y\<lparr>pr_state := UNUSED\<rparr>))
       (ret (-1))))
     else
       seq (upd_pcb np (\<lambda>y. y\<lparr>pr_sz := pr_sz x\<rparr>))
       (seq (upd_pcb np (\<lambda>y. y\<lparr>pr_parent := Some me\<rparr>))
       (bnd (with_mem (gets (\<lambda>m. rd (mem m) (unat (pr_tf x)) tf_size))) (\<lambda>frame.
       seq (with_mem (put_bytes (pr_tf y) frame))
       (seq (with_mem (put32 (pr_tf y + tf_eax) 0))
       (seq (for_each (dup_file me np) [0..<NOFILE])
       (case pr_cwd x of
         None \<Rightarrow> fault
       | Some dir \<Rightarrow>
           bnd (idup dir) (\<lambda>d.
           seq (upd_pcb np (\<lambda>y. y\<lparr>pr_cwd := Some d\<rparr>))
           (seq (upd_pcb np (\<lambda>y. y\<lparr>pr_state := RUNNABLE\<rparr>))
           (seq (upd_pcb np (\<lambda>y. y\<lparr>pr_name := set_name (pr_name y) (pr_name x)\<rparr>))
           (ret (pr_pid y))))))))))))))))"

definition fork :: "nat \<Rightarrow> ('a psys_scheme, int) km" where
  "fork c =
     bnd allocproc (\<lambda>r. case r of
       None \<Rightarrow> ret (-1)
     | Some np \<Rightarrow> on_proc c (fork_child np))"

section \<open>Giving up the processor\<close>

definition sched :: "nat \<Rightarrow> ('a psys_scheme, unit) km" where
  "sched c =
     on_proc c (\<lambda>me.
     bnd (the_pcb me) (\<lambda>x.
     if pr_state x = RUNNING then panic ''sched running''
     else modify (\<lambda>s. s\<lparr>cpu_proc := (cpu_proc s)(c := None)\<rparr>)))"

definition yield :: "nat \<Rightarrow> ('a psys_scheme, unit) km" where
  "yield c = on_proc c (\<lambda>me. seq (upd_pcb me (\<lambda>x. x\<lparr>pr_state := RUNNABLE\<rparr>)) (sched c))"

definition sleep :: "nat \<Rightarrow> chan option \<Rightarrow> ('a psys_scheme, unit) km" where
  "sleep c chan =
     bnd (gets (\<lambda>s. cpu_proc s c)) (\<lambda>r. case r of
       None \<Rightarrow> panic ''sleep''
     | Some me \<Rightarrow>
         seq (upd_pcb me (\<lambda>x. x\<lparr>pr_chan := chan\<rparr>))
         (seq (upd_pcb me (\<lambda>x. x\<lparr>pr_state := SLEEPING\<rparr>))
         (sched c)))"

text \<open>What follows \<open>sched\<close> in \<open>sleep\<close>. A process that comes back to \<open>yield\<close> or \<open>forkret\<close> does nothing, and has no channel.\<close>

definition resume :: "nat \<Rightarrow> ('a psys_scheme, unit) km" where
  "resume c = on_proc c (\<lambda>me. upd_pcb me (\<lambda>x. x\<lparr>pr_chan := None\<rparr>))"

text \<open>
  The scheduler from entry \<open>k\<close> of the table on: it hands the processor to the first process that can run and gives the entry at which it goes on
  when the processor comes back, or \<open>None\<close> at the end of the table, where it starts again from entry 0.
\<close>

definition scheduler :: "nat \<Rightarrow> nat \<Rightarrow> ('a psys_scheme, nat option) km" where
  "scheduler c k =
     bnd (gets (\<lambda>s. find (\<lambda>p. pr_state (pt s p) = RUNNABLE) [k..<NPROC])) (\<lambda>r. case r of
       None \<Rightarrow> ret None
     | Some p \<Rightarrow>
         seq (modify (\<lambda>s. s\<lparr>cpu_proc := (cpu_proc s)(c := Some p)\<rparr>))
         (seq (switchuvm p)
         (seq (upd_pcb p (\<lambda>x. x\<lparr>pr_state := RUNNING\<rparr>))
         (ret (Some (Suc p))))))"

section \<open>Waking and killing\<close>

definition wakeup1 :: "chan option \<Rightarrow> ('a psys_scheme, unit) km" where
  "wakeup1 chan =
     modify (\<lambda>s. s\<lparr>pt := \<lambda>p. let x = pt s p in
       if p < NPROC \<and> pr_state x = SLEEPING \<and> pr_chan x = chan then x\<lparr>pr_state := RUNNABLE\<rparr> else x\<rparr>)"

definition wakeup :: "chan option \<Rightarrow> ('a psys_scheme, unit) km" where
  "wakeup chan = wakeup1 chan"

definition kill :: "int \<Rightarrow> ('a psys_scheme, int) km" where
  "kill pid =
     bnd (gets (\<lambda>s. find (\<lambda>p. pr_pid (pt s p) = pid) [0..<NPROC])) (\<lambda>r. case r of
       None \<Rightarrow> ret (-1)
     | Some p \<Rightarrow>
         seq (upd_pcb p (\<lambda>x. x\<lparr>pr_killed := True\<rparr>))
         (seq (upd_pcb p (\<lambda>x. if pr_state x = SLEEPING then x\<lparr>pr_state := RUNNABLE\<rparr> else x))
         (ret 0)))"

section \<open>Exit and wait\<close>

definition close_fd :: "nat \<Rightarrow> nat \<Rightarrow> ('a psys_scheme, unit) km" where
  "close_fd me fd =
     bnd (the_pcb me) (\<lambda>x. case pr_ofile x fd of
       None \<Rightarrow> ret ()
     | Some f \<Rightarrow> seq (fileclose f) (upd_pcb me (\<lambda>x. x\<lparr>pr_ofile := (pr_ofile x)(fd := None)\<rparr>)))"

text \<open>An abandoned child goes to \<open>init\<close>.\<close>

definition adopt :: "nat \<Rightarrow> nat \<Rightarrow> ('a psys_scheme, unit) km" where
  "adopt me p =
     bnd (the_pcb p) (\<lambda>x.
     if pr_parent x = Some me then
       bnd (gets initproc) (\<lambda>i.
       seq (upd_pcb p (\<lambda>x. x\<lparr>pr_parent := i\<rparr>))
       (if pr_state x = ZOMBIE then wakeup1 (map_option ChProc i) else ret ()))
     else ret ())"

definition exit :: "nat \<Rightarrow> ('a psys_scheme, unit) km" where
  "exit c =
     on_proc c (\<lambda>me.
     bnd (gets initproc) (\<lambda>i.
     if i = Some me then panic ''init exiting''
     else
       seq (for_each (close_fd me) [0..<NOFILE])
       (bnd (the_pcb me) (\<lambda>x. case pr_cwd x of
         None \<Rightarrow> fault
       | Some dir \<Rightarrow>
           seq (iput dir)
           (seq (upd_pcb me (\<lambda>x. x\<lparr>pr_cwd := None\<rparr>))
           (seq (wakeup1 (map_option ChProc (pr_parent x)))
           (seq (for_each (adopt me) [0..<NPROC])
           (seq (upd_pcb me (\<lambda>x. x\<lparr>pr_state := ZOMBIE\<rparr>))
           (sched c)))))))))"

definition reap :: "nat \<Rightarrow> ('a psys_scheme, int) km" where
  "reap p =
     bnd (the_pcb p) (\<lambda>x.
     bnd (gets k_end) (\<lambda>kend.
     seq (with_mem (kfree kend (pr_kstack x)))
     (seq (upd_pcb p (\<lambda>x. x\<lparr>pr_kstack := 0\<rparr>))
     (seq (with_mem (freevm kend (pr_pgdir x)))
     (seq (upd_pcb p (\<lambda>x. x\<lparr>pr_state := UNUSED, pr_pid := 0, pr_parent := None, pr_name := (pr_name x)[0 := 0], pr_killed := False\<rparr>))
     (ret (pr_pid x)))))))"

text \<open>The pass over the table: the pid of a child that was a zombie, or whether there are children.\<close>

fun wait_scan :: "nat \<Rightarrow> bool \<Rightarrow> nat list \<Rightarrow> ('a psys_scheme, int + bool) km" where
  "wait_scan me havekids [] = ret (Inr havekids)"
| "wait_scan me havekids (p # ps) =
     bnd (the_pcb p) (\<lambda>x.
     if pr_parent x \<noteq> Some me then wait_scan me havekids ps
     else if pr_state x = ZOMBIE then bnd (reap p) (\<lambda>pid. ret (Inl pid))
     else wait_scan me True ps)"

text \<open>One round of the loop of \<open>wait\<close>: its result, or \<open>None\<close> after going to sleep; when it wakes up, the process starts the next round.\<close>

definition wait :: "nat \<Rightarrow> ('a psys_scheme, int option) km" where
  "wait c =
     on_proc c (\<lambda>me.
     bnd (wait_scan me False [0..<NPROC]) (\<lambda>r. case r of
       Inl pid \<Rightarrow> ret (Some pid)
     | Inr havekids \<Rightarrow>
         bnd (the_pcb me) (\<lambda>x.
         if \<not> havekids \<or> pr_killed x then ret (Some (-1))
         else seq (sleep c (Some (ChProc me))) (ret None))))"

section \<open>System calls\<close>

text \<open>
  The handlers of \<open>kernel/sysproc.c\<close>; arguments are fetched as for the calls of theory \<open>Sysfile\<close>. \<open>sys_wait\<close> and \<open>sys_sleep\<close> are rounds of a loop like \<open>wait\<close>;
  the comparison of \<open>sys_sleep\<close> is one of unsigned numbers, so a negative argument is a long time.
\<close>

definition sys_fork :: "nat \<Rightarrow> ('a psys_scheme, int) km" where
  "sys_fork c = fork c"

definition sys_exit :: "nat \<Rightarrow> ('a psys_scheme, unit) km" where
  "sys_exit c = exit c"

definition sys_wait :: "nat \<Rightarrow> ('a psys_scheme, int option) km" where
  "sys_wait c = wait c"

definition sys_kill :: "('a psys_scheme, int) km" where
  "sys_kill = need (\<lambda>p. argint p 0) (\<lambda>pid. kill (sint pid))"

definition sys_getpid :: "nat \<Rightarrow> ('a psys_scheme, int) km" where
  "sys_getpid c = on_proc c (\<lambda>me. bnd (the_pcb me) (\<lambda>x. ret (pr_pid x)))"

definition sys_sbrk :: "nat \<Rightarrow> ('a psys_scheme, int) km" where
  "sys_sbrk c =
     need (\<lambda>p. argint p 0) (\<lambda>n.
     on_proc c (\<lambda>me.
     bnd (the_pcb me) (\<lambda>x.
     bnd (growproc c (sint n)) (\<lambda>r.
     if r < 0 then ret (-1) else ret (sint (pr_sz x))))))"

definition sys_sleep_round :: "nat \<Rightarrow> u32 \<Rightarrow> u32 \<Rightarrow> ('a psys_scheme, int option) km" where
  "sys_sleep_round c ticks0 n =
     bnd (gets (\<lambda>s. (ticks s, a_ticks s))) (\<lambda>(now, chan).
     if now - ticks0 < n then
       on_proc c (\<lambda>me.
       bnd (the_pcb me) (\<lambda>x.
       if pr_killed x then ret (Some (-1))
       else seq (sleep c (Some (ChAddr chan))) (ret None)))
     else ret (Some 0))"

definition sys_sleep :: "nat \<Rightarrow> ('a psys_scheme, int option) km" where
  "sys_sleep c =
     bnd (gets (\<lambda>s. argint (k_proc s) 0)) (\<lambda>r. case r of
       None \<Rightarrow> ret (Some (-1))
     | Some n \<Rightarrow> bnd (gets ticks) (\<lambda>ticks0. sys_sleep_round c ticks0 n))"

definition sys_uptime :: "('a psys_scheme, int) km" where
  "sys_uptime = bnd (gets ticks) (\<lambda>xticks. ret (sint xticks))"

section \<open>Steps of the machine\<close>

text \<open>
  What the processors and the processes do, one call at a time and in any order: a processor without a process runs its scheduler, a process
  makes one of the calls above or is killed for a trap, anyone wakes the sleepers of a channel, and everything else leaves states, pids, parents, channels and
  the killed flags alone. A process sleeps on its own entry only in \<open>wait\<close>.
\<close>

definition same_procs :: "'a psys_scheme \<Rightarrow> 'a psys_scheme \<Rightarrow> bool" where
  "same_procs s s' \<longleftrightarrow> cpu_proc s' = cpu_proc s \<and> initproc s' = initproc s \<and> nextpid s' = nextpid s \<and>
     (\<forall>p. pr_state (pt s' p) = pr_state (pt s p) \<and> pr_pid (pt s' p) = pr_pid (pt s p) \<and> pr_parent (pt s' p) = pr_parent (pt s p) \<and>
       pr_chan (pt s' p) = pr_chan (pt s p) \<and> pr_killed (pt s' p) = pr_killed (pt s p))"

inductive pstep :: "'a psys_scheme \<Rightarrow> 'a psys_scheme \<Rightarrow> bool" where
  step_run: "cpu_proc s c = None \<Longrightarrow> scheduler c k s = Ret (Some n, t) \<Longrightarrow> resume c t = Ret ((), s') \<Longrightarrow> pstep s s'"
| step_fork: "cpu_proc s c = Some me \<Longrightarrow> fork c s = Ret (r, s') \<Longrightarrow> pstep s s'"
| step_exit: "cpu_proc s c = Some me \<Longrightarrow> exit c s = Ret ((), s') \<Longrightarrow> pstep s s'"
| step_wait: "cpu_proc s c = Some me \<Longrightarrow> wait c s = Ret (w, s') \<Longrightarrow> pstep s s'"
| step_sleep: "cpu_proc s c = Some me \<Longrightarrow> sleep c (Some (ChAddr a)) s = Ret ((), s') \<Longrightarrow> pstep s s'"
| step_yield: "cpu_proc s c = Some me \<Longrightarrow> yield c s = Ret ((), s') \<Longrightarrow> pstep s s'"
| step_kill: "kill n s = Ret (r, s') \<Longrightarrow> pstep s s'"
| step_grow: "cpu_proc s c = Some me \<Longrightarrow> growproc c n s = Ret (r, s') \<Longrightarrow> pstep s s'"
| step_wakeup: "wakeup chan s = Ret ((), s') \<Longrightarrow> pstep s s'"
| step_trap: "cpu_proc s c = Some me \<Longrightarrow> s' = s\<lparr>pt := (pt s)(me := (pt s me)\<lparr>pr_killed := True\<rparr>)\<rparr> \<Longrightarrow> pstep s s'"
| step_other: "same_procs s s' \<Longrightarrow> pstep s s'"

end
