(* ===== verification/Proc_Inv.thy ===== *)
theory Proc_Inv
  imports Proc Frame
begin

text \<open>
  The process table as an abstract machine. \<open>tab s\<close> is what scheduling, \<open>fork\<close>, \<open>exit\<close> and \<open>wait\<close> are about; the functions of theory \<open>Proc\<close> change
  it as the operations of this theory do (\<open>tab\<close> of the state after is the operation applied to \<open>tab\<close> of the state before), and each operation
  keeps the invariant \<open>tab_ok\<close>.
\<close>

section \<open>The table\<close>

record ptab =
  st :: "nat \<Rightarrow> procstate"
  pid :: "nat \<Rightarrow> int"
  par :: "nat \<Rightarrow> nat option"
  ch :: "nat \<Rightarrow> chan option"
  kd :: "nat \<Rightarrow> bool"
  on :: "nat \<Rightarrow> nat option"
  ini :: "nat option"
  nxt :: int

definition tab :: "'a psys_scheme \<Rightarrow> ptab" where
  "tab s = \<lparr>st = \<lambda>p. pr_state (pt s p), pid = \<lambda>p. pr_pid (pt s p), par = \<lambda>p. pr_parent (pt s p), ch = \<lambda>p. pr_chan (pt s p), kd = \<lambda>p. pr_killed (pt s p),
     on = cpu_proc s, ini = initproc s, nxt = nextpid s\<rparr>"

lemma tab_same: "same_procs s s' \<Longrightarrow> tab s' = tab s"
  by (simp add: same_procs_def tab_def fun_eq_iff)

lemma tab_pcb: "tab (s\<lparr>pt := (pt s)(p := x)\<rparr>) =
    (tab s)\<lparr>st := (st (tab s))(p := pr_state x), pid := (pid (tab s))(p := pr_pid x), par := (par (tab s))(p := pr_parent x),
      ch := (ch (tab s))(p := pr_chan x), kd := (kd (tab s))(p := pr_killed x)\<rparr>"
  by (auto simp: tab_def fun_eq_iff)

lemma tab_sel [simp]: "st (tab s) p = pr_state (pt s p)" "pid (tab s) p = pr_pid (pt s p)" "par (tab s) p = pr_parent (pt s p)"
  "ch (tab s) p = pr_chan (pt s p)" "kd (tab s) p = pr_killed (pt s p)" "on (tab s) = cpu_proc s" "ini (tab s) = initproc s" "nxt (tab s) = nextpid s"
  by (simp_all add: tab_def)

section \<open>Invariant\<close>

definition active :: "procstate \<Rightarrow> bool" where
  "active x \<longleftrightarrow> x = SLEEPING \<or> x = RUNNABLE \<or> x = RUNNING"

text \<open>A process runs on one processor at most, and a processor's process is running.\<close>

definition cpus_ok :: "ptab \<Rightarrow> bool" where
  "cpus_ok T \<longleftrightarrow> (\<forall>c p. on T c = Some p \<longrightarrow> p < NPROC \<and> st T p = RUNNING) \<and> (\<forall>c d p. on T c = Some p \<longrightarrow> on T d = Some p \<longrightarrow> c = d) \<and>
     (\<forall>p<NPROC. st T p = RUNNING \<longrightarrow> (\<exists>c. on T c = Some p))"

definition pids_ok :: "ptab \<Rightarrow> bool" where
  "pids_ok T \<longleftrightarrow> 0 < nxt T \<and> (\<forall>p<NPROC. pid T p < nxt T) \<and> (\<forall>p<NPROC. st T p \<noteq> UNUSED \<longrightarrow> 0 < pid T p) \<and>
     (\<forall>p<NPROC. \<forall>q<NPROC. st T p \<noteq> UNUSED \<longrightarrow> st T q \<noteq> UNUSED \<longrightarrow> pid T p = pid T q \<longrightarrow> p = q)"

text \<open>A parent is a process that can still wait, and older. Only \<open>init\<close> has no parent.\<close>

definition parents_ok :: "ptab \<Rightarrow> bool" where
  "parents_ok T \<longleftrightarrow> (\<forall>p<NPROC. \<forall>q. par T p = Some q \<longrightarrow> st T p \<noteq> UNUSED \<and> q < NPROC \<and> active (st T q) \<and> pid T q < pid T p) \<and>
     (\<forall>p<NPROC. st T p \<noteq> UNUSED \<longrightarrow> st T p \<noteq> EMBRYO \<longrightarrow> ini T \<noteq> Some p \<longrightarrow> par T p \<noteq> None) \<and>
     (\<exists>i<NPROC. ini T = Some i \<and> active (st T i) \<and> (\<forall>p<NPROC. st T p \<noteq> UNUSED \<longrightarrow> p \<noteq> i \<longrightarrow> pid T i < pid T p))"

definition chans_ok :: "ptab \<Rightarrow> bool" where
  "chans_ok T \<longleftrightarrow> (\<forall>p<NPROC. (st T p = SLEEPING \<longrightarrow> ch T p \<noteq> None) \<and> (st T p \<noteq> SLEEPING \<longrightarrow> st T p \<noteq> RUNNABLE \<longrightarrow> ch T p = None) \<and>
     (\<forall>q. ch T p = Some (ChProc q) \<longrightarrow> q = p))"

text \<open>Who sleeps in \<open>wait\<close> has not been killed and has children, none of which has exited.\<close>

definition waits_ok :: "ptab \<Rightarrow> bool" where
  "waits_ok T \<longleftrightarrow> (\<forall>q<NPROC. st T q = SLEEPING \<longrightarrow> ch T q = Some (ChProc q) \<longrightarrow>
     \<not> kd T q \<and> (\<exists>p<NPROC. par T p = Some q) \<and> (\<forall>p<NPROC. par T p = Some q \<longrightarrow> st T p \<noteq> ZOMBIE))"

definition tab_ok :: "ptab \<Rightarrow> bool" where
  "tab_ok T \<longleftrightarrow> cpus_ok T \<and> pids_ok T \<and> parents_ok T \<and> chans_ok T \<and> waits_ok T"

lemma tab_okD: "tab_ok T \<Longrightarrow> cpus_ok T" "tab_ok T \<Longrightarrow> pids_ok T" "tab_ok T \<Longrightarrow> parents_ok T" "tab_ok T \<Longrightarrow> chans_ok T" "tab_ok T \<Longrightarrow> waits_ok T"
  by (simp_all add: tab_ok_def)

text \<open>The clauses of the invariant as rules.\<close>

lemma on_run: "tab_ok T \<Longrightarrow> on T c = Some p \<Longrightarrow> p < NPROC \<and> st T p = RUNNING"
  by (simp add: tab_ok_def cpus_ok_def)

lemma on_one: "tab_ok T \<Longrightarrow> on T c = Some p \<Longrightarrow> on T d = Some p \<Longrightarrow> c = d"
  by (auto simp: tab_ok_def cpus_ok_def)

lemma run_on: "tab_ok T \<Longrightarrow> p < NPROC \<Longrightarrow> st T p = RUNNING \<Longrightarrow> \<exists>c. on T c = Some p"
  by (simp add: tab_ok_def cpus_ok_def)

lemma pid_nxt: "tab_ok T \<Longrightarrow> p < NPROC \<Longrightarrow> pid T p < nxt T"
  by (simp add: tab_ok_def pids_ok_def)

lemma nxt_pos: "tab_ok T \<Longrightarrow> 0 < nxt T"
  by (simp add: tab_ok_def pids_ok_def)

lemma pid_pos: "tab_ok T \<Longrightarrow> p < NPROC \<Longrightarrow> st T p \<noteq> UNUSED \<Longrightarrow> 0 < pid T p"
  by (simp add: tab_ok_def pids_ok_def)

lemma pid_one: "tab_ok T \<Longrightarrow> p < NPROC \<Longrightarrow> q < NPROC \<Longrightarrow> st T p \<noteq> UNUSED \<Longrightarrow> st T q \<noteq> UNUSED \<Longrightarrow> pid T p = pid T q \<Longrightarrow> p = q"
  by (simp add: tab_ok_def pids_ok_def)

lemma par_ok: "tab_ok T \<Longrightarrow> p < NPROC \<Longrightarrow> par T p = Some q \<Longrightarrow> st T p \<noteq> UNUSED \<and> q < NPROC \<and> active (st T q) \<and> pid T q < pid T p"
  by (simp add: tab_ok_def parents_ok_def)

lemma par_some: "tab_ok T \<Longrightarrow> p < NPROC \<Longrightarrow> st T p \<noteq> UNUSED \<Longrightarrow> st T p \<noteq> EMBRYO \<Longrightarrow> ini T \<noteq> Some p \<Longrightarrow> \<exists>q. par T p = Some q"
  by (auto simp: tab_ok_def parents_ok_def)

lemma init_ok: "tab_ok T \<Longrightarrow> ini T = Some i \<Longrightarrow> i < NPROC \<and> active (st T i)"
  by (auto simp: tab_ok_def parents_ok_def)

lemma init_old: "tab_ok T \<Longrightarrow> ini T = Some i \<Longrightarrow> p < NPROC \<Longrightarrow> st T p \<noteq> UNUSED \<Longrightarrow> p \<noteq> i \<Longrightarrow> pid T i < pid T p"
  by (auto simp: tab_ok_def parents_ok_def)

lemma init_some: "tab_ok T \<Longrightarrow> \<exists>i. ini T = Some i"
  by (auto simp: tab_ok_def parents_ok_def)

lemma sleep_ch: "tab_ok T \<Longrightarrow> p < NPROC \<Longrightarrow> st T p = SLEEPING \<Longrightarrow> ch T p \<noteq> None"
  by (simp add: tab_ok_def chans_ok_def)

lemma awake_ch: "tab_ok T \<Longrightarrow> p < NPROC \<Longrightarrow> st T p \<noteq> SLEEPING \<Longrightarrow> st T p \<noteq> RUNNABLE \<Longrightarrow> ch T p = None"
  by (simp add: tab_ok_def chans_ok_def)

lemma own_ch: "tab_ok T \<Longrightarrow> p < NPROC \<Longrightarrow> ch T p = Some (ChProc q) \<Longrightarrow> q = p"
  by (simp add: tab_ok_def chans_ok_def)

lemma waits_kd: "tab_ok T \<Longrightarrow> q < NPROC \<Longrightarrow> st T q = SLEEPING \<Longrightarrow> ch T q = Some (ChProc q) \<Longrightarrow> \<not> kd T q"
  by (simp add: tab_ok_def waits_ok_def)

lemma waits_kid: "tab_ok T \<Longrightarrow> q < NPROC \<Longrightarrow> st T q = SLEEPING \<Longrightarrow> ch T q = Some (ChProc q) \<Longrightarrow> \<exists>p<NPROC. par T p = Some q"
  by (simp add: tab_ok_def waits_ok_def)

lemma waits_zombie: "tab_ok T \<Longrightarrow> q < NPROC \<Longrightarrow> st T q = SLEEPING \<Longrightarrow> ch T q = Some (ChProc q) \<Longrightarrow> p < NPROC \<Longrightarrow> par T p = Some q \<Longrightarrow> st T p \<noteq> ZOMBIE"
  by (simp add: tab_ok_def waits_ok_def)

lemma tab_okI:
  assumes "\<And>c p. on T c = Some p \<Longrightarrow> p < NPROC \<and> st T p = RUNNING" "\<And>c d p. on T c = Some p \<Longrightarrow> on T d = Some p \<Longrightarrow> c = d"
    "\<And>p. p < NPROC \<Longrightarrow> st T p = RUNNING \<Longrightarrow> \<exists>c. on T c = Some p"
    "0 < nxt T" "\<And>p. p < NPROC \<Longrightarrow> pid T p < nxt T" "\<And>p. p < NPROC \<Longrightarrow> st T p \<noteq> UNUSED \<Longrightarrow> 0 < pid T p"
    "\<And>p q. p < NPROC \<Longrightarrow> q < NPROC \<Longrightarrow> st T p \<noteq> UNUSED \<Longrightarrow> st T q \<noteq> UNUSED \<Longrightarrow> pid T p = pid T q \<Longrightarrow> p = q"
    "\<And>p q. p < NPROC \<Longrightarrow> par T p = Some q \<Longrightarrow> st T p \<noteq> UNUSED \<and> q < NPROC \<and> active (st T q) \<and> pid T q < pid T p"
    "\<And>p. p < NPROC \<Longrightarrow> st T p \<noteq> UNUSED \<Longrightarrow> st T p \<noteq> EMBRYO \<Longrightarrow> ini T \<noteq> Some p \<Longrightarrow> \<exists>q. par T p = Some q"
    "\<exists>i. ini T = Some i" "\<And>i. ini T = Some i \<Longrightarrow> i < NPROC \<and> active (st T i)"
    "\<And>i p. ini T = Some i \<Longrightarrow> p < NPROC \<Longrightarrow> st T p \<noteq> UNUSED \<Longrightarrow> p \<noteq> i \<Longrightarrow> pid T i < pid T p"
    "\<And>p. p < NPROC \<Longrightarrow> st T p = SLEEPING \<Longrightarrow> ch T p \<noteq> None" "\<And>p. p < NPROC \<Longrightarrow> st T p \<noteq> SLEEPING \<Longrightarrow> st T p \<noteq> RUNNABLE \<Longrightarrow> ch T p = None"
    "\<And>p q. p < NPROC \<Longrightarrow> ch T p = Some (ChProc q) \<Longrightarrow> q = p"
    "\<And>q. q < NPROC \<Longrightarrow> st T q = SLEEPING \<Longrightarrow> ch T q = Some (ChProc q) \<Longrightarrow> \<not> kd T q \<and> (\<exists>p<NPROC. par T p = Some q) \<and> (\<forall>p<NPROC. par T p = Some q \<longrightarrow> st T p \<noteq> ZOMBIE)"
  shows "tab_ok T"
proof -
  have "cpus_ok T" unfolding cpus_ok_def using assms(1-3) by blast
  moreover have "pids_ok T" unfolding pids_ok_def using assms(4-7) by blast
  moreover have "parents_ok T" unfolding parents_ok_def using assms(8-12) by blast
  moreover have "chans_ok T" unfolding chans_ok_def using assms(13-15) by blast
  moreover have "waits_ok T" unfolding waits_ok_def using assms(16) by blast
  ultimately show ?thesis by (simp add: tab_ok_def)
qed

section \<open>Abstract operations\<close>

definition t_state :: "nat \<Rightarrow> procstate \<Rightarrow> ptab \<Rightarrow> ptab" where
  "t_state p x T = T\<lparr>st := (st T)(p := x)\<rparr>"

definition t_new :: "nat \<Rightarrow> ptab \<Rightarrow> ptab" where
  "t_new p T = T\<lparr>st := (st T)(p := EMBRYO), pid := (pid T)(p := nxt T), nxt := nxt T + 1\<rparr>"

definition t_child :: "nat \<Rightarrow> nat \<Rightarrow> ptab \<Rightarrow> ptab" where
  "t_child me p T = T\<lparr>st := (st T)(p := RUNNABLE), par := (par T)(p := Some me)\<rparr>"

definition t_leave :: "nat \<Rightarrow> nat \<Rightarrow> procstate \<Rightarrow> chan option \<Rightarrow> ptab \<Rightarrow> ptab" where
  "t_leave c me x chan T = T\<lparr>st := (st T)(me := x), ch := (ch T)(me := chan), on := (on T)(c := None)\<rparr>"

definition t_enter :: "nat \<Rightarrow> nat \<Rightarrow> ptab \<Rightarrow> ptab" where
  "t_enter c p T = T\<lparr>st := (st T)(p := RUNNING), ch := (ch T)(p := None), on := (on T)(c := Some p)\<rparr>"

definition t_wake :: "chan option \<Rightarrow> ptab \<Rightarrow> ptab" where
  "t_wake chan T = T\<lparr>st := \<lambda>p. if p < NPROC \<and> st T p = SLEEPING \<and> ch T p = chan then RUNNABLE else st T p\<rparr>"

definition t_kill :: "nat \<Rightarrow> ptab \<Rightarrow> ptab" where
  "t_kill p T = T\<lparr>st := (st T)(p := if st T p = SLEEPING then RUNNABLE else st T p), kd := (kd T)(p := True)\<rparr>"

definition t_reap :: "nat \<Rightarrow> ptab \<Rightarrow> ptab" where
  "t_reap p T = T\<lparr>st := (st T)(p := UNUSED), pid := (pid T)(p := 0), par := (par T)(p := None), kd := (kd T)(p := False)\<rparr>"

lemmas t_defs = t_state_def t_new_def t_child_def t_leave_def t_enter_def t_wake_def t_kill_def t_reap_def

text \<open>The free slots: \<open>p\<close> is not active and gets a new state, pid, parent and killed flag.\<close>

lemma slot_step:
  assumes ok: "tab_ok T" and p: "p < NPROC" "\<not> active (st T p)" and x: "x = UNUSED \<or> x = EMBRYO \<or> x = RUNNABLE" and m: "nxt T \<le> m" "n < m"
    and n: "x \<noteq> UNUSED \<Longrightarrow> n = nxt T \<or> st T p \<noteq> UNUSED \<and> n = pid T p"
    and q: "\<And>me. q = Some me \<Longrightarrow> x \<noteq> UNUSED \<and> me < NPROC \<and> active (st T me) \<and> pid T me < n" "x = RUNNABLE \<Longrightarrow> q \<noteq> None"
    and w: "\<And>me. par T p = Some me \<Longrightarrow> st T me \<noteq> SLEEPING"
  shows "tab_ok (T\<lparr>st := (st T)(p := x), pid := (pid T)(p := n), par := (par T)(p := q), kd := (kd T)(p := k), nxt := m\<rparr>)" (is "tab_ok ?T")
proof -
  have a: "active (st T r) \<Longrightarrow> r \<noteq> p" for r using p by auto
  have l: "x \<noteq> UNUSED \<Longrightarrow> n = nxt T \<or> n = pid T p \<and> st T p \<noteq> UNUSED" using n by blast
  have e: "r = p" if "x \<noteq> UNUSED" "r < NPROC" "st T r \<noteq> UNUSED" "n = pid T r" for r
  proof -
    have "n \<noteq> nxt T" using pid_nxt [OF ok that(2)] that(4) by simp
    then have "pid T r = pid T p" "st T p \<noteq> UNUSED" using l [OF that(1)] that(4) by auto
    then show ?thesis using pid_one [OF ok that(2) p(1) that(3)] by blast
  qed
  show ?thesis
  proof (rule tab_okI, goal_cases)
    case (1 c r) then show ?case using on_run [OF ok, of c r] a [of r] by (auto simp: active_def)
  next
    case (2 c d r) then show ?case using on_one [OF ok, of c r d] by auto
  next
    case (3 r) then show ?case using run_on [OF ok, of r] x by (auto split: if_splits)
  next
    case 4 show ?case using nxt_pos [OF ok] m by simp
  next
    case (5 r) then show ?case using pid_nxt [OF ok, of r] m by auto
  next
    case (6 r) then show ?case using pid_pos [OF ok, of r] l nxt_pos [OF ok] by (auto split: if_splits)
  next
    case (7 r r')
    then consider "r = r'" | "r = p" "r' \<noteq> p" | "r' = p" "r \<noteq> p" | "r \<noteq> p" "r' \<noteq> p" by blast
    then show ?case
    proof cases
      case 2 then show ?thesis using 7 e [of r'] by simp
    next
      case 3 then show ?thesis using 7 e [of r] by simp
    next
      case 4 then show ?thesis using 7 by (intro pid_one [OF ok]) simp_all
    qed
  next
    case (8 r r') then show ?case using par_ok [OF ok, of r r'] q a [of r'] by (auto split: if_splits)
  next
    case (9 r) then show ?case using par_some [OF ok, of r] x q(2) by (auto split: if_splits)
  next
    case 10 show ?case using init_some [OF ok] by simp
  next
    case (11 i) then show ?case using init_ok [OF ok, of i] a [of i] by auto
  next
    case (12 i r) then show ?case using init_old [OF ok, of i r] init_ok [OF ok, of i] pid_nxt [OF ok, of i] l a [of i] by (auto split: if_splits)
  next
    case (13 r) then show ?case using sleep_ch [OF ok, of r] x by (auto split: if_splits)
  next
    case (14 r) then show ?case using awake_ch [OF ok, of r] p by (auto simp: active_def split: if_splits)
  next
    case (15 r r') then show ?case using own_ch [OF ok, of r r'] by auto
  next
    case (16 r)
    then have r: "st T r = SLEEPING" "ch T r = Some (ChProc r)" "r \<noteq> p" using x by (auto split: if_splits)
    obtain r' where "r' < NPROC" "par T r' = Some r" using waits_kid [OF ok 16(1) r(1,2)] by blast
    moreover have "r' \<noteq> p" using w [of r] r(1) calculation by auto
    ultimately show ?case using waits_kd [OF ok 16(1) r(1,2)] waits_zombie [OF ok 16(1) r(1,2)] r(3) x by (auto split: if_splits)
  qed
qed

text \<open>Changes among the active states.\<close>

lemma active_step:
  assumes ok: "tab_ok T" and e: "pid U = pid T" "par U = par T" "ini U = ini T" "nxt U = nxt T"
    and st: "\<And>p. p < NPROC \<Longrightarrow> st U p \<noteq> st T p \<Longrightarrow> active (st T p) \<and> active (st U p)"
    and c: "cpus_ok U" and h: "chans_ok U"
    and w: "\<And>p. p < NPROC \<Longrightarrow> st U p = SLEEPING \<Longrightarrow> ch U p = Some (ChProc p) \<Longrightarrow> st T p = SLEEPING \<and> ch T p = ch U p \<and> (kd U p \<longrightarrow> kd T p) \<or>
      \<not> kd U p \<and> (\<exists>r<NPROC. par T r = Some p) \<and> (\<forall>r<NPROC. par T r = Some p \<longrightarrow> st T r \<noteq> ZOMBIE)"
  shows "tab_ok U"
proof -
  have u: "st U p = UNUSED \<longleftrightarrow> st T p = UNUSED" "st U p = EMBRYO \<longleftrightarrow> st T p = EMBRYO" "st U p = ZOMBIE \<longleftrightarrow> st T p = ZOMBIE" "active (st U p) \<longleftrightarrow> active (st T p)" if "p < NPROC" for p
    using st [OF that] by (cases "st U p = st T p"; force simp: active_def)+
  have "pids_ok U" using tab_okD(2) [OF ok] u(1) by (auto simp: pids_ok_def e)
  moreover have "parents_ok U" using tab_okD(3) [OF ok] unfolding parents_ok_def e by (simp add: u cong: conj_cong)
  moreover have "waits_ok U"
    unfolding waits_ok_def
  proof (intro allI impI)
    fix q assume q: "q < NPROC" "st U q = SLEEPING" "ch U q = Some (ChProc q)"
    from w [OF this] show "\<not> kd U q \<and> (\<exists>p<NPROC. par U p = Some q) \<and> (\<forall>p<NPROC. par U p = Some q \<longrightarrow> st U p \<noteq> ZOMBIE)"
    proof
      assume "st T q = SLEEPING \<and> ch T q = ch U q \<and> (kd U q \<longrightarrow> kd T q)"
      then show ?thesis using waits_kd [OF ok q(1)] waits_kid [OF ok q(1)] waits_zombie [OF ok q(1)] q by (auto simp: e u)
    qed (simp add: e u)
  qed
  ultimately show ?thesis using c h by (simp add: tab_ok_def)
qed

lemma t_new_ok:
  assumes "tab_ok T" "p < NPROC" "st T p = UNUSED"
  shows "tab_ok (t_new p T)"
proof -
  have "par T p = None" using par_ok [OF assms(1,2)] assms(3) by (cases "par T p") auto
  then show ?thesis using slot_step [OF assms(1,2), of EMBRYO "nxt T + 1" "nxt T" None "kd T p"] assms(3) by (simp add: t_new_def active_def fun_upd_idem)
qed

lemma t_drop_ok:
  assumes "tab_ok T" "p < NPROC" "st T p = EMBRYO" "par T p = None"
  shows "tab_ok (t_state p UNUSED T)"
  using slot_step [OF assms(1,2), of UNUSED "nxt T" "pid T p" None "kd T p"] assms(3,4) pid_nxt [OF assms(1,2)] by (simp add: t_state_def active_def fun_upd_idem)

lemma t_child_ok:
  assumes "tab_ok T" "p < NPROC" "st T p = EMBRYO" "par T p = None" "me < NPROC" "st T me = RUNNING" "pid T me < pid T p"
  shows "tab_ok (t_child me p T)"
  using slot_step [OF assms(1,2), of RUNNABLE "nxt T" "pid T p" "Some me" "kd T p"] assms(3-) pid_nxt [OF assms(1,2)] by (simp add: t_child_def active_def)

lemma t_reap_ok:
  assumes "tab_ok T" "p < NPROC" "st T p = ZOMBIE" "par T p = Some me" "st T me = RUNNING"
  shows "tab_ok (t_reap p T)"
  using slot_step [OF assms(1,2), of UNUSED "nxt T" 0 None False] assms(3-) nxt_pos [OF assms(1)] by (simp add: t_reap_def active_def)

lemma leave_cpus:
  assumes ok: "tab_ok T" and c: "on T c = Some me" and x: "x \<noteq> RUNNING"
  shows "cpus_ok (t_leave c me x chan T)"
  unfolding cpus_ok_def
proof (intro conjI allI impI)
  fix d p assume d: "on (t_leave c me x chan T) d = Some p"
  then have d': "d \<noteq> c" "on T d = Some p" by (auto simp: t_leave_def split: if_splits)
  have "p \<noteq> me" using on_one [OF ok d'(2), of c] c d' by auto
  then show "p < NPROC" "st (t_leave c me x chan T) p = RUNNING" using on_run [OF ok d'(2)] by (auto simp: t_leave_def)
next
  fix d e p assume "on (t_leave c me x chan T) d = Some p" "on (t_leave c me x chan T) e = Some p"
  then show "d = e" using on_one [OF ok, of d p e] by (auto simp: t_leave_def split: if_splits)
next
  fix p assume p: "p < NPROC" "st (t_leave c me x chan T) p = RUNNING"
  then have p': "p \<noteq> me" "st T p = RUNNING" using x by (auto simp: t_leave_def split: if_splits)
  obtain d where d: "on T d = Some p" using run_on [OF ok p(1) p'(2)] by blast
  have "d \<noteq> c" using c d p' by auto
  then show "\<exists>d. on (t_leave c me x chan T) d = Some p" using d by (intro exI [of _ d]) (simp add: t_leave_def)
qed

lemma leave_chans:
  assumes ok: "tab_ok T" and x: "x = SLEEPING \<longrightarrow> chan \<noteq> None" "x \<noteq> SLEEPING \<longrightarrow> chan = None" "\<And>q. chan = Some (ChProc q) \<Longrightarrow> q = me"
  shows "chans_ok (t_leave c me x chan T)"
  using tab_okD(4) [OF ok] x by (auto simp: chans_ok_def t_leave_def)

lemma leave_ok:
  assumes ok: "tab_ok T" and c: "on T c = Some me" and x: "x = RUNNABLE \<and> chan = None \<or> x = SLEEPING \<and> chan \<noteq> None \<and> (\<forall>q. chan = Some (ChProc q) \<longrightarrow> q = me)"
    and w: "chan = Some (ChProc me) \<Longrightarrow> \<not> kd T me \<and> (\<exists>p<NPROC. par T p = Some me) \<and> (\<forall>p<NPROC. par T p = Some me \<longrightarrow> st T p \<noteq> ZOMBIE)"
  shows "tab_ok (t_leave c me x chan T)"
proof (rule active_step [OF ok])
  show "cpus_ok (t_leave c me x chan T)" by (rule leave_cpus [OF ok c]) (use x in auto)
  show "chans_ok (t_leave c me x chan T)" by (rule leave_chans [OF ok]) (use x in auto)
qed (use x w on_run [OF ok c] in \<open>auto simp: t_leave_def active_def split: if_splits\<close>)

lemma t_enter_ok:
  assumes ok: "tab_ok T" and c: "on T c = None" "p < NPROC" "st T p = RUNNABLE"
  shows "tab_ok (t_enter c p T)"
proof (rule active_step [OF ok])
  have n: "on T d \<noteq> Some p" for d using on_run [OF ok, of d p] c(3) by auto
  have "\<exists>d. on (t_enter c p T) d = Some q" if q: "q < NPROC" "st (t_enter c p T) q = RUNNING" for q
  proof (cases "q = p")
    case False
    then obtain d where "on T d = Some q" using run_on [OF ok q(1)] q(2) by (auto simp: t_enter_def)
    moreover have "d \<noteq> c" using calculation c(1) by auto
    ultimately show ?thesis by (intro exI [of _ d]) (simp add: t_enter_def)
  qed (auto simp: t_enter_def)
  then show "cpus_ok (t_enter c p T)" using tab_okD(1) [OF ok] c n unfolding cpus_ok_def by (auto simp: t_enter_def)
  show "chans_ok (t_enter c p T)" using tab_okD(4) [OF ok] by (auto simp: chans_ok_def t_enter_def)
qed (use c in \<open>auto simp: t_enter_def active_def split: if_splits\<close>)

lemma t_wake_ok:
  assumes ok: "tab_ok T"
  shows "tab_ok (t_wake chan T)"
proof (rule active_step [OF ok])
  show "cpus_ok (t_wake chan T)" using tab_okD(1) [OF ok] by (auto simp: cpus_ok_def t_wake_def split: if_splits)
  show "chans_ok (t_wake chan T)" using tab_okD(4) [OF ok] by (auto simp: chans_ok_def t_wake_def)
qed (auto simp: t_wake_def active_def split: if_splits)

lemma t_kill_ok:
  assumes ok: "tab_ok T" and p: "p < NPROC"
  shows "tab_ok (t_kill p T)"
proof (rule active_step [OF ok])
  show "cpus_ok (t_kill p T)" using tab_okD(1) [OF ok] by (auto simp: cpus_ok_def t_kill_def split: if_splits)
  show "chans_ok (t_kill p T)" using tab_okD(4) [OF ok] by (auto simp: chans_ok_def t_kill_def)
qed (auto simp: t_kill_def active_def split: if_splits)

section \<open>Exiting\<close>

definition t_adopt :: "nat \<Rightarrow> nat \<Rightarrow> ptab \<Rightarrow> ptab" where
  "t_adopt me p T = (if par T p = Some me then (if st T p = ZOMBIE then t_wake (map_option ChProc (ini T)) T else T)\<lparr>par := (par T)(p := ini T)\<rparr> else T)"

definition waiting :: "ptab \<Rightarrow> nat \<Rightarrow> bool" where
  "waiting T q \<longleftrightarrow> st T q = SLEEPING \<and> ch T q = Some (ChProc q)"

lemma waits_alt: "waits_ok T \<longleftrightarrow> (\<forall>q<NPROC. waiting T q \<longrightarrow> \<not> kd T q \<and> (\<exists>p<NPROC. par T p = Some q) \<and> (\<forall>p<NPROC. par T p = Some q \<longrightarrow> st T p \<noteq> ZOMBIE))"
  by (auto simp: waits_ok_def waiting_def)

lemma init_no_parent: "tab_ok T \<Longrightarrow> ini T = Some i \<Longrightarrow> par T i = None"
proof (rule ccontr)
  assume ok: "tab_ok T" and i: "ini T = Some i" and "par T i \<noteq> None"
  then obtain q where q: "par T i = Some q" by blast
  note p = par_ok [OF ok conjunct1 [OF init_ok [OF ok i]] q]
  then have "q \<noteq> i" "st T q \<noteq> UNUSED" by (auto simp: active_def)
  then have "pid T i < pid T q" using p init_old [OF ok i, of q] by blast
  with p show False by simp
qed

lemma reparent_ok:
  assumes ok: "tab_ok T" and p: "p < NPROC" "par T p = Some me" "st T me = RUNNING" and i: "ini T = Some i" and w: "st T p = ZOMBIE \<Longrightarrow> \<not> waiting T i"
  shows "tab_ok (T\<lparr>par := (par T)(p := Some i)\<rparr>)"
proof -
  note q = par_ok [OF ok p(1,2)]
  have "p \<noteq> i" using init_no_parent [OF ok i] p(2) by auto
  then have io: "i < NPROC" "active (st T i)" "pid T i < pid T p" using init_ok [OF ok i] init_old [OF ok i p(1)] q by auto
  have "parents_ok (T\<lparr>par := (par T)(p := Some i)\<rparr>)" using tab_okD(3) [OF ok] q io by (auto simp: parents_ok_def)
  moreover have "waits_ok (T\<lparr>par := (par T)(p := Some i)\<rparr>)"
    unfolding waits_alt
  proof (intro allI impI)
    fix r assume r: "r < NPROC" "waiting (T\<lparr>par := (par T)(p := Some i)\<rparr>) r"
    then have rw: "waiting T r" "r \<noteq> me" using p(3) by (auto simp: waiting_def)
    obtain k where k: "k < NPROC" "par T k = Some r" using waits_kid [OF ok r(1)] rw(1) by (auto simp: waiting_def)
    have "k \<noteq> p" using k p(2) rw(2) by auto
    then have "\<exists>k<NPROC. ((par T)(p := Some i)) k = Some r" using k by (intro exI [of _ k]) simp
    moreover have "st T x \<noteq> ZOMBIE" if "x < NPROC" "((par T)(p := Some i)) x = Some r" for x
      using that rw(1) w waits_zombie [OF ok r(1) _ _ that(1)] by (auto simp: waiting_def split: if_splits)
    ultimately show "\<not> kd (T\<lparr>par := (par T)(p := Some i)\<rparr>) r \<and> (\<exists>x<NPROC. par (T\<lparr>par := (par T)(p := Some i)\<rparr>) x = Some r) \<and>
        (\<forall>x<NPROC. par (T\<lparr>par := (par T)(p := Some i)\<rparr>) x = Some r \<longrightarrow> st (T\<lparr>par := (par T)(p := Some i)\<rparr>) x \<noteq> ZOMBIE)"
      using waits_kd [OF ok r(1)] rw(1) by (auto simp: waiting_def)
  qed
  ultimately show ?thesis using tab_okD(1,2,4) [OF ok] by (simp add: tab_ok_def cpus_ok_def pids_ok_def chans_ok_def)
qed

text \<open>What holds while \<open>me\<close> gives away its children: its parent, if any, does not sleep in \<open>wait\<close>.\<close>

definition exiting :: "nat \<Rightarrow> nat \<Rightarrow> ptab \<Rightarrow> bool" where
  "exiting c me T \<longleftrightarrow> tab_ok T \<and> on T c = Some me \<and> ini T \<noteq> Some me \<and> (\<forall>q. par T me = Some q \<longrightarrow> \<not> waiting T q)"

lemma exiting_wake: "exiting c me T \<Longrightarrow> exiting c me (t_wake chan T)"
  using t_wake_ok [of T chan] by (auto simp: exiting_def waiting_def t_wake_def split: if_splits)

lemma exiting_adopt:
  assumes e: "exiting c me T" and p: "p < NPROC"
  shows "exiting c me (t_adopt me p T)" "par (t_adopt me p T) p \<noteq> Some me" "\<And>q. par T q \<noteq> Some me \<Longrightarrow> par (t_adopt me p T) q \<noteq> Some me"
proof -
  have ok: "tab_ok T" and on: "on T c = Some me" and ni: "ini T \<noteq> Some me" using e by (auto simp: exiting_def)
  obtain i where i: "ini T = Some i" using init_some [OF ok] by blast
  show "par (t_adopt me p T) p \<noteq> Some me" "\<And>q. par T q \<noteq> Some me \<Longrightarrow> par (t_adopt me p T) q \<noteq> Some me" using ni by (auto simp: t_adopt_def)
  show "exiting c me (t_adopt me p T)"
  proof (cases "par T p = Some me")
    case True
    let ?U = "if st T p = ZOMBIE then t_wake (Some (ChProc i)) T else T"
    have U: "exiting c me ?U" "par ?U = par T" "ini ?U = Some i" using e exiting_wake i by (auto simp: t_wake_def)
    have run: "st ?U me = RUNNING" using U(1) on_run by (auto simp: exiting_def)
    have "p \<noteq> me" using par_ok [OF ok p True] by auto
    have "st ?U p = ZOMBIE \<Longrightarrow> \<not> waiting ?U i" using init_ok [OF ok i] by (auto simp: waiting_def t_wake_def split: if_splits)
    then have "tab_ok (?U\<lparr>par := (par ?U)(p := Some i)\<rparr>)" using U run by (intro reparent_ok [OF _ p _ run]) (auto simp: exiting_def True)
    moreover have "t_adopt me p T = ?U\<lparr>par := (par ?U)(p := Some i)\<rparr>" using True i U(2) by (simp add: t_adopt_def)
    ultimately show ?thesis using U(1) \<open>p \<noteq> me\<close> by (auto simp: exiting_def waiting_def)
  qed (use e in \<open>simp add: t_adopt_def\<close>)
qed

lemma exiting_fold: "exiting c me T \<Longrightarrow> set ps \<subseteq> {..<NPROC} \<Longrightarrow>
    exiting c me (fold (t_adopt me) ps T) \<and> (\<forall>p. p \<in> set ps \<or> par T p \<noteq> Some me \<longrightarrow> par (fold (t_adopt me) ps T) p \<noteq> Some me)"
proof (induction ps arbitrary: T)
  case (Cons p ps)
  then have p: "p < NPROC" by simp
  show ?case using Cons.IH [OF exiting_adopt(1) [OF Cons.prems(1) p]] Cons.prems(2) exiting_adopt(2,3) [OF Cons.prems(1) p] by auto
qed simp

lemma t_zombie_ok:
  assumes e: "exiting c me T" and k: "\<And>p. p < NPROC \<Longrightarrow> par T p \<noteq> Some me"
  shows "tab_ok (t_leave c me ZOMBIE None T)" (is "tab_ok ?U")
proof -
  have ok: "tab_ok T" and on: "on T c = Some me" and ni: "ini T \<noteq> Some me" and w: "\<And>q. par T me = Some q \<Longrightarrow> \<not> waiting T q" using e by (auto simp: exiting_def)
  have me: "me < NPROC" "st T me = RUNNING" using on_run [OF ok on] by auto
  have st: "st ?U p = (if p = me then ZOMBIE else st T p)" for p by (simp add: t_leave_def)
  have f: "pid ?U = pid T" "par ?U = par T" "ini ?U = ini T" "nxt ?U = nxt T" "kd ?U = kd T" by (simp_all add: t_leave_def)
  have u: "st ?U p = UNUSED \<longleftrightarrow> st T p = UNUSED" "st ?U p = EMBRYO \<longleftrightarrow> st T p = EMBRYO" for p using me by (auto simp: st)
  have "pids_ok ?U" using tab_okD(2) [OF ok] by (simp add: pids_ok_def f u)
  moreover have "parents_ok ?U"
    unfolding parents_ok_def f u
  proof (intro conjI)
    show "\<forall>p<NPROC. \<forall>q. par T p = Some q \<longrightarrow> st T p \<noteq> UNUSED \<and> q < NPROC \<and> active (st ?U q) \<and> pid T q < pid T p"
      using tab_okD(3) [OF ok] k by (auto simp: parents_ok_def st)
    show "\<forall>p<NPROC. st T p \<noteq> UNUSED \<longrightarrow> st T p \<noteq> EMBRYO \<longrightarrow> ini T \<noteq> Some p \<longrightarrow> par T p \<noteq> None" using tab_okD(3) [OF ok] by (simp add: parents_ok_def)
    obtain i where i: "ini T = Some i" using init_some [OF ok] by blast
    then show "\<exists>i<NPROC. ini T = Some i \<and> active (st ?U i) \<and> (\<forall>p<NPROC. st T p \<noteq> UNUSED \<longrightarrow> p \<noteq> i \<longrightarrow> pid T i < pid T p)"
      using init_ok [OF ok i] init_old [OF ok i] ni by (intro exI [of _ i]) (simp add: st)
  qed
  moreover have "waits_ok ?U"
    unfolding waits_alt f
  proof (intro allI impI)
    fix q assume q: "q < NPROC" "waiting ?U q"
    then have "q \<noteq> me" "waiting T q" by (auto simp: waiting_def t_leave_def split: if_splits)
    then show "\<not> kd T q \<and> (\<exists>p<NPROC. par T p = Some q) \<and> (\<forall>p<NPROC. par T p = Some q \<longrightarrow> st ?U p \<noteq> ZOMBIE)"
      using tab_okD(5) [OF ok] q(1) w unfolding waits_alt st by auto
  qed
  ultimately show ?thesis using leave_cpus [OF ok on, of ZOMBIE None] leave_chans [OF ok, of ZOMBIE None me c] by (simp add: tab_ok_def)
qed

section \<open>The tree of processes\<close>

definition child_of :: "ptab \<Rightarrow> nat \<Rightarrow> nat \<Rightarrow> bool" where
  "child_of T p q \<longleftrightarrow> par T p = Some q"

lemma from_init:
  assumes ok: "tab_ok T" and i: "ini T = Some i"
  shows "p < NPROC \<Longrightarrow> st T p \<noteq> UNUSED \<Longrightarrow> st T p \<noteq> EMBRYO \<Longrightarrow> (child_of T)\<^sup>*\<^sup>* p i"
proof (induction "nat (pid T p)" arbitrary: p rule: less_induct)
  case less
  show ?case
  proof (cases "p = i")
    case False
    then obtain q where q: "par T p = Some q" using par_some [OF ok less.prems] i by auto
    note a = par_ok [OF ok less.prems(1) q]
    then have "st T q \<noteq> UNUSED" "st T q \<noteq> EMBRYO" by (auto simp: active_def)
    moreover have "nat (pid T q) < nat (pid T p)" using a pid_pos [OF ok less.prems(1,2)] by simp
    ultimately have "(child_of T)\<^sup>*\<^sup>* q i" using a less.hyps by blast
    then show ?thesis using q by (intro converse_rtranclp_into_rtranclp [of "child_of T" p q]) (simp_all add: child_of_def)
  qed simp
qed

end
