(* ===== verification/Proc_Props.thy ===== *)
theory Proc_Props
  imports Proc_Inv Sysfile_Refs
begin

text \<open>
  The functions of \<open>kernel/proc.c\<close> refine the operations on the process table of theory \<open>Proc_Inv\<close>, so every run of the machine keeps the invariant of
  the table, and the scheduler is fair.
\<close>

section \<open>What leaves the table alone\<close>

interpretation tb: pipe_blind "\<lambda>s :: 'a psys_scheme. tab s = T" for T
  by unfold_locales (simp_all add: tab_def)

lemma upd_file_tab: "pres (\<lambda>s. tab s = T) (upd_file f g)"
  unfolding upd_file_def by (rule pres_modify) (simp add: tab_def)

lemma filedup_tab: "pres (\<lambda>s. tab s = T) (filedup f)"
  unfolding filedup_def the_file_def by (intro pres_intros upd_file_tab)

lemma fileclose_tab: "pres (\<lambda>s. tab s = T) (fileclose f)"
  unfolding fileclose_def the_file_def by (rule pres_intros upd_file_tab)+

lemma upd_pcb_tab:
  "(\<And>x. pr_state (g x) = pr_state x \<and> pr_pid (g x) = pr_pid x \<and> pr_parent (g x) = pr_parent x \<and> pr_chan (g x) = pr_chan x \<and> pr_killed (g x) = pr_killed x) \<Longrightarrow>
   pres (\<lambda>s. tab s = T) (upd_pcb p g)"
  unfolding upd_pcb_def by (rule pres_modify) (auto simp: tab_pcb fun_eq_iff tab_def)

lemma the_pcb_tab: "pres I (the_pcb p)"
  unfolding the_pcb_def by (rule pres_basic)

lemma on_proc_tab: "(\<And>me. pres I (k me)) \<Longrightarrow> pres I (on_proc c k)"
  unfolding on_proc_def by (intro pres_intros)

lemma switchuvm_tab: "pres I (switchuvm p)"
  unfolding switchuvm_def by (intro pres_intros the_pcb_tab)

lemma growproc_tab: "pres (\<lambda>s. tab s = T) (growproc c n)"
  unfolding growproc_def by (rule on_proc_tab the_pcb_tab switchuvm_tab upd_pcb_tab pres_intros | (simp; fail))+

lemma dup_file_tab: "pres (\<lambda>s. tab s = T) (dup_file me np i)"
  unfolding dup_file_def by (rule the_pcb_tab filedup_tab upd_pcb_tab pres_intros | (simp; fail))+

lemma close_fd_tab: "pres (\<lambda>s. tab s = T) (close_fd me fd)"
  unfolding close_fd_def by (rule the_pcb_tab fileclose_tab upd_pcb_tab pres_intros | (simp; fail))+

section \<open>What changes it\<close>

lemma set_state_tab: "valid (\<lambda>s. tab s = T) (upd_pcb p (\<lambda>x. x\<lparr>pr_state := y\<rparr>)) (\<lambda>_ s. tab s = t_state p y T)"
  unfolding upd_pcb_def by (rule validI) (auto simp: tab_pcb t_state_def fun_upd_idem)

lemma wakeup1_tab: "valid (\<lambda>s. tab s = T) (wakeup1 chan) (\<lambda>_ s. tab s = t_wake chan T)"
  unfolding wakeup1_def by (rule validI) (auto simp: tab_def t_wake_def Let_def fun_eq_iff)

lemma kill_tab: "kill n s = Ret (r, s') \<Longrightarrow> tab s' = tab s \<or> (\<exists>p<NPROC. tab s' = t_kill p (tab s))"
  by (auto simp: kill_def bnd_eq_Ret upd_pcb_def find_Some_iff t_kill_def tab_pcb fun_upd_idem split: option.splits)

lemma sched_tab: "sched c s = Ret (u, s') \<Longrightarrow> tab s' = (tab s)\<lparr>on := (on (tab s))(c := None)\<rparr>"
  by (auto simp: sched_def on_proc_def the_pcb_def bnd_eq_Ret tab_def split: option.splits if_splits)

lemma yield_tab: "cpu_proc s c = Some me \<Longrightarrow> yield c s = Ret (u, s') \<Longrightarrow> tab s' = t_leave c me RUNNABLE (ch (tab s) me) (tab s)"
  by (auto simp: yield_def on_proc_def upd_pcb_def bnd_eq_Ret t_leave_def tab_pcb fun_upd_idem dest!: sched_tab)

lemma sleep_tab: "cpu_proc s c = Some me \<Longrightarrow> sleep c chan s = Ret (u, s') \<Longrightarrow> tab s' = t_leave c me SLEEPING chan (tab s)"
  by (auto simp: sleep_def upd_pcb_def bnd_eq_Ret t_leave_def tab_pcb fun_upd_idem dest!: sched_tab)

lemma run_tab:
  assumes "scheduler c k s = Ret (Some n, t)" "resume c t = Ret (u, s')"
  shows "\<exists>p<NPROC. st (tab s) p = RUNNABLE \<and> tab s' = t_enter c p (tab s)"
proof -
  obtain p where p: "find (\<lambda>p. pr_state (pt s p) = RUNNABLE) [k..<NPROC] = Some p" using assms(1) by (auto simp: scheduler_def bnd_eq_Ret split: option.splits)
  then have "p < NPROC" "pr_state (pt s p) = RUNNABLE" by (auto simp: find_Some_iff)
  moreover have "s' = s\<lparr>cpu_proc := (cpu_proc s)(c \<mapsto> p), pt := (pt s)(p := (pt s p)\<lparr>pr_state := RUNNING, pr_chan := None\<rparr>)\<rparr>"
    using assms p by (auto simp: scheduler_def resume_def on_proc_def switchuvm_def the_pcb_def upd_pcb_def bnd_eq_Ret split: option.splits if_splits)
  ultimately show ?thesis by (intro exI [of _ p]) (auto simp: tab_def t_enter_def fun_eq_iff)
qed

lemma t_wake_par: "t_wake chan (T\<lparr>par := X\<rparr>) = (t_wake chan T)\<lparr>par := X\<rparr>"
  by (simp add: t_wake_def cong: if_cong)

lemma adopt_tab: "valid (\<lambda>s. tab s = T) (adopt me p) (\<lambda>_ s. tab s = t_adopt me p T)"
proof (rule validI)
  fix s and u :: unit and s' assume T: "tab s = T" and a: "adopt me p s = Ret (u, s')"
  let ?s = "s\<lparr>pt := (pt s)(p := (pt s p)\<lparr>pr_parent := initproc s\<rparr>)\<rparr>"
  have t: "tab ?s = T\<lparr>par := (par T)(p := ini T)\<rparr>" by (simp add: tab_pcb fun_upd_idem T [symmetric])
  show "tab s' = t_adopt me p T"
  proof (cases "pr_parent (pt s p) = Some me")
    case True
    then have "if pr_state (pt s p) = ZOMBIE then wakeup1 (map_option ChProc (initproc s)) ?s = Ret (u, s') else s' = ?s"
      using a by (auto simp: adopt_def the_pcb_def upd_pcb_def bnd_eq_Ret split: if_splits)
    moreover have "tab s' = t_wake (map_option ChProc (initproc s)) (tab ?s)" if "wakeup1 (map_option ChProc (initproc s)) ?s = Ret (u, s')"
      using wakeup1_tab that by (auto simp: valid_def)
    ultimately show ?thesis using True by (auto simp: t t_adopt_def T [symmetric] t_wake_par split: if_splits)
  qed (use a T in \<open>auto simp: adopt_def the_pcb_def bnd_eq_Ret t_adopt_def\<close>)
qed

lemma for_each_tab:
  assumes "\<And>x T. valid (\<lambda>s. tab s = T) (f x) (\<lambda>_ s. tab s = g x T)"
  shows "valid (\<lambda>s. tab s = T) (for_each f xs) (\<lambda>_ s. tab s = fold g xs T)"
proof (induction xs arbitrary: T)
  case (Cons x xs)
  show ?case unfolding for_each.simps fold_simps by (rule valid_bnd [OF assms Cons.IH])
qed (auto intro: valid_ret)

text \<open>Reading what the table determines.\<close>

lemma valid_on_proc: "on T c = Some me \<Longrightarrow> valid (\<lambda>s. tab s = T) (k me) J \<Longrightarrow> valid (\<lambda>s. tab s = T) (on_proc c k) J"
  by (auto simp: valid_def on_proc_def bnd_eq_Ret)

lemma valid_the_pcb:
  "(\<And>x. pr_state x = st T p \<Longrightarrow> pr_pid x = pid T p \<Longrightarrow> pr_parent x = par T p \<Longrightarrow> valid (\<lambda>s. tab s = T) (f x) J) \<Longrightarrow> valid (\<lambda>s. tab s = T) (bnd (the_pcb p) f) J"
  unfolding valid_def the_pcb_def bnd_eq_Ret by auto

lemma valid_ini: "valid (\<lambda>s. tab s = T) (f (ini T)) J \<Longrightarrow> valid (\<lambda>s. tab s = T) (bnd (gets initproc) f) J"
  by (auto simp: valid_def bnd_eq_Ret)

lemma sched_valid: "valid (\<lambda>s. tab s = T) (sched c) (\<lambda>_ s. tab s = T\<lparr>on := (on T)(c := None)\<rparr>)"
  by (rule validI) (auto dest: sched_tab)

lemma exit_rest_tab:
  "valid (\<lambda>s. tab s = T) (seq (iput dir) (seq (upd_pcb me (\<lambda>x. x\<lparr>pr_cwd := None\<rparr>)) (seq (wakeup1 chan) (seq (for_each (adopt me) ps)
     (seq (upd_pcb me (\<lambda>x. x\<lparr>pr_state := ZOMBIE\<rparr>)) (sched c))))))
   (\<lambda>_ s. tab s = (t_state me ZOMBIE (fold (t_adopt me) ps (t_wake chan T)))\<lparr>on := (on (t_state me ZOMBIE (fold (t_adopt me) ps (t_wake chan T))))(c := None)\<rparr>)"
  by (rule valid_pres_bnd, rule pres_intros, rule valid_pres_bnd, rule upd_pcb_tab, simp, rule valid_bnd [OF wakeup1_tab],
      rule valid_bnd [OF for_each_tab [OF adopt_tab]], rule valid_bnd [OF set_state_tab sched_valid])

definition t_exit :: "nat \<Rightarrow> ptab \<Rightarrow> ptab" where
  "t_exit me T = fold (t_adopt me) [0..<NPROC] (t_wake (map_option ChProc (par T me)) T)"

lemma exit_tab:
  assumes c: "on T c = Some me"
  shows "valid (\<lambda>s. tab s = T) (exit c) (\<lambda>_ s. ini T \<noteq> Some me \<and> tab s = t_leave c me ZOMBIE (ch (t_exit me T) me) (t_exit me T))"
proof -
  have e: "(t_state me ZOMBIE U)\<lparr>on := (on (t_state me ZOMBIE U))(c := None)\<rparr> = t_leave c me ZOMBIE (ch U me) U" for U
    by (simp add: t_leave_def t_state_def)
  have "pres (\<lambda>s. tab s = T) (for_each (close_fd me) [0..<NOFILE])" by (intro pres_intros close_fd_tab)
  then have "valid (\<lambda>s. tab s = T) (seq (for_each (close_fd me) [0..<NOFILE]) (bnd (the_pcb me) (\<lambda>x. case pr_cwd x of None \<Rightarrow> fault
       | Some dir \<Rightarrow> seq (iput dir) (seq (upd_pcb me (\<lambda>x. x\<lparr>pr_cwd := None\<rparr>)) (seq (wakeup1 (map_option ChProc (pr_parent x)))
          (seq (for_each (adopt me) [0..<NPROC]) (seq (upd_pcb me (\<lambda>x. x\<lparr>pr_state := ZOMBIE\<rparr>)) (sched c))))))))
      (\<lambda>_ s. tab s = t_leave c me ZOMBIE (ch (t_exit me T) me) (t_exit me T))"
    unfolding t_exit_def
    by (rule valid_pres_bnd) (rule valid_the_pcb, rule valid_option, rule valid_none(3), simp only: e [symmetric], rule exit_rest_tab)
  then show ?thesis unfolding exit_def by (intro valid_on_proc [OF c] valid_ini) (auto simp: valid_def)
qed

lemma reap_tab:
  assumes "reap p s = Ret (r, s')"
  shows "tab s' = t_reap p (tab s)"
proof -
  let ?g = "\<lambda>x. x\<lparr>pr_state := UNUSED, pr_pid := 0, pr_parent := None, pr_name := (pr_name x)[0 := 0], pr_killed := False\<rparr>"
  have u: "valid (\<lambda>s. tab s = T) (upd_pcb p ?g) (\<lambda>_ s. tab s = t_reap p T)" for T :: ptab
    unfolding upd_pcb_def by (rule validI) (auto simp: tab_pcb t_reap_def fun_upd_idem)
  have "valid (\<lambda>s. tab s = T) (reap p) (\<lambda>_ s. tab s = t_reap p T)" for T
    unfolding reap_def by (rule valid_bnd [OF u] valid_ret valid_pres_bnd the_pcb_tab upd_pcb_tab pres_intros | assumption | (simp; fail))+
  then show ?thesis using assms by (auto simp: valid_def)
qed

lemma wait_scan_tab:
  "wait_scan me hk ps s = Ret (r, s') \<Longrightarrow> case r of
     Inl n \<Rightarrow> \<exists>p\<in>set ps. par (tab s) p = Some me \<and> st (tab s) p = ZOMBIE \<and> tab s' = t_reap p (tab s)
   | Inr h \<Rightarrow> s' = s \<and> (h \<longrightarrow> hk \<or> (\<exists>p\<in>set ps. par (tab s) p = Some me)) \<and> (\<forall>p\<in>set ps. par (tab s) p = Some me \<longrightarrow> st (tab s) p \<noteq> ZOMBIE)"
proof (induction ps arbitrary: hk)
  case (Cons p ps)
  show ?case
  proof (cases "pr_parent (pt s p) = Some me")
    case False
    then show ?thesis using Cons.IH [of hk] Cons.prems by (auto simp: the_pcb_def bnd_eq_Ret split: sum.splits)
  next
    case True
    show ?thesis
    proof (cases "pr_state (pt s p) = ZOMBIE")
      case False
      then show ?thesis using True Cons.IH [of True] Cons.prems by (auto simp: the_pcb_def bnd_eq_Ret split: sum.splits)
    qed (use True Cons.prems in \<open>auto simp: the_pcb_def bnd_eq_Ret dest!: reap_tab\<close>)
  qed
qed (auto)

lemma valid_gets_tab: "(\<And>s. tab s = T \<Longrightarrow> g s = a) \<Longrightarrow> valid (\<lambda>s. tab s = T) (f a) J \<Longrightarrow> valid (\<lambda>s. tab s = T) (bnd (gets g) f) J"
  by (auto simp: valid_def bnd_eq_Ret)

lemma new_slot_tab:
  assumes "valid (\<lambda>s. tab s = t_new p T) m J"
  shows "valid (\<lambda>s. tab s = T) (seq (upd_pcb p (\<lambda>x. x\<lparr>pr_state := EMBRYO\<rparr>)) (bnd (gets nextpid) (\<lambda>pid. if pid \<ge> 2147483647 then fault
     else seq (modify (\<lambda>s. s\<lparr>nextpid := pid + 1\<rparr>)) (seq (upd_pcb p (\<lambda>x. x\<lparr>pr_pid := pid\<rparr>)) m)))) J"
proof (rule validI)
  fix s a s' assume T: "tab s = T" and r: "seq (upd_pcb p (\<lambda>x. x\<lparr>pr_state := EMBRYO\<rparr>)) (bnd (gets nextpid) (\<lambda>pid. if pid \<ge> 2147483647 then fault
     else seq (modify (\<lambda>s. s\<lparr>nextpid := pid + 1\<rparr>)) (seq (upd_pcb p (\<lambda>x. x\<lparr>pr_pid := pid\<rparr>)) m))) s = Ret (a, s')"
  let ?s = "s\<lparr>nextpid := nextpid s + 1, pt := (pt s)(p := (pt s p)\<lparr>pr_state := EMBRYO, pr_pid := nextpid s\<rparr>)\<rparr>"
  have "m ?s = Ret (a, s')" using r by (auto simp: upd_pcb_def bnd_eq_Ret split: if_splits)
  moreover have "tab ?s = t_new p T" by (auto simp: tab_def t_new_def fun_eq_iff T [symmetric])
  ultimately show "J a s'" using assms by (auto simp: valid_def)
qed

definition t_taken :: "nat \<Rightarrow> ptab \<Rightarrow> ptab" where
  "t_taken p T = t_state p UNUSED (t_new p T)"

definition alloc_tab :: "ptab \<Rightarrow> nat option \<Rightarrow> ptab \<Rightarrow> bool" where
  "alloc_tab T r U \<longleftrightarrow> (case r of None \<Rightarrow> U = T \<or> (\<exists>p<NPROC. st T p = UNUSED \<and> U = t_taken p T) | Some p \<Rightarrow> p < NPROC \<and> st T p = UNUSED \<and> U = t_new p T)"

lemma allocproc_tab: "valid (\<lambda>s. tab s = T) allocproc (\<lambda>r s. alloc_tab T r (tab s))"
  unfolding allocproc_def
proof (rule valid_gets_tab [where a = "find (\<lambda>p. st T p = UNUSED) [0..<NPROC]"], goal_cases)
  case (1 s)
  then show ?case by (auto intro: arg_cong2 [where f = find])
next
  case 2
  show ?case
  proof (rule valid_option)
    show "valid (\<lambda>s. tab s = T) (ret None) (\<lambda>r s. alloc_tab T r (tab s))" by (rule valid_ret) (simp add: alloc_tab_def)
    fix p assume "find (\<lambda>p. st T p = UNUSED) [0..<NPROC] = Some p"
    then have p: "p < NPROC" "st T p = UNUSED" by (auto simp: find_Some_iff)
    have n: "alloc_tab T None (t_taken p T)" "alloc_tab T (Some p) (t_new p T)" using p by (auto simp: alloc_tab_def)
    have "valid (\<lambda>s. tab s = t_new p T) (new_stack p) (\<lambda>r s. alloc_tab T r (tab s))"
      unfolding new_stack_def Let_def split_def
      by (rule valid_if valid_bnd [OF set_state_tab] valid_pres_bnd upd_pcb_tab pres_intros valid_ret | (simp add: n flip: t_taken_def; fail))+
    then show "valid (\<lambda>s. tab s = T) (seq (upd_pcb p (\<lambda>x. x\<lparr>pr_state := EMBRYO\<rparr>)) (bnd (gets nextpid) (\<lambda>pid. if pid \<ge> 2147483647 then fault
        else seq (modify (\<lambda>s. s\<lparr>nextpid := pid + 1\<rparr>)) (seq (upd_pcb p (\<lambda>x. x\<lparr>pr_pid := pid\<rparr>)) (new_stack p))))) (\<lambda>r s. alloc_tab T r (tab s))"
      by (rule new_slot_tab)
  qed
qed

lemma set_parent_tab: "valid (\<lambda>s. tab s = T) (upd_pcb p (\<lambda>y. y\<lparr>pr_parent := q\<rparr>)) (\<lambda>_ s. tab s = T\<lparr>par := (par T)(p := q)\<rparr>)"
  unfolding upd_pcb_def by (rule validI) (auto simp: tab_pcb fun_upd_idem)

definition fork_tab :: "nat \<Rightarrow> ptab \<Rightarrow> ptab \<Rightarrow> bool" where
  "fork_tab me T U \<longleftrightarrow> U = T \<or> (\<exists>p<NPROC. st T p = UNUSED \<and> (U = t_taken p T \<or> U = t_child me p (t_new p T)))"

lemma fork_child_tab: "valid (\<lambda>s. tab s = T) (fork_child np me) (\<lambda>_ s. tab s = t_state np UNUSED T \<or> tab s = t_child me np T)"
  unfolding fork_child_def split_def
  by (rule valid_if valid_option valid_none valid_bnd [OF set_state_tab] valid_bnd [OF set_parent_tab] valid_pres_bnd the_pcb_tab upd_pcb_tab dup_file_tab pres_intros valid_ret
      | (simp add: t_state_def t_child_def; fail))+

lemma fork_valid:
  assumes c: "on T c = Some me"
  shows "valid (\<lambda>s. tab s = T) (fork c) (\<lambda>_ s. fork_tab me T (tab s))"
  unfolding fork_def
proof (rule valid_bnd [OF allocproc_tab], rule valid_option)
  show "valid (\<lambda>s. alloc_tab T r (tab s)) (ret (-1)) (\<lambda>_ s. fork_tab me T (tab s))" if "r = None" for r
    by (rule valid_ret) (auto simp: that alloc_tab_def fork_tab_def)
next
  fix r :: "nat option" and np assume r: "r = Some np"
  have "valid (\<lambda>s. tab s = t_new np T) (on_proc c (fork_child np)) (\<lambda>_ s. tab s = t_taken np T \<or> tab s = t_child me np (t_new np T))"
    unfolding t_taken_def by (rule valid_on_proc [of _ _ me], simp add: t_new_def c, rule fork_child_tab)
  then show "valid (\<lambda>s. alloc_tab T r (tab s)) (on_proc c (fork_child np)) (\<lambda>_ s. fork_tab me T (tab s))"
    by (auto simp: valid_def alloc_tab_def fork_tab_def r)
qed

section \<open>Every step keeps the invariant\<close>

lemma unused_par: "tab_ok T \<Longrightarrow> p < NPROC \<Longrightarrow> st T p = UNUSED \<Longrightarrow> par T p = None"
  using par_ok [of T p] by (cases "par T p") auto

lemma taken_ok: "tab_ok T \<Longrightarrow> p < NPROC \<Longrightarrow> st T p = UNUSED \<Longrightarrow> tab_ok (t_taken p T)"
  unfolding t_taken_def using unused_par [of T p] by (intro t_drop_ok t_new_ok) (auto simp: t_new_def)

lemma fork_ok:
  assumes ok: "tab_ok T" and c: "on T c = Some me" and f: "fork_tab me T U"
  shows "tab_ok U"
proof -
  have "tab_ok (t_child me p (t_new p T))" if p: "p < NPROC" "st T p = UNUSED" for p
  proof (rule t_child_ok [OF t_new_ok [OF ok p] p(1)])
    have me: "me < NPROC" "st T me = RUNNING" using on_run [OF ok c] by auto
    then have "me \<noteq> p" using p by auto
    then show "me < NPROC" "st (t_new p T) me = RUNNING" "pid (t_new p T) me < pid (t_new p T) p" using me pid_nxt [OF ok me(1)] by (auto simp: t_new_def)
    show "par (t_new p T) p = None" using unused_par [OF ok p] by (simp add: t_new_def)
  qed (simp add: t_new_def)
  then show ?thesis using f ok taken_ok by (auto simp: fork_tab_def)
qed

lemma exit_ok:
  assumes ok: "tab_ok T" and c: "on T c = Some me" and i: "ini T \<noteq> Some me"
  shows "tab_ok (t_leave c me ZOMBIE (ch (t_exit me T) me) (t_exit me T))"
proof -
  let ?W = "t_wake (map_option ChProc (par T me)) T"
  have "exiting c me ?W" using t_wake_ok [OF ok] c i par_ok [OF ok conjunct1 [OF on_run [OF ok c]]] by (auto simp: exiting_def waiting_def t_wake_def)
  then have e: "exiting c me (t_exit me T)" "\<And>p. p < NPROC \<Longrightarrow> par (t_exit me T) p \<noteq> Some me"
    using exiting_fold [of c me ?W "[0..<NPROC]"] unfolding t_exit_def by (simp_all add: subset_eq del: upt_rec_numeral)
  have "ch (t_exit me T) me = None" using e(1) on_run [of "t_exit me T" c me] awake_ch [of "t_exit me T" me] by (auto simp: exiting_def)
  then show ?thesis using t_zombie_ok [OF e] by simp
qed

lemma wait_ok:
  assumes ok: "tab_ok (tab s)" and c: "cpu_proc s c = Some me" and w: "wait c s = Ret (r, s')"
  shows "tab_ok (tab s')"
proof -
  have me: "me < NPROC" "st (tab s) me = RUNNING" using on_run [OF ok, of c me] c by auto
  obtain q t where q: "wait_scan me False [0..<NPROC] s = Ret (q, t)" using w c by (auto simp: wait_def on_proc_def bnd_eq_Ret simp del: upt_rec_numeral)
  show ?thesis
  proof (cases q)
    case (Inl n)
    then obtain p where p: "p < NPROC" "par (tab s) p = Some me" "st (tab s) p = ZOMBIE" "tab t = t_reap p (tab s)"
      using wait_scan_tab [OF q] by (auto simp del: upt_rec_numeral)
    moreover have "s' = t" using w c q Inl by (auto simp: wait_def on_proc_def bnd_eq_Ret simp del: upt_rec_numeral)
    ultimately show ?thesis using t_reap_ok [OF ok p(1,3,2) me(2)] by simp
  next
    case (Inr h)
    then have t: "t = s" "h \<Longrightarrow> \<exists>p<NPROC. par (tab s) p = Some me" "\<And>p. p < NPROC \<Longrightarrow> par (tab s) p = Some me \<Longrightarrow> st (tab s) p \<noteq> ZOMBIE"
      using wait_scan_tab [OF q] by (auto simp del: upt_rec_numeral)
    show ?thesis
    proof (cases "\<not> h \<or> pr_killed (pt s me)")
      case True
      then have "s' = s" using w c q Inr t(1) by (auto simp: wait_def on_proc_def the_pcb_def bnd_eq_Ret simp del: upt_rec_numeral)
      then show ?thesis using ok by simp
    next
      case False
      then have "sleep c (Some (ChProc me)) s = Ret ((), s')" using w c q Inr t(1) by (auto simp: wait_def on_proc_def the_pcb_def bnd_eq_Ret simp del: upt_rec_numeral)
      then have "tab s' = t_leave c me SLEEPING (Some (ChProc me)) (tab s)" using sleep_tab [OF c] by blast
      then show ?thesis using False t(2,3) c by (auto intro!: leave_ok [OF ok])
    qed
  qed
qed

lemma pstep_ok: "pstep s s' \<Longrightarrow> tab_ok (tab s) \<Longrightarrow> tab_ok (tab s')"
proof (induction rule: pstep.induct)
  case (step_run s c k n t s')
  then show ?case using run_tab [OF step_run(2,3)] t_enter_ok [of "tab s" c] by auto
next
  case (step_fork s c me r s')
  then have "fork_tab me (tab s) (tab s')" using fork_valid [of "tab s" c me] by (auto simp: valid_def)
  moreover have "on (tab s) c = Some me" using step_fork(1) by simp
  ultimately show ?case using fork_ok [OF step_fork(3)] by blast
next
  case (step_exit s c me s')
  then have "ini (tab s) \<noteq> Some me" "tab s' = t_leave c me ZOMBIE (ch (t_exit me (tab s)) me) (t_exit me (tab s))" using exit_tab [of "tab s" c me] by (auto simp: valid_def)
  then show ?case using step_exit exit_ok [of "tab s" c me] by simp
next
  case (step_wait s c me w s')
  show ?case by (rule wait_ok [OF step_wait(3,1,2)])
next
  case (step_sleep s c me a s')
  then show ?case using sleep_tab [OF step_sleep(1,2)] leave_ok [of "tab s" c me SLEEPING "Some (ChAddr a)"] by simp
next
  case (step_yield s c me s')
  then have "ch (tab s) me = None" using on_run [of "tab s" c me] awake_ch [of "tab s" me] by simp
  then show ?case using step_yield yield_tab [of s c me] leave_ok [of "tab s" c me RUNNABLE None] by simp
next
  case (step_kill n s r s')
  then show ?case using kill_tab [of n s r s'] t_kill_ok [of "tab s"] by auto
next
  case (step_grow s c me n r s')
  then have "tab s' = tab s" using presD [OF growproc_tab [of "tab s" c n]] by blast
  then show ?case using step_grow by simp
next
  case (step_wakeup chan s s')
  then have "tab s' = t_wake chan (tab s)" using wakeup1_tab [of "tab s" chan] by (auto simp: wakeup_def valid_def)
  then show ?case using t_wake_ok step_wakeup by simp
next
  case (step_trap s c me s')
  then have me: "me < NPROC" "st (tab s) me = RUNNING" using on_run [of "tab s" c me] by auto
  then have "tab s' = t_kill me (tab s)" using step_trap(2) by (simp add: tab_pcb t_kill_def fun_upd_idem)
  then show ?case using t_kill_ok [OF step_trap(3) me(1)] by simp
next
  case (step_other s s')
  then show ?case by (simp add: tab_same)
qed

section \<open>The first process\<close>

text \<open>The table as the kernel starts: static memory, all zero.\<close>

definition blank :: "'a psys_scheme \<Rightarrow> bool" where
  "blank s \<longleftrightarrow> (\<forall>p<NPROC. pr_state (pt s p) = UNUSED \<and> pr_pid (pt s p) = 0 \<and> pr_parent (pt s p) = None \<and> pr_chan (pt s p) = None) \<and>
     (\<forall>c. cpu_proc s c = None) \<and> nextpid s = 1"

lemma set_init_tab: "valid (\<lambda>s. tab s = T) (modify (\<lambda>s. s\<lparr>initproc := r\<rparr>)) (\<lambda>_ s. tab s = T\<lparr>ini := r\<rparr>)"
  by (rule validI) (auto simp: tab_def)

lemma valid_alloc: "(p < NPROC \<Longrightarrow> st T p = UNUSED \<Longrightarrow> valid (\<lambda>s. tab s = t_new p T) m J) \<Longrightarrow> valid (\<lambda>s. alloc_tab T (Some p) (tab s)) m J"
  by (auto simp: valid_def alloc_tab_def)

lemma userinit_tab:
  "valid (\<lambda>s. tab s = T) userinit (\<lambda>_ s. \<exists>p<NPROC. st T p = UNUSED \<and> tab s = (t_state p RUNNABLE (t_new p T))\<lparr>ini := Some p\<rparr>)"
  unfolding userinit_def
proof (rule valid_bnd [OF allocproc_tab], goal_cases)
  case (1 r)
  show ?case
  proof (cases r)
    case (Some p)
    show ?thesis unfolding Some option.case Let_def split_def
      by (rule valid_alloc, rule valid_bnd [OF set_init_tab])
        (rule valid_if valid_none valid_pres_bnd the_pcb_tab upd_pcb_tab pres_intros valid_post [OF set_state_tab] | (auto simp: t_state_def; fail))+
  qed (auto simp: valid_def bnd_eq_Ret)
qed

lemma userinit_ok:
  assumes b: "blank s" and u: "userinit s = Ret (u, s')"
  shows "tab_ok (tab s')"
proof -
  obtain p where p: "p < NPROC" "tab s' = (t_state p RUNNABLE (t_new p (tab s)))\<lparr>ini := Some p\<rparr>" using userinit_tab [of "tab s"] u by (auto simp: valid_def)
  have f: "st (tab s') q = (if q = p then RUNNABLE else UNUSED)" "par (tab s') q = None" "ch (tab s') q = None" "pid (tab s') q = (if q = p then 1 else 0)" if "q < NPROC" for q
    using b that by (auto simp: p(2) t_state_def t_new_def blank_def)
  have g: "on (tab s') c = None" "ini (tab s') = Some p" "nxt (tab s') = 2" for c using b by (auto simp: p(2) t_state_def t_new_def blank_def)
  show ?thesis using p(1) by (intro tab_okI) (auto simp: f g active_def simp del: tab_sel split: if_splits)
qed

text \<open>A machine with one processor: \<open>init\<close> is in entry 0 and sleeps in \<open>wait\<close>, its child in entry 1 runs.\<close>

definition a_pcb :: "procstate \<Rightarrow> int \<Rightarrow> nat option \<Rightarrow> chan option \<Rightarrow> pcb" where
  "a_pcb x n q h = \<lparr>pr_sz = 0, pr_pgdir = 0, pr_kstack = 0, pr_state = x, pr_pid = n, pr_parent = q, pr_tf = 0, pr_context = 0, pr_chan = h, pr_killed = False,
     pr_ofile = \<lambda>_. None, pr_cwd = Some 0, pr_name = replicate 16 0\<rparr>"

definition two_procs :: psys where
  "two_procs = \<lparr>bcache = \<lambda>_. zero_buf, idequeue = [], havedisk1 = True, ide_reg = regs_for 0 0, disk = \<lambda>_ _ _. 0, bad_sector = \<lambda>_ _. False, icache = \<lambda>_. zero_inode,
     k_end = 0, k_mem = \<lparr>freelist = 0, mem = \<lambda>_. 0\<rparr>, k_pipes = \<lambda>_. \<lparr>p_data = \<lambda>_. 0, p_nread = 0, p_nwrite = 0, p_readopen = False, p_writeopen = False\<rparr>,
     k_files = \<lambda>f. \<lparr>f_type = FD_NONE, f_ref = 0, f_readable = False, f_writable = False, f_pipe = 0, f_ip = 0, f_off = 0\<rparr>, k_proc = dup_proc,
     pt = (\<lambda>_. a_pcb UNUSED 0 None None)(0 := a_pcb SLEEPING 1 None (Some (ChProc 0)), 1 := a_pcb RUNNING 2 (Some 0) None),
     cpu_proc = (\<lambda>_. None)(0 := Some 1), initproc = Some 0, nextpid = 3, ticks = 0, a_ticks = 0, k_data = 0, a_forkret = 0, a_trapret = 0, initcode = []\<rparr>"

lemma two_procs_ok: "tab_ok (tab two_procs)"
proof -
  have f: "tab two_procs = \<lparr>st = (\<lambda>_. UNUSED)(0 := SLEEPING, 1 := RUNNING), pid = (\<lambda>_. 0)(0 := 1, 1 := 2), par = (\<lambda>_. None)(1 := Some 0), ch = (\<lambda>_. None)(0 := Some (ChProc 0)),
      kd = \<lambda>_. False, on = (\<lambda>_. None)(0 := Some 1), ini = Some 0, nxt = 3\<rparr>"
    by (auto simp: tab_def two_procs_def a_pcb_def fun_eq_iff)
  show ?thesis unfolding f by (intro tab_okI) (auto simp: active_def split: if_splits)
qed

section \<open>The scheduler\<close>

text \<open>The entry at which the scheduler of processor \<open>c\<close> goes on for its turn \<open>i\<close>, when it finds the states \<open>S 0\<close>, \<open>S 1\<close>, and so on.\<close>

primrec turn :: "nat \<Rightarrow> (nat \<Rightarrow> 'a psys_scheme) \<Rightarrow> nat \<Rightarrow> nat \<Rightarrow> nat" where
  "turn c S k 0 = k"
| "turn c S k (Suc i) = (case scheduler c (turn c S k i) (S i) of Ret (Some n, _) \<Rightarrow> n | _ \<Rightarrow> 0)"

definition can_run :: "'a psys_scheme \<Rightarrow> bool" where
  "can_run s \<longleftrightarrow> (\<forall>q<NPROC. pr_state (pt s q) = RUNNABLE \<longrightarrow> pr_pgdir (pt s q) \<noteq> 0)"

lemma scheduler_some:
  assumes "find (\<lambda>p. pr_state (pt s p) = RUNNABLE) [k..<NPROC] = Some q" "can_run s"
  shows "\<exists>t. scheduler c k s = Ret (Some (Suc q), t) \<and> cpu_proc t c = Some q \<and> pr_state (pt t q) = RUNNING"
proof -
  have "q < NPROC" "pr_state (pt s q) = RUNNABLE" using assms(1) by (auto simp: find_Some_iff)
  then have "pr_pgdir (pt s q) \<noteq> 0" using assms(2) by (simp add: can_run_def)
  then show ?thesis unfolding scheduler_def by (simp add: assms(1) switchuvm_def the_pcb_def upd_pcb_def bnd_def gets_def modify_def del: upt_rec_numeral)
qed

lemma scheduler_none: "find (\<lambda>p. pr_state (pt s p) = RUNNABLE) [k..<NPROC] = None \<Longrightarrow> scheduler c k s = Ret (None, s)"
  by (simp add: scheduler_def del: upt_rec_numeral)

lemma find_upt_Some:
  assumes "find P [k..<m] = Some q"
  shows "k \<le> q" "q < m" "\<And>j. k \<le> j \<Longrightarrow> j < q \<Longrightarrow> \<not> P j"
proof -
  obtain i where i: "i < m - k" "q = k + i" "\<And>j. j < i \<Longrightarrow> \<not> P (k + j)" using assms by (auto simp: find_Some_iff)
  then show "k \<le> q" "q < m" by auto
  show "\<not> P j" if "k \<le> j" "j < q" for j using i(3) [of "j - k"] that i(2) by simp
qed

text \<open>The turns before that of process \<open>p\<close>, from entry \<open>k\<close>.\<close>

definition wait_bound :: "nat \<Rightarrow> nat \<Rightarrow> nat" where
  "wait_bound p k = (if k \<le> p then p - k else NPROC - k + 1 + p)"

lemma next_turn:
  assumes p: "p < NPROC" "pr_state (pt (S i) p) = RUNNABLE" and r: "can_run (S i)"
  shows "(\<exists>t. scheduler c (turn c S k i) (S i) = Ret (Some (Suc p), t) \<and> cpu_proc t c = Some p \<and> pr_state (pt t p) = RUNNING) \<or>
    wait_bound p (turn c S k (Suc i)) < wait_bound p (turn c S k i)"
proof (cases "find (\<lambda>p. pr_state (pt (S i) p) = RUNNABLE) [turn c S k i..<NPROC]")
  case None
  then have "turn c S k (Suc i) = 0" by (simp add: scheduler_none)
  moreover have "\<not> turn c S k i \<le> p" using None p by (auto simp: find_None_iff)
  ultimately show ?thesis by (simp add: wait_bound_def)
next
  case (Some q)
  note q = find_upt_Some [OF Some]
  obtain t where t: "scheduler c (turn c S k i) (S i) = Ret (Some (Suc q), t)" "cpu_proc t c = Some q" "pr_state (pt t q) = RUNNING" using scheduler_some [OF Some r] by blast
  show ?thesis
  proof (cases "q = p")
    case False
    moreover have "turn c S k i \<le> p \<Longrightarrow> q \<le> p" using q(3) [of p] p(2) by (meson not_le)
    moreover have "turn c S k (Suc i) = Suc q" using t(1) by simp
    ultimately show ?thesis using q(1,2) by (auto simp: wait_bound_def simp del: turn.simps)
  qed (use t in blast)
qed

lemma wait_bound_le: "p < NPROC \<Longrightarrow> wait_bound p k \<le> NPROC"
  by (auto simp: wait_bound_def)

lemma turn_comes:
  assumes "p < NPROC" "\<And>i. i \<le> NPROC \<Longrightarrow> pr_state (pt (S i) p) = RUNNABLE \<and> can_run (S i)"
  shows "wait_bound p (turn c S k j) \<le> n \<Longrightarrow> j + n \<le> NPROC \<Longrightarrow>
    \<exists>i\<le>NPROC. \<exists>t. scheduler c (turn c S k i) (S i) = Ret (Some (Suc p), t) \<and> cpu_proc t c = Some p \<and> pr_state (pt t p) = RUNNING"
proof (induction n arbitrary: j)
  case 0
  then show ?case using next_turn [of p S j c k] assms(1) assms(2) [of j] by (auto simp del: turn.simps)
next
  case (Suc n)
  then consider "\<exists>t. scheduler c (turn c S k j) (S j) = Ret (Some (Suc p), t) \<and> cpu_proc t c = Some p \<and> pr_state (pt t p) = RUNNING" | "wait_bound p (turn c S k (Suc j)) \<le> n"
    using next_turn [of p S j c k] assms(1) assms(2) [of j] by (fastforce simp del: turn.simps)
  then show ?case
  proof cases
    case 1
    then show ?thesis using Suc.prems by (intro exI [of _ j]) simp
  next
    case 2
    then show ?thesis using Suc.IH [of "Suc j"] Suc.prems by simp
  qed
qed

section \<open>Properties\<close>

lemma psteps_ok: "pstep\<^sup>*\<^sup>* s s' \<Longrightarrow> tab_ok (tab s) \<Longrightarrow> tab_ok (tab s')"
  by (induction rule: rtranclp_induct) (auto intro: pstep_ok)

text \<open>C0. The process table. After \<open>userinit\<close>, and from any good table, whatever the processors and the processes do in whatever order: a processor's process is
  running, and on no other processor; pids of processes are positive and distinct; the parent of a process is older and has not exited, and following parents from any
  process leads to \<open>init\<close>, which never exits; only a process that sleeps or just woke up has a channel; and a process asleep in \<open>wait\<close> has not been killed and has
  children none of which has exited, so no wake-up is ever lost. This holds also where a call fails for lack of a slot or of memory.\<close>

theorem process_table_invariant:
  assumes "blank s0 \<and> userinit s0 = Ret ((), s) \<or> tab_ok (tab s)" and "pstep\<^sup>*\<^sup>* s s'"
  shows "tab_ok (tab s') \<and> (\<exists>i. initproc s' = Some i \<and> (\<forall>p<NPROC. pr_state (pt s' p) \<noteq> UNUSED \<longrightarrow> pr_state (pt s' p) \<noteq> EMBRYO \<longrightarrow> (child_of (tab s'))\<^sup>*\<^sup>* p i))"
proof -
  have "tab_ok (tab s)" using assms(1) userinit_ok by blast
  then have ok: "tab_ok (tab s')" using psteps_ok [OF assms(2)] by blast
  then obtain i where "ini (tab s') = Some i" using init_some by blast
  then show ?thesis using ok from_init [OF ok, of i] by auto
qed

text \<open>The child yields, and \<open>init\<close> is still asleep in \<open>wait\<close>.\<close>

theorem process_table_invariant_witness:
  "\<exists>s'. pstep two_procs s' \<and> tab_ok (tab s') \<and> pr_state (pt s' 1) = RUNNABLE \<and> pr_state (pt s' 0) = SLEEPING \<and> (child_of (tab s'))\<^sup>*\<^sup>* 1 0"
proof -
  let ?s = "two_procs\<lparr>pt := (pt two_procs)(1 := (pt two_procs 1)\<lparr>pr_state := RUNNABLE\<rparr>), cpu_proc := (cpu_proc two_procs)(0 := None)\<rparr>"
  have c: "cpu_proc two_procs 0 = Some 1" by (simp add: two_procs_def)
  have y: "yield 0 two_procs = Ret ((), ?s)" by (simp add: yield_def on_proc_def upd_pcb_def sched_def the_pcb_def bnd_def gets_def modify_def c)
  have p: "pstep two_procs ?s" by (rule step_yield [OF c y])
  have st: "pr_state (pt ?s 1) = RUNNABLE" "pr_state (pt ?s 0) = SLEEPING" "initproc ?s = Some 0" by (simp_all add: two_procs_def a_pcb_def)
  have "tab_ok (tab ?s) \<and> (\<exists>i. initproc ?s = Some i \<and> (\<forall>p<NPROC. pr_state (pt ?s p) \<noteq> UNUSED \<longrightarrow> pr_state (pt ?s p) \<noteq> EMBRYO \<longrightarrow> (child_of (tab ?s))\<^sup>*\<^sup>* p i))"
    by (rule process_table_invariant [of two_procs two_procs]) (use two_procs_ok p in auto)
  then have "tab_ok (tab ?s)" "(child_of (tab ?s))\<^sup>*\<^sup>* 1 0" using st by auto
  then show ?thesis using p st by blast
qed

text \<open>C0. The scheduler is fair. While a process stays runnable, the scheduler of a processor chooses it after at most 64 other turns, from whatever entry of the table
  it goes on and whatever happens to all the other processes between its turns; then the processor's process is that one, in state \<open>RUNNING\<close>. Processes that can
  run are assumed to have a page directory, without which \<open>switchuvm\<close> panics.\<close>

theorem scheduler_fair:
  assumes "p < NPROC" and "\<And>i. i \<le> NPROC \<Longrightarrow> pr_state (pt (S i) p) = RUNNABLE \<and> can_run (S i)"
  shows "\<exists>i\<le>NPROC. \<exists>t. scheduler c (turn c S k i) (S i) = Ret (Some (Suc p), t) \<and> cpu_proc t c = Some p \<and> pr_state (pt t p) = RUNNING"
  by (rule turn_comes [of p S c k 0 NPROC]) (use assms wait_bound_le in auto)

definition all_runnable :: psys where
  "all_runnable = two_procs\<lparr>pt := \<lambda>p. (a_pcb RUNNABLE (int p + 1) None None)\<lparr>pr_pgdir := 4096\<rparr>, cpu_proc := \<lambda>_. None\<rparr>"

theorem scheduler_fair_witness:
  "\<exists>i\<le>NPROC. \<exists>t. scheduler 0 (turn 0 (\<lambda>_. all_runnable) 40 i) all_runnable = Ret (Some 6, t) \<and> cpu_proc t 0 = Some 5 \<and> pr_state (pt t 5) = RUNNING"
  using scheduler_fair [of 5 "\<lambda>_. all_runnable" 0 40] by (simp add: all_runnable_def can_run_def a_pcb_def)

end
