(* ===== verification/Proc_Grow.thy ===== *)
theory Proc_Grow
  imports Proc_Props Vm_Props
begin

text \<open>
  The size of a process: \<open>growproc\<close> of \<open>kernel/proc.c\<close>, behind the system call \<open>sbrk\<close>. \<open>grow_outcome\<close> is what the call answers, the size it records
  and how many pages of memory are kept and are there in the end.
\<close>

definition grow_outcome :: "u32 \<Rightarrow> int \<Rightarrow> nat \<Rightarrow> int \<times> u32 \<times> nat \<times> nat" where
  "grow_outcome old n free =
     (let new = int (unat old) + n; w = old + of_int n in
      if n = 0 \<or> new < 0 then (0, old, npages old, npages old)
      else if n > 0 then
        if w \<le> USERTOP \<and> npages w - npages old \<le> free then (0, w, npages old, npages w) else (-1, old, npages old, npages old)
      else if new = 0 then (-1, old, 0, 0)
      else (0, w, npages w, npages w))"

definition grown_mem :: "u32 \<Rightarrow> u32 \<Rightarrow> (nat \<Rightarrow> u32 option) \<Rightarrow> (nat \<Rightarrow> u32 option) \<Rightarrow> u32 list \<Rightarrow> kmem \<Rightarrow> nat \<Rightarrow> nat \<Rightarrow> kmem \<Rightarrow> bool" where
  "grown_mem kend d T U xs m keep tot m' \<longleftrightarrow> (\<exists>E' U' xs'. uspace kend m' d T E' U' xs' \<and> dom U' = {..<tot} \<and> ran U' \<union> set xs' = ran U \<union> set xs \<and>
     (\<forall>a. user_view m' U' a = (if a < 4096 * keep then user_view m U a else if a < 4096 * tot then Some 0 else None)))"

lemma grown_memI:
  "uspace kend m' d T E' U' xs' \<Longrightarrow> dom U' = {..<tot} \<Longrightarrow> ran U' \<union> set xs' = ran U \<union> set xs \<Longrightarrow>
   (\<And>a. user_view m' U' a = (if a < 4096 * keep then user_view m U a else if a < 4096 * tot then Some 0 else None)) \<Longrightarrow> grown_mem kend d T U xs m keep tot m'"
  unfolding grown_mem_def by blast

lemma view_outside: "dom U = {..<k} \<Longrightarrow> \<not> a < 4096 * k \<Longrightarrow> user_view m U a = None" for k :: nat
  by (rule user_view_None, rule dom_None [of U k]) auto

lemma grown_refl: "uspace kend m' d T E U xs' \<Longrightarrow> dom U = {..<k} \<Longrightarrow> set xs' = set xs \<Longrightarrow> (\<And>a. user_view m' U a = user_view m U a) \<Longrightarrow> grown_mem kend d T U xs m k k m'"
  by (rule grown_memI, assumption, assumption) (simp_all add: view_outside)

lemma run_with_mem: "run m (k_mem s) (\<lambda>r k. P r (s\<lparr>k_mem := k\<rparr>)) \<Longrightarrow> run (with_mem m) s P"
  by (auto simp: run_def with_mem_def)

section \<open>The memory\<close>



lemma uint_add_int: "uint (old + of_int n) = (uint old + n) mod 4294967296" for old :: u32
  by (simp add: uint_word_ariths uint_word_of_int take_bit_eq_mod mod_add_right_eq)

lemma size_up:
  assumes "old \<le> USERTOP" "0 < n" "n < 2147483648"
  shows "unat (old + of_int n) = unat old + nat n"
proof -
  have o: "0 \<le> uint old" "uint old \<le> 655360" using assms(1) by (simp_all add: word_le_def)
  have "(uint old + n) mod 4294967296 = uint old + n" using o assms(2,3) by (intro mod_pos_pos_trivial) linarith+
  then have "uint (old + of_int n) = uint old + n" by (simp add: uint_add_int)
  then have "int (unat (old + of_int n)) = int (unat old + nat n)" using assms(2) by (simp only: uint_nat [symmetric] of_nat_add)
  then show ?thesis by (simp only: of_nat_eq_iff)
qed

lemma size_down:
  assumes "old \<le> USERTOP" "n < 0" "- 2147483648 \<le> n"
  shows "int (unat (old + of_int n)) = (if int (unat old) + n < 0 then 4294967296 else 0) + int (unat old) + n"
proof -
  have o: "0 \<le> uint old" "uint old \<le> 655360" using assms(1) by (simp_all add: word_le_def)
  have "uint (old + of_int n) = (uint old + n) mod 4294967296" by (rule uint_add_int)
  also have "\<dots> = (if uint old + n < 0 then 4294967296 else 0) + uint old + n"
  proof (cases "uint old + n < 0")
    case True
    have "(uint old + n) mod 4294967296 = (uint old + n + 4294967296) mod 4294967296" by simp
    also have "\<dots> = uint old + n + 4294967296" using True o assms(2,3) by (intro mod_pos_pos_trivial) linarith+
    finally show ?thesis using True by simp
  next
    case False
    then have "(uint old + n) mod 4294967296 = uint old + n" using o assms(2,3) by (intro mod_pos_pos_trivial) linarith+
    then show ?thesis using False by simp
  qed
  finally show ?thesis by (simp only: uint_nat)
qed

lemma grow_mem_law:
  assumes u: "uspace kend m d T E U xs" and dom: "dom U = {..<npages old}" and old: "0 < old" "old \<le> USERTOP" and n: "- 2147483648 \<le> n" "n < 2147483648"
    and o: "grow_outcome old n (length xs) = (r, sz, keep, tot)"
  shows "run (if n > 0 then allocuvm kend d old (old + of_int n) else if n < 0 then deallocuvm kend d old (old + of_int n) else ret old) m
    (\<lambda>w m'. grown_mem kend d T U xs m keep tot m' \<and> (if n \<noteq> 0 \<and> w = 0 then r = -1 \<and> sz = old else r = 0 \<and> sz = w))"
proof -
  let ?w = "old + of_int n"
  have id: "grown_mem kend d T U xs m (npages old) (npages old) m" by (rule grown_refl [OF u dom]) simp_all
  consider "n = 0" | "0 < n" | "n < 0" by linarith
  then show ?thesis
  proof cases
    case 1
    then show ?thesis using o id by (auto simp: grow_outcome_def Let_def run_def)
  next
    case 2
    have w: "old \<le> ?w" "?w \<noteq> 0" using size_up [OF old(2) 2 n(2)] 2 by (auto simp: word_le_nat_alt simp flip: unat_eq_zero)
    have nn: "(n = 0 \<or> int (unat old) + n < 0) = False" using 2 of_nat_0_le_iff [of "unat old", where 'a = int] by (simp only: de_Morgan_disj not_less simp_thms) linarith
    show ?thesis
    proof (cases "?w \<le> USERTOP")
      case True
      have o': "(r, sz, keep, tot) = (if npages ?w - npages old \<le> length xs then (0, ?w, npages old, npages ?w) else (-1, old, npages old, npages old))"
        using o True unfolding grow_outcome_def Let_def nn by (auto simp: 2)
      have "run (allocuvm kend d old ?w) m (\<lambda>w m'. grown_mem kend d T U xs m keep tot m' \<and> (if w = 0 then r = -1 \<and> sz = old else r = 0 \<and> sz = w))"
      proof (rule run_weaken [OF allocuvm_view [OF u True w(1) dom]], goal_cases)
        case (1 x m')
        show ?case
        proof (cases "npages ?w - npages old \<le> length xs")
          case True
          then show ?thesis using 1 o' w(2) by (auto intro: grown_memI)
        next
          case False
          then show ?thesis using 1 o' grown_refl [OF _ dom] by auto
        qed
      qed
      then show ?thesis using 2 by simp
    next
      case False
      have "(r, sz, keep, tot) = (-1, old, npages old, npages old)" using o False unfolding grow_outcome_def Let_def nn by (auto simp: 2)
      moreover have "USERTOP < ?w" using False by (simp only: not_le)
      ultimately show ?thesis using 2 id by (simp add: run_def allocuvm_def)
    qed
  next
    case 3
    note w = size_down [OF old(2) 3 n(1)]
    have o0: "0 < unat old" "unat old \<le> 655360" using old by (simp_all add: word_less_nat_alt word_le_nat_alt)
    show ?thesis
    proof (cases "int (unat old) + n < 0")
      case True
      then have "int (unat ?w) = 4294967296 + int (unat old) + n" unfolding w by (simp only: if_True)
      then have "unat old \<le> unat ?w" using n(1) o0 by linarith
      then have "?w \<ge> old" by (simp only: word_le_nat_alt)
      moreover have "(r, sz, keep, tot) = (0, old, npages old, npages old)" using o True unfolding grow_outcome_def Let_def by auto
      ultimately show ?thesis using 3 id old(1) by (auto simp: run_def deallocuvm_def)
    next
      case False
      then have e: "int (unat ?w) = int (unat old) + n" unfolding w by (simp only: if_False add_0)
      then have "unat ?w < unat old" "unat ?w = 0 \<longleftrightarrow> int (unat old) + n = 0" using 3 by linarith+
      then have l: "?w < old" "?w = 0 \<longleftrightarrow> int (unat old) + n = 0" by (simp_all only: word_less_nat_alt unat_eq_zero)
      have z: "npages 0 = 0" by (simp add: npages_def)
      have "run (deallocuvm kend d old ?w) m (\<lambda>w m'. grown_mem kend d T U xs m keep tot m' \<and> (if w = 0 then r = -1 \<and> sz = old else r = 0 \<and> sz = w))"
      proof (rule run_weaken [OF deallocuvm_view [OF u old(2) l(1) dom]], goal_cases)
        case (1 x m')
        then have x: "x = ?w" and g: "grown_mem kend d T U xs m (npages ?w) (npages ?w) m'" by (auto intro!: grown_memI)
        have "(r, sz, keep, tot) = (if ?w = 0 then (-1, old, 0, 0) else (0, ?w, npages ?w, npages ?w))"
          using o 3 False unfolding l(2) grow_outcome_def Let_def by (auto split: if_splits)
        then show ?case using x g z by (cases "?w = 0") auto
      qed
      then show ?thesis using 3 by simp
    qed
  qed
qed

section \<open>The process\<close>

lemma run_on_proc: "cpu_proc s c = Some me \<Longrightarrow> run (k me) s P \<Longrightarrow> run (on_proc c k) s P"
  by (simp add: on_proc_def run_def)

text \<open>C0. \<open>growproc\<close>, for every number of bytes. Growing to at most \<open>USERTOP\<close>, with enough free pages, records the new size, and the process sees its old
  bytes and zeros after them; otherwise the answer is \<open>-1\<close> and size and memory are as before. Shrinking to a size above 0 keeps exactly the
  pages of the new size and gives the others back; shrinking below 0 does nothing, with answer 0; shrinking to exactly 0 gives all pages back, but answers
  \<open>-1\<close> and leaves the old size recorded. No page is ever lost or given out twice, and only the size of this process changes.\<close>

theorem growproc_correct:
  assumes "cpu_proc s c = Some me" and "uspace (k_end s) (k_mem s) (pr_pgdir (pt s me)) T E U xs" and "dom U = {..<npages (pr_sz (pt s me))}"
    and "0 < pr_sz (pt s me)" and "pr_sz (pt s me) \<le> USERTOP" and "- 2147483648 \<le> n" and "n < 2147483648"
    and "grow_outcome (pr_sz (pt s me)) n (length xs) = (r, sz, keep, tot)"
  shows "run (growproc c n) s (\<lambda>r' s'. r' = r \<and> grown_mem (k_end s) (pr_pgdir (pt s me)) T U xs (k_mem s) keep tot (k_mem s') \<and>
    s' = s\<lparr>k_mem := k_mem s', pt := (pt s)(me := (pt s me)\<lparr>pr_sz := sz\<rparr>)\<rparr>)"
proof -
  let ?x = "pt s me" and ?m = "\<lambda>x kend. if n > 0 then allocuvm kend (pr_pgdir x) (pr_sz x) (pr_sz x + of_int n) else if n < 0 then deallocuvm kend (pr_pgdir x) (pr_sz x) (pr_sz x + of_int n) else ret (pr_sz x)"
  have i: "(if n > 0 then with_mem (allocuvm kend (pr_pgdir x) (pr_sz x) (pr_sz x + of_int n)) else if n < 0 then with_mem (deallocuvm kend (pr_pgdir x) (pr_sz x) (pr_sz x + of_int n)) else ret (pr_sz x))
      = with_mem (?m x kend)" for x kend
    by (auto simp: with_mem_def fun_eq_iff)
  have d: "pr_pgdir ?x \<noteq> 0" using assms(2) by (auto simp: uspace_def aspace_def pgdir_ok_def page_ok_def tables_def)
  have "run (with_mem (?m ?x (k_end s))) s (\<lambda>w s'. \<exists>k. s' = s\<lparr>k_mem := k\<rparr> \<and> grown_mem (k_end s) (pr_pgdir ?x) T U xs (k_mem s) keep tot k \<and>
      (if n \<noteq> 0 \<and> w = 0 then r = -1 \<and> sz = pr_sz ?x else r = 0 \<and> sz = w))"
    by (rule run_with_mem, rule run_weaken [OF grow_mem_law [OF assms(2-8)]]) auto
  then obtain w k where w: "with_mem (?m ?x (k_end s)) s = Ret (w, s\<lparr>k_mem := k\<rparr>)" "grown_mem (k_end s) (pr_pgdir ?x) T U xs (k_mem s) keep tot k"
      "if n \<noteq> 0 \<and> w = 0 then r = -1 \<and> sz = pr_sz ?x else r = 0 \<and> sz = w" by (auto simp: run_def)
  have "growproc c n s = Ret (r, s\<lparr>k_mem := k, pt := (pt s)(me := ?x\<lparr>pr_sz := sz\<rparr>)\<rparr>)"
    unfolding growproc_def i using w(1,3) assms(1) d
    by (cases "n \<noteq> 0 \<and> w = 0") (auto simp: on_proc_def the_pcb_def upd_pcb_def switchuvm_def bnd_def gets_def modify_def fun_upd_same simp del: fun_upd_apply)
  then show ?thesis using w(2) by (simp add: run_def)
qed

text \<open>A process of two pages gives one back.\<close>

theorem growproc_correct_witness:
  "\<exists>(s :: psys) s' U U'. growproc 0 (- 4096) s = Ret (0, s') \<and> pr_sz (pt s 1) = 0x2000 \<and> pr_sz (pt s' 1) = 0x1000 \<and> dom U = {..<2} \<and> dom U' = {..<1} \<and>
     (\<forall>a<4096. user_view (k_mem s') U' a = user_view (k_mem s) U a)"
proof -
  obtain m d T E U xs where u: "uspace 0x108000 m d T E U xs" and U: "dom U = {..<2}" by (rule a_space)
  let ?s = "two_procs\<lparr>k_end := 0x108000, k_mem := m, pt := (pt two_procs)(1 := (pt two_procs 1)\<lparr>pr_sz := 0x2000, pr_pgdir := d\<rparr>)\<rparr>"
  have f: "cpu_proc ?s 0 = Some 1" "k_end ?s = 0x108000" "k_mem ?s = m" "pr_sz (pt ?s 1) = 0x2000" "pr_pgdir (pt ?s 1) = d" by (simp_all add: two_procs_def)
  have N: "npages 0x2000 = 2" "npages 0x1000 = 1" by (simp_all add: npages_def)
  have o: "grow_outcome 0x2000 (- 4096) (length xs) = (0, 0x1000, 1, 1)" by (simp add: grow_outcome_def Let_def N)
  have "run (growproc 0 (- 4096)) ?s (\<lambda>r' s'. r' = 0 \<and> grown_mem 0x108000 d T U xs m 1 1 (k_mem s') \<and>
      s' = ?s\<lparr>k_mem := k_mem s', pt := (pt ?s)(1 := (pt ?s 1)\<lparr>pr_sz := 0x1000\<rparr>)\<rparr>)"
    by (rule growproc_correct [where s = ?s and me = 1 and E = E and c = 0, unfolded f]) (use u U N o in simp_all)
  then obtain s' where g: "growproc 0 (- 4096) ?s = Ret (0, s')" "grown_mem 0x108000 d T U xs m 1 1 (k_mem s')" "s' = ?s\<lparr>k_mem := k_mem s', pt := (pt ?s)(1 := (pt ?s 1)\<lparr>pr_sz := 0x1000\<rparr>)\<rparr>"
    unfolding run_def by blast
  obtain U' where U': "dom U' = {..<1}" "\<forall>a<4096. user_view (k_mem s') U' a = user_view m U a" using g(2) unfolding grown_mem_def by auto
  have "pr_sz (pt s' 1) = 0x1000" by (subst g(3)) simp
  then show ?thesis using g(1) U U' f(3,4) by (intro exI [of _ ?s] exI [of _ s'] exI [of _ U] exI [of _ U']) simp
qed

end
