(* ===== verification/Spec2Isabelle.thy ===== *)
theory Spec2Isabelle
  imports Fscheck_Props Sysfile Grep Sh_Grammar Fs_Props Spinlock Umalloc Console Vm_Props Sysfile_Refs Proc_Grow
begin

text \<open>
  \<^bold>\<open>A verification of an xv6 kernel with small files and of its file system checker.\<close>

  \<^bold>\<open>The program.\<close> The repository holds two programs. \<open>xv6/\<close> is a teaching operating system for the x86: a kernel
  (\<open>xv6/kernel\<close>), user programs with their library (\<open>xv6/user\<close>), and tools. Its file system has an extension, files of type
  \<open>T_SMALLFILE\<close>, whose at most 52 bytes are kept in the block addresses of the inode. \<open>a/fscheck.c\<close> checks the image of
  such a file system and reports the first of a list of inconsistencies. The parts of the kernel stand on each other: the IDE driver
  below the buffer cache, the cache below block allocation and inodes, inodes below directories, paths and open files, these below
  the system calls; the page allocator below page tables and pipes; spin locks below everything that several processors share.

  \<^bold>\<open>Style.\<close> A C function is a HOL function of the same name. Functions without effects on the kernel are pure and return \<open>'a res\<close>
  (theory \<open>Xv6_Prelude\<close>): a result, an error exit with its message (\<open>Halt\<close>), an invalid access (\<open>Fault\<close>), or no return
  (\<open>NoRet\<close>). Kernel functions are computations \<open>('s, 'a) km\<close> over a state record (\<open>Kernel_Monad\<close>); the records extend each
  other (\<open>bio\<close>, \<open>fsys\<close>, \<open>kstate\<close>, \<open>kcons\<close> and \<open>psys\<close>) as the components do. \<open>run m s P\<close> is total: the computation returns from
  \<open>s\<close> and \<open>P\<close> holds. Loops are structural, or have fuel whose exhaustion is \<open>NoRet\<close>, so that a proved \<open>run\<close>
  includes that the fuel is enough. Machine integers are 32-bit words, and \<open>int\<close> reduced by \<open>i32\<close> in the checker. Pointers to table
  slots are indices, pointers into physical memory are addresses.

  \<^bold>\<open>The theories.\<close>

  \<^item> \<open>Xv6_Prelude\<close>, \<open>Kernel_Monad\<close>: bytes, words, results, loops, the locale \<open>codec\<close> of fixed-size encodings (interpreted by
    the integers, inodes, directory entries and the super block), the kernel monad.
  \<^item> \<open>Fs_Layout\<close>: \<open>include/fs.h\<close>, \<open>a/fs.h\<close>, \<open>include/stat.h\<close>; encoders and decoders of the disk format.
  \<^item> \<open>Fscheck\<close> to \<open>Fscheck_Props\<close>: \<open>a/fscheck.c\<close>. \<open>Fscheck\<close> has every function; the others say which images each check accepts
    (locales \<open>dir_scan\<close>, \<open>dir_fold\<close>, \<open>tree_walk\<close>) and that the whole run accepts exactly the consistent images, under the
    assumption on the work arrays that \<open>main\<close> is meant to establish.
  \<^item> \<open>Bio\<close>, \<open>Bio_Ring\<close>, \<open>Bio_Cache\<close>: \<open>kernel/ide.c\<close> (the queue, as one synchronous transfer) and \<open>kernel/bio.c\<close>. The
    ring of buffers refines a list, and the locale \<open>buffer_cache\<close> is what clients rely on.
  \<^item> \<open>Kstring\<close>: \<open>kernel/string.c\<close>.
  \<^item> \<open>Fs\<close>, \<open>Fs_Data\<close>: \<open>kernel/fs.c\<close>, all of it. \<open>Fs_Blocks\<close>, \<open>Fs_Inodes\<close>, \<open>Fs_Props\<close>: block allocation, the inode
    cache, reading and writing of files, over the contract of the buffer cache.
  \<^item> \<open>Kalloc\<close>: \<open>kernel/kalloc.c\<close>, the free list through the free pages.
  \<^item> \<open>Vm\<close>: \<open>kernel/vm.c\<close>, page tables in physical memory. \<open>Vm_Spec\<close> (page directories, walking), \<open>Vm_Map\<close> (mapping, the kernel part),
    \<open>Vm_User\<close> (growing and shrinking), \<open>Vm_Copy\<close> (freeing, copying) and \<open>Vm_Props\<close> say what its functions do to an address space.
  \<^item> \<open>Ring_Buffer\<close>, \<open>Pipe\<close>: \<open>kernel/pipe.c\<close>, with the interleavings of readers, writers and closes as a step relation; the
    locale \<open>bounded_fifo\<close> is the contract of a pipe.
  \<^item> \<open>File\<close>, \<open>Sysfile\<close>: \<open>kernel/file.c\<close>, the fetching of arguments in \<open>kernel/syscall.c\<close>, \<open>kernel/sysfile.c\<close>.
    \<open>Frame\<close>: the operations of the lower layers keep every invariant that does not look at their part of the state (locales \<open>bio_blind\<close>,
    \<open>fs_blind\<close>, \<open>pipe_blind\<close>, interpreted by the invariants of files and of processes); \<open>Sysfile_Refs\<close>: descriptors and reference counts.
  \<^item> \<open>Proc\<close>: \<open>kernel/proc.c\<close> and \<open>kernel/sysproc.c\<close>, each function between two context switches, and the step relation \<open>pstep\<close> of the
    whole machine. \<open>Proc_Inv\<close>: the abstract process table, its operations and its invariant; \<open>Proc_Props\<close>: the functions refine these
    operations, and the scheduler is fair; \<open>Proc_Grow\<close>: the size of a process.
  \<^item> \<open>Spinlock\<close>: \<open>kernel/spinlock.c\<close>, as whole calls and as instructions of several processors that interleave.
  \<^item> \<open>Console\<close>: \<open>kernel/console.c\<close> and the output of \<open>kernel/uart.c\<close>; the input buffer refines a line editor.
  \<^item> \<open>User_Lib\<close>, \<open>Umalloc\<close>, \<open>Grep\<close>, \<open>Sh\<close>: \<open>user/ulib.c\<close>, \<open>user/printf.c\<close>, \<open>user/umalloc.c\<close>, \<open>user/grep.c\<close>, \<open>user/sh.c\<close>.

  \<^bold>\<open>What is shown.\<close> The checker accepts exactly consistent images, and where it fails to (cycles of directories, its work arrays).
  The buffer cache behaves as a disk without a cache; blocks are allocated and freed exactly; inodes and contents survive being
  written and read. Every system call keeps descriptors and reference counts right. Address spaces are copied, grown and written to exactly; the process
  table is well formed in every reachable state, no exit is missed by a waiting parent, and every runnable process gets its turn. The page allocator and the user allocator hand out memory that nobody else has. Pipes are first-in first-out under every
  interleaving and do not get stuck; locks exclude each other. The console is a line editor. The shell's parser is total, within its
  arrays and right; \<open>grep\<close>'s matcher decides its languages; \<open>printf\<close> and \<open>atoi\<close> are inverse. The properties carry
  the ids C1, C2, and so on in the text before them, and hypotheses have witnesses on concrete states.

  \<^bold>\<open>Bounds and fuel.\<close> \<open>kinit_loop\<close> has 4097 passes for the 4096 pages below \<open>PHYSTOP\<close>; \<open>VM_FUEL\<close> is one more than the pages of the
  address space; the loops of \<open>umalloc.c\<close> have one pass per block of the free list and one for new memory; the recursive checks of
  \<open>a/fscheck.c\<close> and the parser of the shell have a depth that the theorems bound by the inodes and by the length of the line.

  \<^bold>\<open>Not modelled.\<close> Assembly and generated code (boot, traps, context switch), code that only programs device registers (interrupt
  controllers, timer, multiprocessor tables, initialisation of the serial port, segment descriptors), and the test programs, which are scripts of
  system calls. Also left out are the loading of programs (\<open>exec\<close> is a parameter of the system calls), the dispatch of traps, the key tables, the image
  builder \<open>mkfs\<close> and the small user programs. In theory \<open>Proc\<close> locks are not part of the state: a call is one step, which the lock of the
  table ensures for all of a call but the opening and closing of files and the copy of memory in \<open>fork\<close>. Waiting for the disk is a synchronous transfer. Sleeping inside a system call is \<open>NoRet\<close> where no other
  process is part of the model; the interleavings of pipes and locks have their own step relations.
\<close>

end
